(* ===== verification/Prelude.thy ===== *)
theory Prelude
  imports Main "HOL-Library.Word"
begin

unbundle bit_operations_syntax

text \<open>
  Shared vocabulary of the development: the C integer types as words, the ways in which
  kernel code stops abnormally (\<open>fault\<close>), sequencing of fallible steps
  (\<open>rbind\<close>), little-endian encoding of 32-bit words, the pointwise exclusive or of
  byte blocks, and the collections of rewrite rules the component theories extend.
\<close>

section \<open>Machine types\<close>

type_synonym byte = "8 word"
type_synonym u16 = "16 word"
type_synonym u32 = "32 word"
type_synonym u64 = "64 word"

text \<open>
  A function of the kernel either returns or stops: it calls \<^verbatim>\<open>panic\<close>, it indexes an array
  outside its bounds, it dereferences a null pointer, it divides by zero, or it goes to
  sleep and is not woken.  Where C gives no meaning to what follows, the model stops.
  \<open>OutOfFuel\<close> is the result of a bounded recursion whose bound was too small; the theorems
  on such functions show that a result other than this one is reached.
\<close>

datatype fault =
    Panic string
  | OutOfBounds
  | NullDeref
  | DivByZero
  | Sleeping
  | OutOfFuel

type_synonym 'a result = "fault + 'a"

definition rbind :: "'a result \<Rightarrow> ('a \<Rightarrow> 'b result) \<Rightarrow> 'b result" where
  "rbind m f = (case m of Inl e \<Rightarrow> Inl e | Inr x \<Rightarrow> f x)"

text \<open>A loop over a list of indices whose body may stop.\<close>

fun rfold :: "('a \<Rightarrow> 's \<Rightarrow> 's result) \<Rightarrow> 'a list \<Rightarrow> 's \<Rightarrow> 's result" where
  "rfold f [] s = Inr s"
| "rfold f (x # xs) s = rbind (f x s) (rfold f xs)"

named_theorems layout_simps \<open>sizes and offsets of the C structures\<close>
named_theorems const_simps \<open>values of the C preprocessor constants\<close>

section \<open>Bytes and little-endian words\<close>

definition le32 :: "u32 \<Rightarrow> byte list" where
  "le32 w = [ucast w, ucast (drop_bit 8 w), ucast (drop_bit 16 w), ucast (drop_bit 24 w)]"

definition rd32 :: "byte list \<Rightarrow> u32" where
  "rd32 bs = (ucast (bs ! 0) :: u32) OR push_bit 8 (ucast (bs ! 1))
     OR push_bit 16 (ucast (bs ! 2)) OR push_bit 24 (ucast (bs ! 3))"

definition le64 :: "u64 \<Rightarrow> byte list" where
  "le64 w = map (\<lambda>i. ucast (drop_bit (8 * i) w)) [0..<8]"

definition rd64 :: "byte list \<Rightarrow> u64" where
  "rd64 bs = fold (\<lambda>i w. w OR push_bit (8 * i) (ucast (bs ! i))) [0..<8] 0"

section \<open>Byte-addressed memory\<close>

text \<open>
  Physical memory is a function from 64-bit addresses to bytes.  A byte \<open>x\<close> lies in the
  \<open>n\<close> bytes from address \<open>a\<close> when the distance \<open>x - a\<close>, taken modulo \<open>2 ^ 64\<close>, is below \<open>n\<close>.
\<close>

type_synonym memory = "u64 \<Rightarrow> byte"

definition within :: "u64 \<Rightarrow> nat \<Rightarrow> u64 \<Rightarrow> bool" where
  "within a n x \<longleftrightarrow> unat (x - a) < n"

definition mem_fill :: "memory \<Rightarrow> u64 \<Rightarrow> byte \<Rightarrow> nat \<Rightarrow> memory" where
  "mem_fill m a c n = (\<lambda>x. if within a n x then c else m x)"

definition mem_write :: "memory \<Rightarrow> u64 \<Rightarrow> byte list \<Rightarrow> memory" where
  "mem_write m a bs = (\<lambda>x. if within a (length bs) x then bs ! unat (x - a) else m x)"

definition mem_read :: "memory \<Rightarrow> u64 \<Rightarrow> nat \<Rightarrow> byte list" where
  "mem_read m a n = map (\<lambda>i. m (a + of_nat i)) [0..<n]"

definition get64 :: "memory \<Rightarrow> u64 \<Rightarrow> u64" where
  "get64 m a = rd64 (mem_read m a 8)"

definition put64 :: "memory \<Rightarrow> u64 \<Rightarrow> u64 \<Rightarrow> memory" where
  "put64 m a v = mem_write m a (le64 v)"

definition get32 :: "memory \<Rightarrow> u64 \<Rightarrow> u32" where
  "get32 m a = rd32 (mem_read m a 4)"

definition put32 :: "memory \<Rightarrow> u64 \<Rightarrow> u32 \<Rightarrow> memory" where
  "put32 m a v = mem_write m a (le32 v)"

definition xor_bytes :: "byte list \<Rightarrow> byte list \<Rightarrow> byte list" where
  "xor_bytes xs ys = map2 (XOR) xs ys"

section \<open>Lemmas\<close>

lemma rbind_Inr [simp]: "rbind (Inr x) f = f x"
  by (simp add: rbind_def)

lemma rbind_Inl [simp]: "rbind (Inl e) f = Inl e"
  by (simp add: rbind_def)

lemma rbind_eq_Inr: "rbind m f = Inr y \<longleftrightarrow> (\<exists>x. m = Inr x \<and> f x = Inr y)"
  by (cases m) auto

lemma rbind_cong [fundef_cong]:
  "m = m' \<Longrightarrow> (\<And>x. m' = Inr x \<Longrightarrow> f x = g x) \<Longrightarrow> rbind m f = rbind m' g"
  by (cases m') auto

lemma rfold_append: "rfold f (xs @ ys) s = rbind (rfold f xs s) (rfold f ys)"
proof (induction xs arbitrary: s)
  case (Cons x xs)
  then show ?case by (cases "f x s") auto
qed simp

lemma rfold_snoc: "rfold f xs s = Inr t \<Longrightarrow> rfold f (xs @ [x]) s = f x t"
  by (cases "f x t") (simp_all add: rfold_append)

text \<open>
  The loop rule: an invariant indexed by the prefix already processed, which every
  iteration extends, holds of the whole list when the loop has run.
\<close>

lemma rfold_invariant:
  assumes "P [] s"
    and "\<And>ys x t. (\<exists>zs. xs = ys @ x # zs) \<Longrightarrow> P ys t \<Longrightarrow> \<exists>t'. f x t = Inr t' \<and> P (ys @ [x]) t'"
  shows "\<exists>t. rfold f xs s = Inr t \<and> P xs t"
  using assms
proof (induction xs arbitrary: P s)
  case Nil
  then show ?case by simp
next
  case (Cons a xs)
  from Cons.prems(2)[of "[]" a s] Cons.prems(1)
  obtain s1 where s1: "f a s = Inr s1" "P [a] s1" by auto
  have "\<exists>t. rfold f xs s1 = Inr t \<and> P (a # xs) t"
  proof (rule Cons.IH[of "\<lambda>ys. P (a # ys)"])
    show "P [a] s1" by (rule s1(2))
  next
    fix ys x t
    assume "\<exists>zs. xs = ys @ x # zs" and "P (a # ys) t"
    with Cons.prems(2)[of "a # ys" x t]
    show "\<exists>t'. f x t = Inr t' \<and> P (a # ys @ [x]) t'" by auto
  qed
  with s1 show ?case by simp
qed

lemma length_le32 [simp]: "length (le32 w) = 4"
  by (simp add: le32_def)

lemma rd32_le32 [simp]: "rd32 (le32 w) = w"
proof (rule bit_word_eqI)
  fix n
  assume "n < LENGTH(32)"
  then consider "n < 8" | "8 \<le> n" "n < 16" | "16 \<le> n" "n < 24" | "24 \<le> n" "n < 32"
    by fastforce
  then show "bit (rd32 (le32 w)) n = bit w n"
    by cases (auto simp: rd32_def le32_def bit_simps less_diff_conv2)
qed

lemma length_xor_bytes [simp]: "length (xor_bytes xs ys) = min (length xs) (length ys)"
  by (simp add: xor_bytes_def)

lemma nth_xor_bytes [simp]:
  "i < length xs \<Longrightarrow> i < length ys \<Longrightarrow> xor_bytes xs ys ! i = xs ! i XOR ys ! i"
  by (simp add: xor_bytes_def)

lemma length_le64 [simp]: "length (le64 w) = 8"
  by (simp add: le64_def)

lemma bit_fold_bytes:
  "bit (fold (\<lambda>i w. w OR push_bit (8 * i) (ucast (bs ! i :: byte))) [0..<k] (0 :: u64)) n \<longleftrightarrow>
   n < 64 \<and> n < 8 * k \<and> bit (bs ! (n div 8)) (n mod 8)"
proof (induction k)
  case (Suc k)
  have "bit (push_bit (8 * k) (ucast (bs ! k)) :: u64) n \<longleftrightarrow>
      n < 64 \<and> 8 * k \<le> n \<and> n < 8 * Suc k \<and> bit (bs ! (n div 8)) (n mod 8)"
  proof (cases "8 * k \<le> n \<and> n < 8 * Suc k")
    case True
    define r where "r = n - 8 * k"
    have "n = 8 * k + r" "r < 8" using True by (auto simp: r_def)
    then have "n div 8 = k" "n mod 8 = n - 8 * k" by simp_all
    with True show ?thesis by (auto simp: bit_simps)
  next
    case False
    then have "\<not> bit (push_bit (8 * k) (ucast (bs ! k)) :: u64) n"
      by (auto simp: bit_simps less_diff_conv2 dest!: bit_imp_le_length)
    with False show ?thesis by blast
  qed
  with Suc.IH show ?case by (auto simp: bit_or_iff)
qed simp

lemma bit_rd64: "n < 64 \<Longrightarrow> bit (rd64 bs) n = bit (bs ! (n div 8)) (n mod 8)"
  unfolding rd64_def bit_fold_bytes by simp

lemma rd64_le64 [simp]: "rd64 (le64 w) = w"
proof (rule bit_word_eqI)
  fix n
  assume "n < LENGTH(64)"
  then have n: "n < 64" by simp
  then have "n div 8 < 8" by (simp add: less_mult_imp_div_less)
  with n show "bit (rd64 (le64 w)) n = bit w n"
    by (simp add: bit_rd64 le64_def bit_simps)
qed

subsection \<open>Memory\<close>

lemma unat_of_nat64: "i < 2 ^ 64 \<Longrightarrow> unat (of_nat i :: u64) = i"
  by (simp add: unat_of_nat)

lemma within_self [simp]: "0 < n \<Longrightarrow> within a n a"
  by (simp add: within_def)

lemma within_offset: "i < 2 ^ 64 \<Longrightarrow> within a n (a + of_nat i) \<longleftrightarrow> i < n"
  by (simp add: within_def unat_of_nat64)

lemma withinE:
  assumes "within a n x"
  obtains i where "i < n" "x = a + of_nat i"
  using assms that[of "unat (x - a)"] by (simp add: within_def)

lemma length_mem_read [simp]: "length (mem_read m a n) = n"
  by (simp add: mem_read_def)

lemma nth_mem_read [simp]: "i < n \<Longrightarrow> mem_read m a n ! i = m (a + of_nat i)"
  by (simp add: mem_read_def)

lemma mem_read_write_same:
  "length bs \<le> 2 ^ 64 \<Longrightarrow> mem_read (mem_write m a bs) a (length bs) = bs"
  by (rule nth_equalityI) (auto simp: mem_write_def within_offset unat_of_nat64)

lemma mem_read_cong:
  "(\<And>x. within a n x \<Longrightarrow> m x = m' x) \<Longrightarrow> n \<le> 2 ^ 64 \<Longrightarrow> mem_read m a n = mem_read m' a n"
  by (rule nth_equalityI) (auto simp: within_offset)

lemma get64_put64 [simp]: "get64 (put64 m a v) a = v"
  using mem_read_write_same[of "le64 v" m a] by (simp add: get64_def put64_def)

lemma get64_cong: "(\<And>x. within a 8 x \<Longrightarrow> m x = m' x) \<Longrightarrow> get64 m a = get64 m' a"
  unfolding get64_def by (subst mem_read_cong[of a 8 m m']) auto

lemma put64_outside: "\<not> within a 8 x \<Longrightarrow> put64 m a v x = m x"
  by (simp add: put64_def mem_write_def)

lemma within_apart: "8 \<le> unat (b - a) \<Longrightarrow> 8 \<le> unat (a - b) \<Longrightarrow> within b 8 x \<Longrightarrow> \<not> within a 8 (x :: u64)"
  using unsigned_less[of a, where 'a = nat] unsigned_less[of b, where 'a = nat] unfolding within_def
  by (auto simp: unat_sub_if' split: if_splits)

lemma get64_put64_other: "8 \<le> unat (b - a) \<Longrightarrow> 8 \<le> unat (a - b) \<Longrightarrow> get64 (put64 m a v) b = get64 m b"
  by (intro get64_cong put64_outside) (rule within_apart)

lemma mem_fill_outside: "\<not> within a n x \<Longrightarrow> mem_fill m a c n x = m x"
  by (simp add: mem_fill_def)

lemma mem_fill_inside: "within a n x \<Longrightarrow> mem_fill m a c n x = c"
  by (simp add: mem_fill_def)

lemma mem_write_outside: "\<not> within a (length bs) x \<Longrightarrow> mem_write m a bs x = m x"
  by (simp add: mem_write_def)

text \<open>Two different page-aligned pages have no byte in common.\<close>

definition PGSIZE :: nat where [const_simps]: "PGSIZE = 4096"

lemma within_page_div:
  assumes al: "unat p mod PGSIZE = 0" and w: "within p PGSIZE x"
  shows "unat x div PGSIZE = unat p div PGSIZE"
proof -
  obtain i where i: "i < PGSIZE" "x = p + of_nat i"
    by (rule withinE[OF w])
  obtain q where q: "unat p = PGSIZE * q"
    using al by auto
  have "unat p < 2 ^ 64" using unsigned_less[of p] by simp
  with q have "unat p + i < 2 ^ 64" using i(1) by (simp add: PGSIZE_def)
  then have "unat x = unat p + i"
    using i by (simp add: unat_word_ariths unat_of_nat)
  with q i(1) show ?thesis by simp
qed

lemma pages_disjoint:
  assumes "unat p mod PGSIZE = 0" "unat q mod PGSIZE = 0" "p \<noteq> q"
    and "within p PGSIZE x"
  shows "\<not> within q PGSIZE x"
proof
  assume "within q PGSIZE x"
  with assms have "unat p div PGSIZE = unat q div PGSIZE"
    by (metis within_page_div)
  with assms(1,2) have "unat p = unat q"
    by (metis div_mult_mod_eq)
  with assms(3) show False by (simp add: word_unat_eq_iff)
qed

lemma within_mono: "within a n x \<Longrightarrow> n \<le> k \<Longrightarrow> within a k x"
  by (simp add: within_def)

text \<open>Reading and writing at offsets from a common base.\<close>

lemma unat_offset_diff:
  assumes "x < 2 ^ 64" "off \<le> 2 ^ 64"
  shows "unat (of_nat x - of_nat off :: u64) = (if off \<le> x then x - off else 2 ^ 64 + x - off)"
proof (cases "off \<le> x")
  case True
  then have "(of_nat x - of_nat off :: u64) = of_nat (x - off)" by simp
  moreover have "unat (of_nat (x - off) :: u64) = x - off"
    using assms by (intro unat_of_nat64) simp
  ultimately show ?thesis using True by (simp only: if_True)
next
  case False
  have "(of_nat (2 ^ 64 + x - off) :: u64) = of_nat (2 ^ 64 + x) - of_nat off"
    using assms False by (intro of_nat_diff) simp
  also have "\<dots> = of_nat x - of_nat off" by simp
  finally have "(of_nat x - of_nat off :: u64) = of_nat (2 ^ 64 + x - off)" by (rule sym)
  moreover have "unat (of_nat (2 ^ 64 + x - off) :: u64) = 2 ^ 64 + x - off"
    using assms False by (intro unat_of_nat64) simp
  ultimately show ?thesis using False by (simp only: if_False)
qed

lemma mem_write_at:
  assumes "x < 2 ^ 64" "off + length bs \<le> 2 ^ 64"
  shows "mem_write m (a + of_nat off) bs (a + of_nat x) =
    (if off \<le> x \<and> x < off + length bs then bs ! (x - off) else m (a + of_nat x))"
proof -
  have d: "a + of_nat x - (a + of_nat off) = (of_nat x - of_nat off :: u64)" by simp
  show ?thesis
    unfolding mem_write_def within_def d
    using assms unat_offset_diff[of x off] by auto
qed

lemma mem_read_at:
  assumes "off + n \<le> 2 ^ 64"
  shows "mem_read m (a + of_nat off) n = map (\<lambda>i. m (a + of_nat i)) [off..<off + n]"
  by (rule nth_equalityI) (auto simp: ac_simps)

lemma mem_read_at_cong:
  assumes "off + n \<le> 2 ^ 64" "\<And>x. off \<le> x \<Longrightarrow> x < off + n \<Longrightarrow> m (a + of_nat x) = m' (a + of_nat x)"
  shows "mem_read m (a + of_nat off) n = mem_read m' (a + of_nat off) n"
  unfolding mem_read_at[OF assms(1)] using assms(2) by simp

lemma mem_read_write_disjoint:
  assumes "j + n \<le> 2 ^ 64" "i + length bs \<le> 2 ^ 64" "j + n \<le> i \<or> i + length bs \<le> j"
  shows "mem_read (mem_write m (a + of_nat i) bs) (a + of_nat j) n = mem_read m (a + of_nat j) n"
  by (rule mem_read_at_cong[OF assms(1)]) (use assms in \<open>auto simp: mem_write_at\<close>)

lemma get32_put32 [simp]: "get32 (put32 m a v) a = v"
  using mem_read_write_same[of "le32 v" m a] by (simp add: get32_def put32_def)

lemma mem_read_Suc: "mem_read m a (Suc n) = m a # mem_read m (a + 1) n"
  by (rule nth_equalityI) (auto simp: nth_Cons ac_simps split: nat.split)

lemma mem_write_Nil [simp]: "mem_write m a [] = m"
  by (simp add: mem_write_def within_def fun_eq_iff)

lemma mem_write_Cons:
  assumes "Suc (length bs) \<le> 2 ^ 64"
  shows "mem_write m a (b # bs) = mem_write (m(a := b)) (a + 1) bs"
proof
  fix x
  have d: "unat (x - (a + 1)) = (if x = a then 2 ^ 64 - 1 else unat (x - a) - 1)"
  proof (cases "x = a")
    case True
    then have "x - (a + 1) = -1" by simp
    then show ?thesis using True by (simp add: unsigned_minus_1_eq_mask mask_eq_exp_minus_1)
  next
    case False
    then have "x - a \<noteq> 0" by simp
    then have "unat (x - a - 1) = unat (x - a) - 1" by (simp add: unat_minus_one)
    then show ?thesis using False by (simp add: algebra_simps)
  qed
  have "x \<noteq> a \<longrightarrow> 0 < unat (x - a)" by (simp add: unat_gt_0)
  then show "mem_write m a (b # bs) x = mem_write (m(a := b)) (a + 1) bs x"
    unfolding mem_write_def within_def d using assms by (auto simp: nth_Cons split: nat.split)
qed

lemma mem_read_snoc: "mem_read m a (Suc n) = mem_read m a n @ [m (a + of_nat n)]"
  by (simp add: mem_read_def)

lemma mem_write_snoc:
  assumes "Suc (length bs) \<le> 2 ^ 64"
  shows "mem_write m a (bs @ [b]) = mem_write (m(a + of_nat (length bs) := b)) a bs"
proof
  fix x
  have "x = a + of_nat (length bs) \<longleftrightarrow> unat (x - a) = length bs"
  proof
    assume "unat (x - a) = length bs"
    then have "of_nat (unat (x - a)) = (of_nat (length bs) :: u64)" by simp
    then show "x = a + of_nat (length bs)" by (simp add: algebra_simps)
  qed (use assms unat_of_nat64 in simp)
  then show "mem_write m a (bs @ [b]) x = mem_write (m(a + of_nat (length bs) := b)) a bs x"
    unfolding mem_write_def within_def by (auto simp: nth_append)
qed

text \<open>Words that are small read the same signed and unsigned.\<close>

lemma sint_small:
  assumes "unat (w :: u32) < 2 ^ 31"
  shows "sint w = int (unat w)"
proof -
  have "int (unat w) < int (2 ^ 31)" using assms by (simp only: of_nat_less_iff)
  then have "int (unat w) < 2 ^ 31" by (simp only: of_nat_power of_nat_numeral)
  moreover have "- (2 ^ 31) \<le> int (unat w)" by (rule order_trans[of _ 0]) simp_all
  ultimately have "signed_take_bit 31 (int (unat w)) = int (unat w)"
    by (intro signed_take_bit_int_eq_self)
  then show ?thesis using sint_uint[of w] by simp
qed

lemma scast_small: "unat (w :: u32) < 2 ^ 31 \<Longrightarrow> (scast w :: u64) = of_nat (unat w)"
  by (simp add: scast_eq sint_small)

lemma sint_nonneg:
  assumes "0 \<le> sint (w :: u32)"
  shows "sint w = int (unat w)" "unat w < 2 ^ 31"
proof -
  have s: "sint w = signed_take_bit 31 (uint w)" by (simp add: sint_uint)
  have "sint w = uint w - 2 ^ 32 * of_bool (bit (uint w) 31)"
    unfolding s using unsigned_less[of w, where 'a = int]
    by (simp add: signed_take_bit_eq_take_bit_minus take_bit_int_eq_self)
  with assms have "sint w = uint w"
    using unsigned_less[of w, where 'a = int] by (cases "bit (uint w) 31") auto
  then show i: "sint w = int (unat w)" by simp
  have "sint w < 2 ^ 31" unfolding s by (rule signed_take_bit_int_less_exp)
  then have "int (unat w) < int (2 ^ 31)" unfolding i by simp
  then show "unat w < 2 ^ 31" by (simp only: of_nat_less_iff)
qed

end
