(* ===== verification/Kalloc.thy ===== *)
theory Kalloc
  imports Prelude
begin

text \<open>
  The physical page allocator, \<^verbatim>\<open>kernel/kalloc.c\<close>: a list of free 4096-byte pages that is
  threaded through the pages themselves.  The state is the head of the list and physical
  memory; \<^verbatim>\<open>r->next\<close> is the 64-bit word at address \<open>r\<close>.  The linker's symbol \<^verbatim>\<open>end\<close>, the
  first address after the kernel, is an argument.
\<close>

section \<open>Model\<close>

definition PHYSTOP :: u64 where [const_simps]: "PHYSTOP = 0x82000000"

record kmem =
  freelist :: u64
  phys :: memory

definition kfree :: "u64 \<Rightarrow> u64 \<Rightarrow> kmem \<Rightarrow> kmem result" where
  "kfree kend pa k =
     (if unat pa mod PGSIZE \<noteq> 0 \<or> pa < kend \<or> PHYSTOP \<le> pa then Inl (Panic ''kfree'')
      else let m = mem_fill (phys k) pa 1 PGSIZE
           in Inr (k\<lparr>phys := put64 m pa (freelist k), freelist := pa\<rparr>))"

definition kalloc :: "kmem \<Rightarrow> u64 \<times> kmem" where
  "kalloc k =
     (let r = freelist k in
      if r \<noteq> 0
      then (r, k\<lparr>freelist := get64 (phys k) r, phys := mem_fill (phys k) r 5 PGSIZE\<rparr>)
      else (0, k))"

definition PGROUNDUP :: "u64 \<Rightarrow> u64" where
  "PGROUNDUP sz = and (sz + of_nat PGSIZE - 1) (not (of_nat PGSIZE - 1))"

text \<open>
  The loop of \<^verbatim>\<open>freerange\<close>.  \<^verbatim>\<open>p + PGSIZE\<close> is pointer arithmetic, which does not wrap, so the
  comparison is made on the addresses as numbers.
\<close>

function freerange_loop :: "u64 \<Rightarrow> u64 \<Rightarrow> u64 \<Rightarrow> kmem \<Rightarrow> kmem result" where
  "freerange_loop kend p pa_end k =
     (if unat p + PGSIZE \<le> unat pa_end
      then rbind (kfree kend p k) (freerange_loop kend (p + of_nat PGSIZE) pa_end)
      else Inr k)"
  by pat_completeness auto
termination
proof (relation "measure (\<lambda>(kend, p, pa_end, k). unat pa_end - unat p)")
  fix kend p pa_end :: u64 and k x :: kmem
  assume le: "unat p + PGSIZE \<le> unat pa_end"
  have "unat pa_end < 2 ^ 64" using unsigned_less[of pa_end] by simp
  with le have "unat (p + of_nat PGSIZE) = unat p + PGSIZE"
    by (simp add: unat_word_ariths PGSIZE_def)
  with le show "((kend, p + of_nat PGSIZE, pa_end, x), kend, p, pa_end, k)
      \<in> measure (\<lambda>(kend, p, pa_end, k). unat pa_end - unat p)"
    by (simp add: PGSIZE_def)
qed simp

declare freerange_loop.simps [simp del]

definition freerange :: "u64 \<Rightarrow> u64 \<Rightarrow> u64 \<Rightarrow> kmem \<Rightarrow> kmem result" where
  "freerange kend pa_start pa_end k = freerange_loop kend (PGROUNDUP pa_start) pa_end k"

definition kinit :: "u64 \<Rightarrow> kmem \<Rightarrow> kmem result" where
  "kinit kend k = freerange kend kend PHYSTOP k"

section \<open>Interface: an allocator of pages\<close>

text \<open>
  \<open>rep s ps\<close>: the allocator's state \<open>s\<close> holds exactly the free pages \<open>ps\<close>, in the order in
  which they will be handed out.
\<close>

locale page_allocator =
  fixes alloc :: "'s \<Rightarrow> u64 \<times> 's"
    and free :: "u64 \<Rightarrow> 's \<Rightarrow> 's result"
    and usable :: "u64 \<Rightarrow> bool"
    and rep :: "'s \<Rightarrow> u64 list \<Rightarrow> bool"
  assumes alloc_empty: "rep s [] \<Longrightarrow> alloc s = (0, s)"
    and alloc_page: "rep s (p # ps) \<Longrightarrow> \<exists>s'. alloc s = (p, s') \<and> rep s' ps"
    and free_page: "rep s ps \<Longrightarrow> usable p \<Longrightarrow> p \<notin> set ps \<Longrightarrow>
      \<exists>s'. free p s = Inr s' \<and> rep s' (p # ps)"
    and rep_distinct: "rep s ps \<Longrightarrow> distinct ps"
    and rep_usable: "rep s ps \<Longrightarrow> p \<in> set ps \<Longrightarrow> usable p"
begin

text \<open>A page that is handed out is not among the pages that are still free.\<close>

lemma alloc_fresh:
  assumes "rep s ps" "alloc s = (p, s')" "ps \<noteq> []"
  shows "usable p \<and> rep s' (tl ps) \<and> p \<notin> set (tl ps)"
proof -
  obtain q qs where ps: "ps = q # qs" using assms(3) by (cases ps) auto
  with alloc_page[of s q qs] assms have "p = q" "rep s' qs" by auto
  with ps rep_distinct[OF assms(1)] rep_usable[OF assms(1), of q] show ?thesis by simp
qed

lemma alloc_then_free:
  assumes "rep s (p # ps)"
  shows "\<exists>s' s''. alloc s = (p, s') \<and> free p s' = Inr s'' \<and> rep s'' (p # ps)"
proof -
  from alloc_page[OF assms] obtain s' where s': "alloc s = (p, s')" "rep s' ps" by blast
  with free_page[of s' ps p] rep_distinct[OF assms] rep_usable[OF assms, of p]
  show ?thesis by auto
qed

end

section \<open>The free list in memory\<close>

fun chain :: "memory \<Rightarrow> u64 \<Rightarrow> u64 list \<Rightarrow> bool" where
  "chain m h [] = (h = 0)"
| "chain m h (p # ps) = (h = p \<and> h \<noteq> 0 \<and> chain m (get64 m p) ps)"

definition page_ok :: "u64 \<Rightarrow> u64 \<Rightarrow> bool" where
  "page_ok kend p \<longleftrightarrow> unat p mod PGSIZE = 0 \<and> kend \<le> p \<and> p < PHYSTOP \<and> p \<noteq> 0"

definition kmem_rep :: "u64 \<Rightarrow> kmem \<Rightarrow> u64 list \<Rightarrow> bool" where
  "kmem_rep kend k ps \<longleftrightarrow>
     chain (phys k) (freelist k) ps \<and> distinct ps \<and> (\<forall>p\<in>set ps. page_ok kend p)"

text \<open>Changing bytes outside the free pages does not disturb the list.\<close>

lemma chain_cong:
  "(\<And>p x. p \<in> set ps \<Longrightarrow> within p PGSIZE x \<Longrightarrow> m x = m' x) \<Longrightarrow> chain m h ps = chain m' h ps"
proof (induction ps arbitrary: h)
  case (Cons p ps)
  have "get64 m p = get64 m' p"
    by (rule get64_cong) (use Cons.prems[of p] within_mono[of p 8 _ PGSIZE] in \<open>simp add: PGSIZE_def\<close>)
  moreover have "chain m (get64 m' p) ps = chain m' (get64 m' p) ps"
    by (rule Cons.IH) (use Cons.prems in auto)
  ultimately show ?case by simp
qed simp

lemma kalloc_page:
  assumes "kmem_rep kend k (p # ps)"
  shows "\<exists>k'. kalloc k = (p, k') \<and> kmem_rep kend k' ps"
proof -
  let ?k = "k\<lparr>freelist := get64 (phys k) p, phys := mem_fill (phys k) p 5 PGSIZE\<rparr>"
  have ch: "freelist k = p" "p \<noteq> 0" "chain (phys k) (get64 (phys k) p) ps"
    using assms by (auto simp: kmem_rep_def)
  have "chain (mem_fill (phys k) p 5 PGSIZE) (get64 (phys k) p) ps = chain (phys k) (get64 (phys k) p) ps"
  proof (rule chain_cong)
    fix q x
    assume q: "q \<in> set ps" and x: "within q PGSIZE x"
    then have "\<not> within p PGSIZE x"
      using assms pages_disjoint[of q p x] by (auto simp: kmem_rep_def page_ok_def)
    then show "mem_fill (phys k) p 5 PGSIZE x = phys k x" by (simp add: mem_fill_outside)
  qed
  with ch(3) assms have "kmem_rep kend ?k ps" by (simp add: kmem_rep_def)
  with ch show ?thesis by (simp add: kalloc_def)
qed

lemma kfree_page:
  assumes "kmem_rep kend k ps" "page_ok kend p" "p \<notin> set ps"
  shows "\<exists>k'. kfree kend p k = Inr k' \<and> kmem_rep kend k' (p # ps)"
proof -
  let ?m = "put64 (mem_fill (phys k) p 1 PGSIZE) p (freelist k)"
  have "chain ?m (freelist k) ps = chain (phys k) (freelist k) ps"
  proof (rule chain_cong)
    fix q x
    assume q: "q \<in> set ps" and x: "within q PGSIZE x"
    then have "\<not> within p PGSIZE x"
      using assms pages_disjoint[of q p x] by (auto simp: kmem_rep_def page_ok_def)
    moreover from this have "\<not> within p 8 x"
      using within_mono[of p 8 x PGSIZE] by (auto simp: PGSIZE_def)
    ultimately show "?m x = phys k x" by (simp add: put64_outside mem_fill_outside)
  qed
  with assms show ?thesis
    by (auto simp: kfree_def kmem_rep_def page_ok_def Let_def)
qed

interpretation kpages: page_allocator kalloc "kfree kend" "page_ok kend" "kmem_rep kend" for kend
proof unfold_locales
  show "kalloc s = (0, s)" if "kmem_rep kend s []" for s
    using that by (simp add: kmem_rep_def kalloc_def)
  show "\<exists>s'. kalloc s = (p, s') \<and> kmem_rep kend s' ps" if "kmem_rep kend s (p # ps)" for s p ps
    using that by (rule kalloc_page)
  show "\<exists>s'. kfree kend p s = Inr s' \<and> kmem_rep kend s' (p # ps)"
    if "kmem_rep kend s ps" "page_ok kend p" "p \<notin> set ps" for s p ps
    using that by (rule kfree_page)
  show "distinct ps" if "kmem_rep kend s ps" for s ps
    using that by (simp add: kmem_rep_def)
  show "page_ok kend p" if "kmem_rep kend s ps" "p \<in> set ps" for s p ps
    using that by (simp add: kmem_rep_def)
qed

section \<open>What the operations guarantee\<close>

text \<open>The pages of a range, from the last to the first, as \<^verbatim>\<open>freerange\<close> pushes them.\<close>

fun pages_down :: "u64 \<Rightarrow> nat \<Rightarrow> u64 list" where
  "pages_down p 0 = []"
| "pages_down p (Suc n) = pages_down (p + of_nat PGSIZE) n @ [p]"

lemma freerange_loop_rep:
  assumes "kmem_rep kend k ps" and "unat p mod PGSIZE = 0" "kend \<le> p" "p \<noteq> 0"
    and "\<forall>q\<in>set ps. q < p" and "pa_end \<le> PHYSTOP"
  shows "\<exists>k'. freerange_loop kend p pa_end k = Inr k' \<and>
           kmem_rep kend k' (pages_down p ((unat pa_end - unat p) div PGSIZE) @ ps)"
  using assms
proof (induction kend p pa_end k arbitrary: ps rule: freerange_loop.induct)
  case (1 kend p pa_end k)
  show ?case
  proof (cases "unat p + PGSIZE \<le> unat pa_end")
    case False
    then have "(unat pa_end - unat p) div PGSIZE = 0" by (simp add: PGSIZE_def)
    with False 1(2) show ?thesis by (simp add: freerange_loop.simps)
  next
    case True
    have lt: "p < pa_end" using True by (simp add: word_less_nat_alt PGSIZE_def)
    with 1 have "page_ok kend p" "p \<notin> set ps" by (auto simp: page_ok_def)
    with 1(2) obtain k1 where k1: "kfree kend p k = Inr k1" "kmem_rep kend k1 (p # ps)"
      using kfree_page by blast
    have "unat pa_end < 2 ^ 64" using unsigned_less[of pa_end] by simp
    then have u: "unat (p + of_nat PGSIZE) = unat p + PGSIZE"
      using True by (simp add: unat_word_ariths PGSIZE_def)
    have "p < p + of_nat PGSIZE" by (simp only: word_less_nat_alt u) (simp add: PGSIZE_def)
    moreover have "unat (p + of_nat PGSIZE) mod PGSIZE = 0" unfolding u using 1(3) by simp
    moreover have "p + of_nat PGSIZE \<noteq> 0" using u by (auto simp: PGSIZE_def)
    ultimately obtain k' where k': "freerange_loop kend (p + of_nat PGSIZE) pa_end k1 = Inr k'"
      "kmem_rep kend k' (pages_down (p + of_nat PGSIZE) ((unat pa_end - (unat p + PGSIZE)) div PGSIZE) @ p # ps)"
      using 1(1)[OF True, of k1 "p # ps"] 1(2-) k1 u by fastforce
    have "(unat pa_end - unat p) div PGSIZE = Suc ((unat pa_end - (unat p + PGSIZE)) div PGSIZE)"
      using True by (simp add: PGSIZE_def le_div_geq)
    with k' k1 True show ?thesis by (subst freerange_loop.simps) simp
  qed
qed

text \<open>
  C8: \<^verbatim>\<open>kinit\<close> on an empty list makes exactly the whole pages between the rounded-up end of
  the kernel and \<^verbatim>\<open>PHYSTOP\<close> available, each once.
\<close>

theorem kinit_all_pages:
  assumes "freelist k = 0" and "0 < unat kend" "kend < PHYSTOP"
  shows "\<exists>k'. kinit kend k = Inr k' \<and>
     kmem_rep kend k' (pages_down (PGROUNDUP kend) ((unat PHYSTOP - unat (PGROUNDUP kend)) div PGSIZE))"
proof -
  have lt: "unat kend < 0x82000000" using assms(3) by (simp add: word_less_nat_alt PHYSTOP_def)
  have m: "(of_nat PGSIZE - 1 :: u64) = mask 12" by (simp add: PGSIZE_def mask_eq_exp_minus_1)
  define y where "y = kend + of_nat PGSIZE - 1"
  have y: "unat y = unat kend + 4095"
    using lt by (simp add: y_def PGSIZE_def unat_word_ariths)
  have "PGROUNDUP kend = push_bit 12 (drop_bit 12 y)"
    unfolding PGROUNDUP_def m y_def[symmetric]
    by (rule bit_word_eqI) (auto simp: bit_simps)
  then have r: "unat (PGROUNDUP kend) = 4096 * (unat y div 4096)"
    using lt y by (simp add: push_bit_eq_mult unat_word_ariths unat_drop_bit_eq drop_bit_eq_div)
  have "kmem_rep kend k []" using assms(1) by (simp add: kmem_rep_def)
  moreover have "unat (PGROUNDUP kend) mod PGSIZE = 0" by (simp add: r PGSIZE_def)
  moreover have "kend \<le> PGROUNDUP kend" by (simp add: word_le_nat_alt r y)
  moreover from this have "PGROUNDUP kend \<noteq> 0" using assms(2) by (auto simp: word_le_nat_alt)
  ultimately show ?thesis
    using freerange_loop_rep[of kend k "[]" "PGROUNDUP kend" PHYSTOP]
    by (simp add: kinit_def freerange_def)
qed

theorem kinit_all_pages_witness:
  "\<exists>k'. kinit 0x81fff001 \<lparr>freelist = 0, phys = (\<lambda>_. 0)\<rparr> = Inr k' \<and>
     kmem_rep 0x81fff001 k' (pages_down (PGROUNDUP 0x81fff001)
       ((unat PHYSTOP - unat (PGROUNDUP 0x81fff001)) div PGSIZE))"
  by (rule kinit_all_pages) (simp_all add: PHYSTOP_def)

end
