(* ===== verification/Virtio.thy ===== *)
theory Virtio
  imports Kalloc
begin

unbundle bit_operations_syntax

text \<open>
  The virtio disk driver, \<^verbatim>\<open>kernel/virtio_disk.c\<close>: the descriptor table and the two rings of
  every disk, allocation and release of descriptors, one request (\<^verbatim>\<open>virtio_disk_rw\<close>), the
  completion interrupt, and the block interface \<^verbatim>\<open>read_block\<close>/\<^verbatim>\<open>write_block\<close> that the RAID
  layer is built on.

  The device itself is not part of the repository.  It is the field \<open>device\<close> of the state:
  a function that is given the disk number and what it finds through the descriptors (the
  request type, the first sector and the 1024 bytes of the data buffer) and answers with a
  status byte, the bytes of the buffer afterwards and its new medium.  The driver sleeps
  until the interrupt; the request is therefore modelled as the part before the sleep, one
  step of the device, the interrupt handler, and the part after the sleep.
\<close>

section \<open>Constants and structures\<close>

definition NUM :: nat where [const_simps]: "NUM = 16"
definition BSIZE :: nat where [const_simps]: "BSIZE = 1024"
definition VRING_DESC_F_NEXT :: u16 where [const_simps]: "VRING_DESC_F_NEXT = 1"
definition VRING_DESC_F_WRITE :: u16 where [const_simps]: "VRING_DESC_F_WRITE = 2"
definition VIRTIO_BLK_T_IN :: u32 where [const_simps]: "VIRTIO_BLK_T_IN = 0"
definition VIRTIO_BLK_T_OUT :: u32 where [const_simps]: "VIRTIO_BLK_T_OUT = 1"

text \<open>
  The fields of \<^verbatim>\<open>struct buf\<close> the driver uses.  A buffer that is handed to the disk is kept
  in \<open>info_b\<close> while the request is in flight, so that a pointer to it is the index of the
  request.
\<close>

record buf =
  b_disk :: bool
  b_blockno :: u32
  b_data :: "byte list"

text \<open>What the address field of a descriptor can point to.\<close>

datatype dma_addr =
    NoAddr
  | OpAddr nat      \<comment> \<open>\<^verbatim>\<open>&disk[id].ops[i]\<close>\<close>
  | DataAddr nat    \<comment> \<open>\<^verbatim>\<open>b->data\<close> of the buffer in \<^verbatim>\<open>info[i]\<close>\<close>
  | StatusAddr nat  \<comment> \<open>\<^verbatim>\<open>&disk[id].info[i].status\<close>\<close>

record virtq_desc =
  d_addr :: dma_addr
  d_len :: u32
  d_flags :: u16
  d_next :: u16

record virtio_blk_req =
  req_type :: u32
  req_reserved :: u32
  req_sector :: u64

record vdisk =
  dname :: string
  desc :: "virtq_desc list"
  avail_idx :: u16
  avail_ring :: "u16 list"
  used_dev_idx :: u16          \<comment> \<open>\<^verbatim>\<open>used->idx\<close>, advanced by the device\<close>
  used_ring :: "u32 list"      \<comment> \<open>\<^verbatim>\<open>used->ring[].id\<close>\<close>
  free_descs :: "bool list"
  used_idx :: u16
  info_b :: "buf option list"
  info_status :: "byte list"
  ops :: "virtio_blk_req list"
  dev_seen :: u16              \<comment> \<open>how far the device has read the avail ring\<close>

type_synonym 'd device_fn = "nat \<Rightarrow> u32 \<Rightarrow> u64 \<Rightarrow> byte list \<Rightarrow> 'd \<Rightarrow> byte \<times> byte list \<times> 'd"

record 'd vstate =
  disks :: "vdisk list"                    \<comment> \<open>\<^verbatim>\<open>disk[VIRTIO_RAID_DISK_END + 1]\<close>\<close>
  transfer_buffer :: "buf option list"
  device :: "'d device_fn"
  media :: 'd

section \<open>Descriptors\<close>

definition zero_desc :: virtq_desc where
  "zero_desc = \<lparr>d_addr = NoAddr, d_len = 0, d_flags = 0, d_next = 0\<rparr>"

text \<open>The scan of \<^verbatim>\<open>alloc_desc\<close> from index \<open>i\<close> on.\<close>

fun find_free :: "nat \<Rightarrow> bool list \<Rightarrow> nat option" where
  "find_free i [] = None"
| "find_free i (f # fs) = (if f then Some i else find_free (Suc i) fs)"

definition alloc_desc :: "vdisk \<Rightarrow> nat option \<times> vdisk" where
  "alloc_desc d = (case find_free 0 (free_descs d) of
     None \<Rightarrow> (None, d)
   | Some i \<Rightarrow> (Some i, d\<lparr>free_descs := (free_descs d)[i := False]\<rparr>))"

definition free_desc :: "nat \<Rightarrow> vdisk \<Rightarrow> vdisk result" where
  "free_desc i d =
     (if i \<ge> NUM then Inl (Panic (dname d @ '': free_desc 1''))
      else if free_descs d ! i then Inl (Panic (dname d @ '': free_desc 2''))
      else Inr (d\<lparr>desc := (desc d)[i := zero_desc], free_descs := (free_descs d)[i := True]\<rparr>))"

text \<open>The number of descriptors in use; every step of \<^verbatim>\<open>free_chain\<close> lowers it.\<close>

definition busy :: "vdisk \<Rightarrow> nat" where
  "busy d = length (filter Not (free_descs d))"

lemma busy_update_True:
  "i < length fs \<Longrightarrow> \<not> fs ! i \<Longrightarrow>
   length (filter Not (fs[i := True])) < length (filter Not fs)"
  by (induction fs arbitrary: i) (auto split: nat.splits simp: nth_Cons)

lemma free_desc_busy:
  "free_desc i d = Inr d' \<Longrightarrow> length (free_descs d) = NUM \<Longrightarrow> busy d' < busy d"
  by (auto simp: free_desc_def busy_def busy_update_True split: if_splits)

text \<open>
  The loop of \<^verbatim>\<open>free_chain\<close>.  The first test only says that the array of the C structure has
  its \<^verbatim>\<open>NUM\<close> entries; the loop ends because \<^verbatim>\<open>free_desc\<close> refuses a descriptor that is free.
\<close>

function (sequential) free_chain :: "nat \<Rightarrow> vdisk \<Rightarrow> vdisk result" where
  "free_chain i d =
     (if length (free_descs d) \<noteq> NUM then Inl OutOfBounds
      else let flag = d_flags (desc d ! i); nxt = d_next (desc d ! i)
       in rbind (free_desc i d) (\<lambda>d'.
            if flag AND VRING_DESC_F_NEXT \<noteq> 0 then free_chain (unat nxt) d' else Inr d'))"
  by pat_completeness auto
termination
  by (relation "measure (\<lambda>(i, d). busy d)") (auto simp: free_desc_busy)

declare free_chain.simps [simp del]

definition alloc3_desc :: "vdisk \<Rightarrow> ((nat \<times> nat \<times> nat) option \<times> vdisk) result" where
  "alloc3_desc d =
     (case alloc_desc d of
        (None, d1) \<Rightarrow> Inr (None, d1)
      | (Some i, d1) \<Rightarrow>
         (case alloc_desc d1 of
            (None, d2) \<Rightarrow> rbind (free_desc i d2) (\<lambda>d3. Inr (None, d3))
          | (Some j, d2) \<Rightarrow>
             (case alloc_desc d2 of
                (None, d3) \<Rightarrow>
                  rbind (free_desc i d3) (\<lambda>d4. rbind (free_desc j d4) (\<lambda>d5. Inr (None, d5)))
              | (Some k, d3) \<Rightarrow> Inr (Some (i, j, k), d3))))"

section \<open>One request\<close>

text \<open>The sector of a block, computed in 32 bits and widened.\<close>

definition blk_sector :: "u32 \<Rightarrow> u64" where
  "blk_sector blockno = ucast (blockno * of_nat (BSIZE div 512))"

text \<open>
  The middle of \<^verbatim>\<open>virtio_disk_rw\<close>: the three descriptors are formatted, the buffer is
  recorded for the interrupt handler, and the head is put on the avail ring.
\<close>

definition format_request :: "nat \<Rightarrow> nat \<Rightarrow> nat \<Rightarrow> buf \<Rightarrow> bool \<Rightarrow> vdisk \<Rightarrow> vdisk" where
  "format_request i0 i1 i2 b write d =
     (let req = \<lparr>req_type = (if write then VIRTIO_BLK_T_OUT else VIRTIO_BLK_T_IN),
                 req_reserved = 0, req_sector = blk_sector (b_blockno b)\<rparr>;
          desc0 = \<lparr>d_addr = OpAddr i0, d_len = 16, d_flags = VRING_DESC_F_NEXT,
                   d_next = of_nat i1\<rparr>;
          desc1 = \<lparr>d_addr = DataAddr i0, d_len = of_nat BSIZE,
                   d_flags = (if write then 0 else VRING_DESC_F_WRITE) OR VRING_DESC_F_NEXT,
                   d_next = of_nat i2\<rparr>;
          desc2 = \<lparr>d_addr = StatusAddr i0, d_len = 1, d_flags = VRING_DESC_F_WRITE,
                   d_next = 0\<rparr>
      in d\<lparr>ops := (ops d)[i0 := req],
           desc := (desc d)[i0 := desc0, i1 := desc1, i2 := desc2],
           info_status := (info_status d)[i0 := 0xff],
           info_b := (info_b d)[i0 := Some (b\<lparr>b_disk := True\<rparr>)],
           avail_ring := (avail_ring d)[unat (avail_idx d) mod NUM := of_nat i0],
           avail_idx := avail_idx d + 1\<rparr>)"

text \<open>
  \<^verbatim>\<open>virtio_disk_rw\<close> up to its \<^verbatim>\<open>sleep\<close>.  When fewer than three descriptors are free the
  caller sleeps on \<^verbatim>\<open>free[0]\<close>, which is the outcome \<open>Sleeping\<close>.
\<close>

definition virtio_disk_start ::
    "nat \<Rightarrow> buf \<Rightarrow> bool \<Rightarrow> 'd vstate \<Rightarrow> (nat \<times> 'd vstate) result" where
  "virtio_disk_start did b write s =
     (if length (disks s) \<le> did then Inl OutOfBounds
      else rbind (alloc3_desc (disks s ! did)) (\<lambda>(r, d).
        case r of
          None \<Rightarrow> Inl Sleeping
        | Some (i0, i1, i2) \<Rightarrow>
            Inr (i0, s\<lparr>disks := (disks s)[did := format_request i0 i1 i2 b write d]\<rparr>)))"

text \<open>
  The device takes the next entry of the avail ring, follows the three descriptors, carries
  the request out and appends the head to the used ring.  A chain that is not of the form
  the driver writes has no defined effect.
\<close>

definition virtio_device_step :: "nat \<Rightarrow> 'd vstate \<Rightarrow> 'd vstate result" where
  "virtio_device_step did s =
     (let d = disks s ! did in
      if dev_seen d = avail_idx d then Inl Sleeping
      else
        let h = unat (avail_ring d ! (unat (dev_seen d) mod NUM));
            d0 = desc d ! h; d1 = desc d ! unat (d_next d0); d2 = desc d ! unat (d_next d1)
        in case (d_addr d0, d_addr d1, d_addr d2) of
             (OpAddr i, DataAddr j, StatusAddr k) \<Rightarrow>
               (case info_b d ! j of
                  None \<Rightarrow> Inl NullDeref
                | Some b \<Rightarrow>
                   (case device s did (req_type (ops d ! i)) (req_sector (ops d ! i)) (b_data b) (media s) of
                      (st, data, m) \<Rightarrow>
                        Inr (s\<lparr>media := m,
                               disks := (disks s)[did :=
                                 d\<lparr>info_status := (info_status d)[k := st],
                                   info_b := (if d_flags d1 AND VRING_DESC_F_WRITE \<noteq> 0
                                              then (info_b d)[j := Some (b\<lparr>b_data := data\<rparr>)]
                                              else info_b d),
                                   used_ring := (used_ring d)[unat (used_dev_idx d) mod NUM := of_nat h],
                                   used_dev_idx := used_dev_idx d + 1,
                                   dev_seen := dev_seen d + 1\<rparr>]\<rparr>)))
           | _ \<Rightarrow> Inl OutOfBounds)"

text \<open>The loop of \<^verbatim>\<open>virtio_disk_intr\<close> over the entries the device has added.\<close>

function intr_loop :: "vdisk \<Rightarrow> vdisk result" where
  "intr_loop d =
     (if used_idx d = used_dev_idx d then Inr d
      else
        let idx = unat (used_ring d ! (unat (used_idx d) mod NUM)) in
        if NUM \<le> idx then Inl OutOfBounds
        else if info_status d ! idx \<noteq> 0 then Inl (Panic (dname d @ '': virtio_disk_intr status''))
        else case info_b d ! idx of
               None \<Rightarrow> Inl NullDeref
             | Some b \<Rightarrow>
                 intr_loop (d\<lparr>info_b := (info_b d)[idx := Some (b\<lparr>b_disk := False\<rparr>)],
                              used_idx := used_idx d + 1\<rparr>))"
  by pat_completeness auto
termination
proof (relation "measure (\<lambda>d. unat (used_dev_idx d - used_idx d))")
  fix d :: vdisk and x b
  assume "used_idx d \<noteq> used_dev_idx d"
  then have "used_dev_idx d - used_idx d \<noteq> 0" by simp
  then have "unat (used_dev_idx d - used_idx d - 1) < unat (used_dev_idx d - used_idx d)"
    by (simp add: unat_minus_one unat_gt_0)
  then show "(d\<lparr>info_b := (info_b d)[x := Some (b\<lparr>b_disk := False\<rparr>)], used_idx := used_idx d + 1\<rparr>, d)
      \<in> measure (\<lambda>d. unat (used_dev_idx d - used_idx d))"
    by (simp add: algebra_simps)
qed simp

declare intr_loop.simps [simp del]

definition virtio_disk_intr :: "nat \<Rightarrow> 'd vstate \<Rightarrow> 'd vstate result" where
  "virtio_disk_intr did s =
     (if length (disks s) \<le> did then Inl OutOfBounds
      else rbind (intr_loop (disks s ! did)) (\<lambda>d. Inr (s\<lparr>disks := (disks s)[did := d]\<rparr>)))"

text \<open>\<^verbatim>\<open>virtio_disk_rw\<close> after its \<^verbatim>\<open>sleep\<close>: the buffer goes back to the caller.\<close>

definition virtio_disk_finish :: "nat \<Rightarrow> nat \<Rightarrow> 'd vstate \<Rightarrow> (buf \<times> 'd vstate) result" where
  "virtio_disk_finish did i0 s =
     (let d = disks s ! did in
      case info_b d ! i0 of
        None \<Rightarrow> Inl NullDeref
      | Some b \<Rightarrow>
          rbind (free_chain i0 (d\<lparr>info_b := (info_b d)[i0 := None]\<rparr>)) (\<lambda>d'.
            Inr (b, s\<lparr>disks := (disks s)[did := d']\<rparr>)))"

definition virtio_disk_rw :: "nat \<Rightarrow> buf \<Rightarrow> bool \<Rightarrow> 'd vstate \<Rightarrow> (buf \<times> 'd vstate) result" where
  "virtio_disk_rw did b write s =
     rbind (virtio_disk_start did b write s) (\<lambda>(i0, s1).
     rbind (virtio_device_step did s1) (\<lambda>s2.
     rbind (virtio_disk_intr did s2) (\<lambda>s3.
     virtio_disk_finish did i0 s3)))"

section \<open>The block interface\<close>

text \<open>
  \<^verbatim>\<open>write_block\<close> and \<^verbatim>\<open>read_block\<close> move \<^verbatim>\<open>BSIZE\<close> bytes through the disk's transfer buffer.
  The disk number and the block number are C \<^verbatim>\<open>int\<close>s.
\<close>

definition xfer_buffer :: "int \<Rightarrow> 'd vstate \<Rightarrow> buf result" where
  "xfer_buffer diskn s =
     (if diskn < 0 \<or> int (length (transfer_buffer s)) \<le> diskn then Inl OutOfBounds
      else case transfer_buffer s ! nat diskn of None \<Rightarrow> Inl NullDeref | Some b \<Rightarrow> Inr b)"

definition write_block :: "int \<Rightarrow> int \<Rightarrow> byte list \<Rightarrow> 'd vstate \<Rightarrow> 'd vstate result" where
  "write_block diskn blockno data s =
     rbind (xfer_buffer diskn s) (\<lambda>b.
     rbind (virtio_disk_rw (nat diskn) (b\<lparr>b_blockno := of_int blockno, b_data := take BSIZE data\<rparr>) True s)
       (\<lambda>(b', s'). Inr (s'\<lparr>transfer_buffer := (transfer_buffer s')[nat diskn := Some b']\<rparr>)))"

definition read_block :: "int \<Rightarrow> int \<Rightarrow> 'd vstate \<Rightarrow> (byte list \<times> 'd vstate) result" where
  "read_block diskn blockno s =
     rbind (xfer_buffer diskn s) (\<lambda>b.
     rbind (virtio_disk_rw (nat diskn) (b\<lparr>b_blockno := of_int blockno\<rparr>) False s)
       (\<lambda>(b', s'). Inr (take BSIZE (b_data b'),
                        s'\<lparr>transfer_buffer := (transfer_buffer s')[nat diskn := Some b']\<rparr>)))"

section \<open>Initialisation\<close>

text \<open>What the driver reads from the registers of a disk, in the order of \<^verbatim>\<open>virtio_disk_init\<close>.\<close>

record mmio =
  MAGIC_VALUE :: u32
  VERSION :: u32
  DEVICE_ID :: u32
  VENDOR_ID :: u32
  DEVICE_FEATURES :: u32
  STATUS :: u32
  QUEUE_READY :: u32
  QUEUE_NUM_MAX :: u32

definition driver_features :: "u32 \<Rightarrow> u32" where
  "driver_features features =
     fold (\<lambda>b f. f AND NOT (push_bit b 1)) [5, 7, 11, 12, 27, 29, 28] features"

definition fresh_vdisk :: "string \<Rightarrow> vdisk" where
  "fresh_vdisk nm = \<lparr>dname = nm, desc = replicate NUM zero_desc, avail_idx = 0, avail_ring = replicate NUM 0,
     used_dev_idx = 0, used_ring = replicate NUM 0, free_descs = replicate NUM True, used_idx = 0,
     info_b = replicate NUM None, info_status = replicate NUM 0,
     ops = replicate NUM \<lparr>req_type = 0, req_reserved = 0, req_sector = 0\<rparr>, dev_seen = 0\<rparr>"

definition zero_buf :: buf where
  "zero_buf = \<lparr>b_disk = False, b_blockno = 0, b_data = replicate BSIZE 0\<rparr>"

text \<open>
  The result is the list of register writes, the page allocator and the driver's state.
  Disk 0 carries the file system; the RAID disks also get a transfer buffer.  The three queue
  pages are zeroed, which is what the fresh tables stand for.
\<close>

definition virtio_disk_init ::
    "nat \<Rightarrow> string \<Rightarrow> mmio \<Rightarrow> kmem \<Rightarrow> 'd vstate \<Rightarrow> ((nat \<times> u32) list \<times> kmem \<times> 'd vstate) result" where
  "virtio_disk_init did nm r k s =
     (if MAGIC_VALUE r \<noteq> 0x74726976 \<or> VERSION r \<noteq> 2 \<or> DEVICE_ID r \<noteq> 2 \<or> VENDOR_ID r \<noteq> 0x554d4551
      then Inl (Panic (''could not find virtio disk: '' @ nm))
      else if STATUS r AND 8 = 0 then Inl (Panic (nm @ '': virtio disk FEATURES_OK unset''))
      else if QUEUE_READY r \<noteq> 0 then Inl (Panic (nm @ '': virtio disk should not be ready''))
      else if QUEUE_NUM_MAX r = 0 then Inl (Panic (nm @ '': virtio disk has no queue 0''))
      else if QUEUE_NUM_MAX r < of_nat NUM then Inl (Panic (nm @ '': virtio disk max queue too short''))
      else case kalloc k of (pdesc, k1) \<Rightarrow> case kalloc k1 of (pavail, k2) \<Rightarrow> case kalloc k2 of (pused, k3) \<Rightarrow>
        if pdesc = 0 \<or> pavail = 0 \<or> pused = 0 then Inl (Panic (nm @ '': virtio disk kalloc''))
        else let m = mem_fill (mem_fill (mem_fill (phys k3) pdesc 0 PGSIZE) pavail 0 PGSIZE) pused 0 PGSIZE;
                 ws = [(0x70, 0), (0x70, 1), (0x70, 3), (0x20, driver_features (DEVICE_FEATURES r)), (0x70, 11),
                       (0x30, 0), (0x38, of_nat NUM), (0x80, ucast pdesc), (0x84, ucast (drop_bit 32 pdesc)),
                       (0x90, ucast pavail), (0x94, ucast (drop_bit 32 pavail)),
                       (0xa0, ucast pused), (0xa4, ucast (drop_bit 32 pused)), (0x44, 1),
                       (0x70, STATUS r OR 4)];
                 s1 = s\<lparr>disks := (disks s)[did := fresh_vdisk nm]\<rparr>
             in if did < 1 then Inr (ws, k3\<lparr>phys := m\<rparr>, s1)
                else case kalloc (k3\<lparr>phys := m\<rparr>) of (tb, k4) \<Rightarrow>
                  if tb = 0 then Inl (Panic ''virtio_disk_init: kalloc of transfer_buffer failed'')
                  else Inr (ws, k4\<lparr>phys := mem_fill (phys k4) tb 0 BSIZE\<rparr>,
                            s1\<lparr>transfer_buffer := (transfer_buffer s1)[did := Some zero_buf]\<rparr>))"

section \<open>Allocation and release of descriptors\<close>

lemma find_free_SomeD:
  "find_free i fs = Some k \<Longrightarrow> i \<le> k \<and> k < i + length fs \<and> fs ! (k - i)"
proof (induction fs arbitrary: i)
  case (Cons f fs)
  show ?case
  proof (cases f)
    case False
    with Cons.prems have "find_free (Suc i) fs = Some k" by simp
    from Cons.IH[OF this] show ?thesis by (auto simp: nth_Cons')
  qed (use Cons.prems in auto)
qed simp

lemma find_free_None: "find_free i fs = None \<longleftrightarrow> True \<notin> set fs"
  by (induction fs arbitrary: i) auto

lemma find_free_first: "find_free i fs = Some k \<Longrightarrow> j < k - i \<Longrightarrow> \<not> fs ! j"
proof (induction fs arbitrary: i j)
  case (Cons f fs)
  then show ?case by (cases j) (auto split: if_splits)
qed simp

lemma filter_update_False:
  "i < length fs \<Longrightarrow> fs ! i \<Longrightarrow>
   Suc (length (filter (\<lambda>x. x) (fs[i := False]))) = length (filter (\<lambda>x. x) fs)"
  by (induction fs arbitrary: i) (auto split: nat.splits)

definition nfree :: "vdisk \<Rightarrow> nat" where
  "nfree d = length (filter (\<lambda>x. x) (free_descs d))"

lemma alloc_desc_ok:
  assumes "0 < nfree d"
  obtains i where "i < length (free_descs d)" "free_descs d ! i"
    "alloc_desc d = (Some i, d\<lparr>free_descs := (free_descs d)[i := False]\<rparr>)"
    "Suc (nfree (d\<lparr>free_descs := (free_descs d)[i := False]\<rparr>)) = nfree d"
proof -
  have "True \<in> set (free_descs d)"
    using assms by (auto simp: nfree_def filter_empty_conv)
  then obtain i where i: "find_free 0 (free_descs d) = Some i"
    by (cases "find_free 0 (free_descs d)") (auto simp: find_free_None)
  from find_free_SomeD[OF this] have "i < length (free_descs d)" "free_descs d ! i" by auto
  with i that show thesis
    by (auto simp: alloc_desc_def nfree_def filter_update_False)
qed

lemma alloc3_desc_ok:
  assumes "3 \<le> nfree d"
  obtains i j k where "distinct [i, j, k]"
    "i < length (free_descs d)" "j < length (free_descs d)" "k < length (free_descs d)"
    "free_descs d ! i" "free_descs d ! j" "free_descs d ! k"
    "alloc3_desc d = Inr (Some (i, j, k),
       d\<lparr>free_descs := (free_descs d)[i := False, j := False, k := False]\<rparr>)"
proof -
  let ?F = "\<lambda>d i. d\<lparr>free_descs := (free_descs d)[i := False]\<rparr>"
  from assms obtain i where i: "i < length (free_descs d)" "free_descs d ! i"
    "alloc_desc d = (Some i, ?F d i)" "Suc (nfree (?F d i)) = nfree d"
    by (auto intro: alloc_desc_ok[of d])
  from assms i(4) obtain j where j: "j < length (free_descs d)" "(free_descs d)[i := False] ! j"
    "alloc_desc (?F d i) = (Some j, ?F (?F d i) j)" "Suc (nfree (?F (?F d i) j)) = nfree (?F d i)"
    by (auto intro: alloc_desc_ok[of "?F d i"])
  from assms i(4) j(4) obtain k where k: "k < length (free_descs d)"
    "(free_descs d)[i := False, j := False] ! k"
    "alloc_desc (?F (?F d i) j) = (Some k, ?F (?F (?F d i) j) k)"
    by (auto intro: alloc_desc_ok[of "?F (?F d i) j"])
  have ij: "j \<noteq> i" using j(1,2) by auto
  have kij: "k \<noteq> j" "k \<noteq> i"
    using k(1,2) ij by (cases "k = j"; cases "k = i"; auto)+
  show thesis
    by (rule that[of i j k]) (use i j k ij kij in \<open>auto simp: alloc3_desc_def\<close>)
qed

text \<open>
  When fewer than three descriptors are free, \<^verbatim>\<open>alloc3_desc\<close> gives back the ones it took: the
  set of free descriptors is as before.
\<close>

lemma alloc3_desc_fail:
  assumes len: "length (free_descs d) = NUM" and few: "nfree d < 3"
  shows "\<exists>d'. alloc3_desc d = Inr (None, d') \<and> free_descs d' = free_descs d"
proof -
  let ?F = "\<lambda>d i. d\<lparr>free_descs := (free_descs d)[i := False]\<rparr>"
  have none: "alloc_desc e = (None, e)" if "nfree e = 0" for e :: vdisk
    using that by (auto simp: alloc_desc_def nfree_def filter_empty_conv find_free_None
        split: option.split dest: find_free_SomeD)
  show ?thesis
  proof (cases "nfree d = 0")
    case True
    then show ?thesis by (simp add: alloc3_desc_def none)
  next
    case False
    then obtain i where i: "i < NUM" "free_descs d ! i" "alloc_desc d = (Some i, ?F d i)"
      "Suc (nfree (?F d i)) = nfree d"
      using len by (auto intro: alloc_desc_ok[of d])
    show ?thesis
    proof (cases "nfree (?F d i) = 0")
      case True
      then show ?thesis using i len
        by (auto simp: alloc3_desc_def none free_desc_def list_update_same_conv)
    next
      case False
      then obtain j where j: "j < NUM" "(free_descs d)[i := False] ! j"
        "alloc_desc (?F d i) = (Some j, ?F (?F d i) j)" "Suc (nfree (?F (?F d i) j)) = nfree (?F d i)"
        using len by (auto intro: alloc_desc_ok[of "?F d i"])
      then have ij: "i \<noteq> j" using i len by auto
      have "nfree (?F (?F d i) j) = 0" using i(4) j(4) few by linarith
      then have "alloc_desc (?F (?F d i) j) = (None, ?F (?F d i) j)" by (rule none)
      moreover have "(free_descs d)[i := False, j := False, i := True, j := True] = free_descs d"
        using i j ij len by (auto intro!: nth_equalityI simp: nth_list_update split: if_splits)
      ultimately show ?thesis using i j ij len
        by (simp add: alloc3_desc_def free_desc_def)
    qed
  qed
qed

section \<open>One request, start to finish\<close>

definition vdisk_ok :: "vdisk \<Rightarrow> bool" where
  "vdisk_ok d \<longleftrightarrow>
     length (desc d) = NUM \<and> length (avail_ring d) = NUM \<and> length (used_ring d) = NUM \<and>
     length (free_descs d) = NUM \<and> length (info_b d) = NUM \<and> length (info_status d) = NUM \<and>
     length (ops d) = NUM \<and>
     dev_seen d = avail_idx d \<and> used_idx d = used_dev_idx d \<and> 3 \<le> nfree d"

lemma unat_u16_small: "i < NUM \<Longrightarrow> unat (of_nat i :: u16) = i"
  by (simp add: NUM_def unat_of_nat)
lemma unat_u32_small: "i < NUM \<Longrightarrow> unat (of_nat i :: u32) = i"
  by (simp add: NUM_def unat_of_nat)
lemma mod_NUM: "n mod NUM < NUM" by (simp add: NUM_def)

lemmas vio_simps = unat_u16_small unat_u32_small mod_NUM

text \<open>Releasing a chain of three descriptors.\<close>

lemma free_chain_three:
  assumes "length (free_descs d) = NUM" "length (desc d) = NUM"
    and "i < NUM" "j < NUM" "k < NUM" "distinct [i, j, k]"
    and "\<not> free_descs d ! i" "\<not> free_descs d ! j" "\<not> free_descs d ! k"
    and "d_flags (desc d ! i) AND VRING_DESC_F_NEXT \<noteq> 0" "d_next (desc d ! i) = of_nat j"
    and "d_flags (desc d ! j) AND VRING_DESC_F_NEXT \<noteq> 0" "d_next (desc d ! j) = of_nat k"
    and "d_flags (desc d ! k) AND VRING_DESC_F_NEXT = 0"
  shows "free_chain i d = Inr (d\<lparr>desc := (desc d)[i := zero_desc, j := zero_desc, k := zero_desc],
     free_descs := (free_descs d)[i := True, j := True, k := True]\<rparr>)"
  using assms by (simp add: free_chain.simps free_desc_def vio_simps Let_def)

lemma intr_loop_one:
  assumes "used_idx d = u" "used_dev_idx d = u + 1"
    and "used_ring d ! (unat u mod NUM) = of_nat h" "h < NUM"
    and "info_status d ! h = 0" "info_b d ! h = Some b"
  shows "intr_loop d = Inr (d\<lparr>info_b := (info_b d)[h := Some (b\<lparr>b_disk := False\<rparr>)],
     used_idx := used_dev_idx d\<rparr>)"
  using assms by (simp add: intr_loop.simps vio_simps Let_def)

text \<open>What a disk looks like while its only request, with descriptors \<open>i\<close>, \<open>j\<close>, \<open>k\<close>, is in flight.\<close>

definition in_flight :: "nat \<Rightarrow> nat \<Rightarrow> nat \<Rightarrow> buf \<Rightarrow> bool \<Rightarrow> bool list \<Rightarrow> vdisk \<Rightarrow> bool" where
  "in_flight i j k b write fs d \<longleftrightarrow>
     distinct [i, j, k] \<and> i < NUM \<and> j < NUM \<and> k < NUM \<and>
     length (desc d) = NUM \<and> length (avail_ring d) = NUM \<and> length (used_ring d) = NUM \<and>
     length (free_descs d) = NUM \<and> length (info_b d) = NUM \<and> length (info_status d) = NUM \<and>
     length (ops d) = NUM \<and> used_idx d = used_dev_idx d \<and> avail_idx d = dev_seen d + 1 \<and>
     \<not> free_descs d ! i \<and> \<not> free_descs d ! j \<and> \<not> free_descs d ! k \<and>
     (free_descs d)[i := True, j := True, k := True] = fs \<and>
     d_addr (desc d ! i) = OpAddr i \<and> d_flags (desc d ! i) = VRING_DESC_F_NEXT \<and>
     d_next (desc d ! i) = of_nat j \<and>
     d_addr (desc d ! j) = DataAddr i \<and> d_next (desc d ! j) = of_nat k \<and>
     d_flags (desc d ! j) = (if write then 0 else VRING_DESC_F_WRITE) OR VRING_DESC_F_NEXT \<and>
     d_addr (desc d ! k) = StatusAddr i \<and> d_flags (desc d ! k) = VRING_DESC_F_WRITE \<and>
     req_type (ops d ! i) = (if write then VIRTIO_BLK_T_OUT else VIRTIO_BLK_T_IN) \<and>
     req_sector (ops d ! i) = blk_sector (b_blockno b) \<and>
     info_b d ! i = Some (b\<lparr>b_disk := True\<rparr>) \<and>
     avail_ring d ! (unat (dev_seen d) mod NUM) = of_nat i"

lemma list_update_restore:
  assumes "xs ! i = b" "xs ! j = b" "xs ! k = b" "i < length xs" "j < length xs" "k < length xs"
  shows "xs[i := a, j := a, k := a, i := b, j := b, k := b] = xs"
  by (rule nth_equalityI) (use assms in \<open>auto simp: nth_list_update\<close>)

lemma in_flight_format:
  assumes "length (desc d) = NUM" "length (avail_ring d) = NUM" "length (used_ring d) = NUM"
    "length (free_descs d) = NUM" "length (info_b d) = NUM" "length (info_status d) = NUM"
    "length (ops d) = NUM" "dev_seen d = avail_idx d" "used_idx d = used_dev_idx d"
    and "distinct [i, j, k]" "i < NUM" "j < NUM" "k < NUM"
    and "\<not> free_descs d ! i" "\<not> free_descs d ! j" "\<not> free_descs d ! k"
    and "(free_descs d)[i := True, j := True, k := True] = fs"
  shows "in_flight i j k b write fs (format_request i j k b write d)"
  using assms unfolding in_flight_def
  by (intro conjI) (simp_all add: format_request_def Let_def mod_NUM)

lemma virtio_disk_start_ok:
  assumes did: "did < length (disks s)" and ok: "vdisk_ok (disks s ! did)"
  obtains i j k d where
    "virtio_disk_start did b write s = Inr (i, s\<lparr>disks := (disks s)[did := d]\<rparr>)"
    "in_flight i j k b write (free_descs (disks s ! did)) d" "dname d = dname (disks s ! did)"
proof -
  let ?d = "disks s ! did"
  have n: "3 \<le> nfree ?d" and len: "length (free_descs ?d) = NUM"
    using ok by (simp_all add: vdisk_ok_def)
  from n obtain i j k where a: "distinct [i, j, k]"
    "i < length (free_descs ?d)" "j < length (free_descs ?d)" "k < length (free_descs ?d)"
    "free_descs ?d ! i" "free_descs ?d ! j" "free_descs ?d ! k"
    "alloc3_desc ?d = Inr (Some (i, j, k),
       ?d\<lparr>free_descs := (free_descs ?d)[i := False, j := False, k := False]\<rparr>)"
    by (rule alloc3_desc_ok)
  have same: "(free_descs ?d)[i := False, j := False, k := False, i := True, j := True, k := True]
      = free_descs ?d"
    using a by (intro list_update_restore) simp_all
  let ?d1 = "?d\<lparr>free_descs := (free_descs ?d)[i := False, j := False, k := False]\<rparr>"
  have "in_flight i j k b write (free_descs ?d) (format_request i j k b write ?d1)"
    using a ok same len by (intro in_flight_format) (simp_all add: vdisk_ok_def)
  moreover have "virtio_disk_start did b write s =
      Inr (i, s\<lparr>disks := (disks s)[did := format_request i j k b write ?d1]\<rparr>)"
    using did a(8) by (simp add: virtio_disk_start_def)
  moreover have "dname (format_request i j k b write ?d1) = dname ?d"
    by (simp add: format_request_def Let_def)
  ultimately show thesis by (intro that) assumption+
qed

lemma virtio_device_step_ok:
  assumes d: "disks s ! did = d" and fl: "in_flight i j k b write fs d"
    and dev: "device s did (if write then VIRTIO_BLK_T_OUT else VIRTIO_BLK_T_IN)
                (blk_sector (b_blockno b)) (b_data b) (media s) = (st, data, m)"
  shows "virtio_device_step did s = Inr (s\<lparr>media := m, disks := (disks s)[did :=
     d\<lparr>info_status := (info_status d)[i := st],
        info_b := (if write then info_b d else (info_b d)[i := Some (b\<lparr>b_disk := True, b_data := data\<rparr>)]),
        used_ring := (used_ring d)[unat (used_dev_idx d) mod NUM := of_nat i],
        used_dev_idx := used_dev_idx d + 1,
        dev_seen := dev_seen d + 1\<rparr>]\<rparr>)"
proof -
  have ne: "dev_seen d \<noteq> avail_idx d"
    and hd: "unat (avail_ring d ! (unat (dev_seen d) mod NUM)) = i"
    and nx: "unat (d_next (desc d ! i)) = j" "unat (d_next (desc d ! j)) = k"
    and fl': "d_addr (desc d ! i) = OpAddr i" "d_addr (desc d ! j) = DataAddr i"
      "d_addr (desc d ! k) = StatusAddr i" "info_b d ! i = Some (b\<lparr>b_disk := True\<rparr>)"
      "req_type (ops d ! i) = (if write then VIRTIO_BLK_T_OUT else VIRTIO_BLK_T_IN)"
      "req_sector (ops d ! i) = blk_sector (b_blockno b)"
      "(d_flags (desc d ! j) AND VRING_DESC_F_WRITE \<noteq> 0) = (\<not> write)"
    using fl by (simp_all add: in_flight_def vio_simps const_simps)
  show ?thesis
    unfolding virtio_device_step_def d Let_def hd nx fl'
    using ne dev by (simp add: fl')
qed
lemma virtio_disk_rw_ok:
  assumes did: "did < length (disks s)" and ok: "vdisk_ok (disks s ! did)"
    and dev: "device s did (if write then VIRTIO_BLK_T_OUT else VIRTIO_BLK_T_IN)
                (blk_sector (b_blockno b)) (b_data b) (media s) = (0, data, m)"
  shows "\<exists>d'. virtio_disk_rw did b write s =
           Inr (b\<lparr>b_disk := False, b_data := (if write then b_data b else data)\<rparr>,
                s\<lparr>media := m, disks := (disks s)[did := d']\<rparr>)
         \<and> vdisk_ok d' \<and> free_descs d' = free_descs (disks s ! did)"
proof -
  obtain i j k d where st: "virtio_disk_start did b write s = Inr (i, s\<lparr>disks := (disks s)[did := d]\<rparr>)"
    and fl: "in_flight i j k b write (free_descs (disks s ! did)) d"
    by (rule virtio_disk_start_ok[OF did ok])
  define d2 where "d2 = d\<lparr>info_status := (info_status d)[i := 0],
        info_b := (if write then info_b d else (info_b d)[i := Some (b\<lparr>b_disk := True, b_data := data\<rparr>)]),
        used_ring := (used_ring d)[unat (used_dev_idx d) mod NUM := of_nat i],
        used_dev_idx := used_dev_idx d + 1, dev_seen := dev_seen d + 1\<rparr>"
  define b' where "b' = b\<lparr>b_disk := False, b_data := (if write then b_data b else data)\<rparr>"
  define d3 where "d3 = d2\<lparr>info_b := (info_b d2)[i := Some b'], used_idx := used_dev_idx d2\<rparr>"
  define d4 where "d4 = d3\<lparr>info_b := (info_b d3)[i := None],
     desc := (desc d3)[i := zero_desc, j := zero_desc, k := zero_desc],
     free_descs := (free_descs d3)[i := True, j := True, k := True]\<rparr>"
  have s2: "virtio_device_step did (s\<lparr>disks := (disks s)[did := d]\<rparr>) =
      Inr (s\<lparr>media := m, disks := (disks s)[did := d2]\<rparr>)"
    using virtio_device_step_ok[of "s\<lparr>disks := (disks s)[did := d]\<rparr>" did d i j k b "write" _ 0 data m]
      did fl dev by (simp add: d2_def)
  have lens: "length (info_b d2) = NUM" "i < NUM" "length (desc d3) = NUM" "length (free_descs d3) = NUM"
    "used_idx d2 = used_dev_idx d"  "used_dev_idx d2 = used_dev_idx d + 1"
    using fl by (auto simp: d2_def d3_def in_flight_def)
  define b1 where "b1 = b\<lparr>b_disk := True, b_data := (if write then b_data b else data)\<rparr>"
  have b1: "b1\<lparr>b_disk := False\<rparr> = b'"
    by (simp add: b1_def b'_def)
  have "used_ring d2 ! (unat (used_dev_idx d) mod NUM) = of_nat i" "info_status d2 ! i = 0"
    "info_b d2 ! i = Some b1"
    using fl by (auto simp: d2_def b1_def in_flight_def mod_NUM)
  then have "intr_loop d2 = Inr d3"
    unfolding d3_def b1[symmetric] by (intro intr_loop_one) (simp_all add: lens)
  then have s3: "virtio_disk_intr did (s\<lparr>media := m, disks := (disks s)[did := d2]\<rparr>) =
      Inr (s\<lparr>media := m, disks := (disks s)[did := d3]\<rparr>)"
    using did by (simp add: virtio_disk_intr_def)
  have "desc d3 = desc d" "free_descs d3 = free_descs d"
    by (simp_all add: d3_def d2_def)
  then have "free_chain i (d3\<lparr>info_b := (info_b d3)[i := None]\<rparr>) = Inr d4"
    unfolding d4_def using fl lens
    by (subst free_chain_three[of _ i j k]) (simp_all add: in_flight_def const_simps)
  moreover have "info_b d3 ! i = Some b'"
    using lens by (simp add: d3_def)
  ultimately have s4: "virtio_disk_finish did i (s\<lparr>media := m, disks := (disks s)[did := d3]\<rparr>) =
      Inr (b', s\<lparr>media := m, disks := (disks s)[did := d4]\<rparr>)"
    using did by (simp add: virtio_disk_finish_def Let_def)
  have ok4: "vdisk_ok d4 \<and> free_descs d4 = free_descs (disks s ! did)"
    using fl ok by (auto simp: vdisk_ok_def in_flight_def nfree_def d4_def d3_def d2_def)
  show ?thesis
    by (rule exI[of _ d4]) (use st s2 s3 s4 ok4 in \<open>simp add: virtio_disk_rw_def b'_def\<close>)
qed
text \<open>
  A request the device refuses (a status other than 0) ends in the panic of the interrupt
  handler.
\<close>

lemma virtio_disk_rw_error:
  assumes did: "did < length (disks s)" and ok: "vdisk_ok (disks s ! did)"
    and dev: "device s did (if write then VIRTIO_BLK_T_OUT else VIRTIO_BLK_T_IN)
                (blk_sector (b_blockno b)) (b_data b) (media s) = (st, data, m)"
    and st0: "st \<noteq> 0"
  shows "virtio_disk_rw did b write s = Inl (Panic (dname (disks s ! did) @ '': virtio_disk_intr status''))"
proof -
  obtain i j k d where st: "virtio_disk_start did b write s = Inr (i, s\<lparr>disks := (disks s)[did := d]\<rparr>)"
    and fl: "in_flight i j k b write (free_descs (disks s ! did)) d"
    and nm: "dname d = dname (disks s ! did)"
    by (rule virtio_disk_start_ok[OF did ok])
  define d2 where "d2 = d\<lparr>info_status := (info_status d)[i := st],
        info_b := (if write then info_b d else (info_b d)[i := Some (b\<lparr>b_disk := True, b_data := data\<rparr>)]),
        used_ring := (used_ring d)[unat (used_dev_idx d) mod NUM := of_nat i],
        used_dev_idx := used_dev_idx d + 1, dev_seen := dev_seen d + 1\<rparr>"
  have s2: "virtio_device_step did (s\<lparr>disks := (disks s)[did := d]\<rparr>) =
      Inr (s\<lparr>media := m, disks := (disks s)[did := d2]\<rparr>)"
    using virtio_device_step_ok[of "s\<lparr>disks := (disks s)[did := d]\<rparr>" did d i j k b "write" _ st data m]
      did fl dev by (simp add: d2_def)
  have "used_idx d2 \<noteq> used_dev_idx d2" "unat (used_ring d2 ! (unat (used_idx d2) mod NUM)) = i"
    "i < NUM" "info_status d2 ! i \<noteq> 0" "dname d2 = dname (disks s ! did)"
    using fl st0 nm by (auto simp: d2_def in_flight_def vio_simps)
  then have "intr_loop d2 = Inl (Panic (dname (disks s ! did) @ '': virtio_disk_intr status''))"
    by (subst intr_loop.simps) simp
  with st s2 did show ?thesis by (simp add: virtio_disk_rw_def virtio_disk_intr_def)
qed

section \<open>The device, and the disks as an array of blocks\<close>

text \<open>
  What the driver relies on of the virtio block device (virtio specification, block device):
  a read of the two sectors of a block within the capacity of \<open>nblk\<close> blocks succeeds, gives
  back \<^verbatim>\<open>BSIZE\<close> bytes that do not depend on the buffer they are delivered to, and does not
  change what can be read later; a write within the capacity succeeds, and what can be read
  afterwards is the data just written at that block and what could be read before elsewhere.
\<close>

definition dev_block :: "'d device_fn \<Rightarrow> 'd \<Rightarrow> nat \<Rightarrow> nat \<Rightarrow> byte list" where
  "dev_block dev m did b = fst (snd (dev did VIRTIO_BLK_T_IN (of_nat (2 * b)) (replicate BSIZE 0) m))"

definition virtio_blk_law :: "'d device_fn \<Rightarrow> nat \<Rightarrow> bool" where
  "virtio_blk_law dev nblk \<longleftrightarrow>
     (\<forall>did b m buf. b < nblk \<longrightarrow> length buf = BSIZE \<longrightarrow>
        (\<exists>m'. dev did VIRTIO_BLK_T_IN (of_nat (2 * b)) buf m = (0, dev_block dev m did b, m') \<and>
              length (dev_block dev m did b) = BSIZE \<and>
              (\<forall>did' b'. b' < nblk \<longrightarrow> dev_block dev m' did' b' = dev_block dev m did' b')) \<and>
        (\<exists>m' out. dev did VIRTIO_BLK_T_OUT (of_nat (2 * b)) buf m = (0, out, m') \<and>
              (\<forall>did' b'. b' < nblk \<longrightarrow> dev_block dev m' did' b' =
                 (if did' = did \<and> b' = b then buf else dev_block dev m did' b'))))"

text \<open>The driver between requests, with \<open>nd\<close> RAID disks of \<open>nblk\<close> blocks each.\<close>

definition vio_ok :: "nat \<Rightarrow> nat \<Rightarrow> 'd vstate \<Rightarrow> bool" where
  "vio_ok nd nblk s \<longleftrightarrow>
     length (disks s) = Suc nd \<and> (\<forall>i \<le> nd. vdisk_ok (disks s ! i)) \<and>
     length (transfer_buffer s) = Suc nd \<and>
     (\<forall>i. 1 \<le> i \<and> i \<le> nd \<longrightarrow> (\<exists>b. transfer_buffer s ! i = Some b \<and> length (b_data b) = BSIZE)) \<and>
     virtio_blk_law (device s) nblk \<and> nblk \<le> 2 ^ 31"

definition blocks :: "nat \<Rightarrow> nat \<Rightarrow> 'd vstate \<Rightarrow> nat \<Rightarrow> nat \<Rightarrow> byte list" where
  "blocks nd nblk s i b =
     (if 1 \<le> i \<and> i \<le> nd \<and> b < nblk then dev_block (device s) (media s) i b else [])"

lemma blk_sector_of_int:
  assumes "b < 2 ^ 31"
  shows "blk_sector (of_int (int b)) = of_nat (2 * b)"
proof -
  have "unat (of_int (int b) * of_nat (BSIZE div 512) :: u32) = 2 * b"
    using assms by (simp add: BSIZE_def unat_word_ariths unat_of_nat mult.commute)
  then show ?thesis
    unfolding blk_sector_def by (metis of_nat_unat)
qed

section \<open>Interface: a store of blocks\<close>

text \<open>
  The contract of \<^verbatim>\<open>read_block\<close> and \<^verbatim>\<open>write_block\<close> towards the RAID layer.  \<open>blk s i b\<close> is
  the content of block \<open>b\<close> of disk \<open>i\<close>; a valid address is a disk from 1 to \<open>nd\<close> and a
  block below \<open>nblk\<close>.
\<close>

definition upd2 :: "(nat \<Rightarrow> nat \<Rightarrow> 'a) \<Rightarrow> nat \<Rightarrow> nat \<Rightarrow> 'a \<Rightarrow> nat \<Rightarrow> nat \<Rightarrow> 'a" where
  "upd2 C i b x = C(i := (C i)(b := x))"

lemma upd2_same [simp]: "upd2 C i b x i b = x"
  by (simp add: upd2_def)

lemma upd2_other: "(j, c) \<noteq> (i, b) \<Longrightarrow> upd2 C i b x j c = C j c"
  by (auto simp: upd2_def)

lemma upd2_apply: "upd2 C i b x j c = (if j = i \<and> c = b then x else C j c)"
  by (simp add: upd2_def)

locale block_store =
  fixes inv :: "'s \<Rightarrow> bool"
    and rd :: "int \<Rightarrow> int \<Rightarrow> 's \<Rightarrow> (byte list \<times> 's) result"
    and wr :: "int \<Rightarrow> int \<Rightarrow> byte list \<Rightarrow> 's \<Rightarrow> 's result"
    and blk :: "'s \<Rightarrow> nat \<Rightarrow> nat \<Rightarrow> byte list"
    and nd nblk bsize :: nat
  assumes rd_ok: "inv s \<Longrightarrow> 1 \<le> i \<Longrightarrow> i \<le> nd \<Longrightarrow> b < nblk \<Longrightarrow>
      \<exists>s'. rd (int i) (int b) s = Inr (blk s i b, s') \<and> inv s' \<and> blk s' = blk s"
    and wr_ok: "inv s \<Longrightarrow> 1 \<le> i \<Longrightarrow> i \<le> nd \<Longrightarrow> b < nblk \<Longrightarrow> bsize \<le> length data \<Longrightarrow>
      \<exists>s'. wr (int i) (int b) data s = Inr s' \<and> inv s' \<and> blk s' = upd2 (blk s) i b (take bsize data)"
    and blk_len: "inv s \<Longrightarrow> 1 \<le> i \<Longrightarrow> i \<le> nd \<Longrightarrow> b < nblk \<Longrightarrow> length (blk s i b) = bsize"
begin

text \<open>Writing the same block to a list of disks, as the metadata is written.\<close>

lemma wr_many:
  assumes "inv s" "set is \<subseteq> {1..nd}" "b < nblk" "bsize \<le> length data"
  shows "\<exists>s'. rfold (\<lambda>i s. if P i then wr (int i) (int b) data s else Inr s) is s = Inr s' \<and>
           inv s' \<and> blk s' = (\<lambda>i c. if i \<in> set is \<and> P i \<and> c = b then take bsize data else blk s i c)"
  using assms(1,2)
proof (induction "is" arbitrary: s)
  case Nil
  then show ?case by simp
next
  case (Cons i "is")
  show ?case
  proof (cases "P i")
    case True
    obtain s1 where s1: "wr (int i) (int b) data s = Inr s1" "inv s1"
      "blk s1 = upd2 (blk s) i b (take bsize data)"
      using wr_ok[of s i b data] Cons.prems assms(3,4) by auto
    from Cons.IH[OF s1(2)] Cons.prems(2) s1 True show ?thesis
      by (auto simp: fun_eq_iff upd2_apply)
  next
    case False
    with Cons.IH[OF Cons.prems(1)] Cons.prems(2) show ?thesis
      by (auto simp: fun_eq_iff)
  qed
qed

end

lemma vio_ok_update:
  assumes "vio_ok nd nblk s" "i \<le> nd" "vdisk_ok d" "length (b_data x) = BSIZE"
  shows "vio_ok nd nblk (s\<lparr>media := m, disks := (disks s)[i := d],
           transfer_buffer := (transfer_buffer s)[i := Some x]\<rparr>)"
  using assms unfolding vio_ok_def by (auto simp: nth_list_update)

lemma read_block_ok:
  assumes ok: "vio_ok nd nblk s" and i: "1 \<le> i" "i \<le> nd" and b: "b < nblk"
  shows "\<exists>s'. read_block (int i) (int b) s = Inr (blocks nd nblk s i b, s') \<and>
           vio_ok nd nblk s' \<and> blocks nd nblk s' = blocks nd nblk s"
proof -
  obtain x where x: "transfer_buffer s ! i = Some x" "length (b_data x) = BSIZE"
    using ok i by (auto simp: vio_ok_def)
  let ?b = "x\<lparr>b_blockno := of_int (int b)\<rparr>"
  have "b < 2 ^ 31" using ok b by (auto simp: vio_ok_def)
  then have sec: "blk_sector (b_blockno ?b) = of_nat (2 * b)"
    using blk_sector_of_int by simp
  obtain m where m: "device s i VIRTIO_BLK_T_IN (of_nat (2 * b)) (b_data x) (media s) =
        (0, dev_block (device s) (media s) i b, m)"
      "length (dev_block (device s) (media s) i b) = BSIZE"
      "\<And>did' b'. b' < nblk \<Longrightarrow> dev_block (device s) m did' b' = dev_block (device s) (media s) did' b'"
    using ok b x(2) unfolding vio_ok_def virtio_blk_law_def by blast
  have d: "i < length (disks s)" "vdisk_ok (disks s ! i)"
    using ok i by (auto simp: vio_ok_def)
  obtain d' where d': "virtio_disk_rw i ?b False s =
      Inr (?b\<lparr>b_disk := False, b_data := dev_block (device s) (media s) i b\<rparr>,
           s\<lparr>media := m, disks := (disks s)[i := d']\<rparr>)" "vdisk_ok d'"
    using virtio_disk_rw_ok[OF d, of False ?b _ m] sec m(1) by auto
  let ?s' = "s\<lparr>media := m, disks := (disks s)[i := d'],
    transfer_buffer := (transfer_buffer s)[i := Some (?b\<lparr>b_disk := False, b_data := dev_block (device s) (media s) i b\<rparr>)]\<rparr>"
  have "read_block (int i) (int b) s = Inr (blocks nd nblk s i b, ?s')"
    using d' x i b ok m(2) by (simp add: read_block_def xfer_buffer_def blocks_def vio_ok_def)
  moreover have "vio_ok nd nblk ?s'"
    by (rule vio_ok_update[OF ok i(2) d'(2)]) (simp add: m(2))
  moreover have "blocks nd nblk ?s' = blocks nd nblk s"
    using m(3) by (auto simp: blocks_def fun_eq_iff)
  ultimately show ?thesis by blast
qed


lemma write_block_ok:
  assumes ok: "vio_ok nd nblk s" and i: "1 \<le> i" "i \<le> nd" and b: "b < nblk"
    and len: "BSIZE \<le> length data"
  shows "\<exists>s'. write_block (int i) (int b) data s = Inr s' \<and> vio_ok nd nblk s' \<and>
           blocks nd nblk s' = upd2 (blocks nd nblk s) i b (take BSIZE data)"
proof -
  obtain x where x: "transfer_buffer s ! i = Some x"
    using ok i by (auto simp: vio_ok_def)
  define y where "y = x\<lparr>b_blockno := of_int (int b), b_data := take BSIZE data\<rparr>"
  have "b < 2 ^ 31" using ok b by (auto simp: vio_ok_def)
  then have sec: "blk_sector (b_blockno y) = of_nat (2 * b)"
    using blk_sector_of_int by (simp add: y_def)
  have y: "b_data y = take BSIZE data" "length (b_data y) = BSIZE"
    using len by (simp_all add: y_def)
  obtain m out where m: "device s i VIRTIO_BLK_T_OUT (of_nat (2 * b)) (b_data y) (media s) = (0, out, m)"
      "\<And>did' b'. b' < nblk \<Longrightarrow> dev_block (device s) m did' b' =
         (if did' = i \<and> b' = b then b_data y else dev_block (device s) (media s) did' b')"
    using ok b y(2) unfolding vio_ok_def virtio_blk_law_def by metis
  have d: "i < length (disks s)" "vdisk_ok (disks s ! i)"
    using ok i by (auto simp: vio_ok_def)
  obtain d' where d': "virtio_disk_rw i y True s =
      Inr (y\<lparr>b_disk := False\<rparr>, s\<lparr>media := m, disks := (disks s)[i := d']\<rparr>)" "vdisk_ok d'"
    using virtio_disk_rw_ok[OF d, of True y out m] sec m(1) by auto
  let ?s' = "s\<lparr>media := m, disks := (disks s)[i := d'],
    transfer_buffer := (transfer_buffer s)[i := Some (y\<lparr>b_disk := False\<rparr>)]\<rparr>"
  have "write_block (int i) (int b) data s = Inr ?s'"
    using d'(1) x i ok by (simp add: write_block_def xfer_buffer_def y_def vio_ok_def)
  moreover have "vio_ok nd nblk ?s'"
    by (rule vio_ok_update[OF ok i(2) d'(2)]) (simp add: y(2))
  moreover have "blocks nd nblk ?s' = upd2 (blocks nd nblk s) i b (take BSIZE data)"
    using m(2) y(1) i b by (auto simp: blocks_def fun_eq_iff upd2_apply)
  ultimately show ?thesis by blast
qed

lemma length_blocks:
  assumes "vio_ok nd nblk s" "1 \<le> i" "i \<le> nd" "b < nblk"
  shows "length (blocks nd nblk s i b) = BSIZE"
proof -
  have law: "virtio_blk_law (device s) nblk" using assms(1) by (simp add: vio_ok_def)
  have "length (replicate BSIZE (0 :: byte)) = BSIZE" by simp
  with law assms(4) have "length (dev_block (device s) (media s) i b) = BSIZE"
    unfolding virtio_blk_law_def by blast
  with assms show ?thesis by (simp add: blocks_def)
qed

interpretation vio: block_store "vio_ok nd nblk" read_block write_block "blocks nd nblk" nd nblk BSIZE
  for nd nblk
  by unfold_locales (use read_block_ok write_block_ok length_blocks in blast)+

section \<open>A device that satisfies the law\<close>

text \<open>Blocks in an array; a block that was never written reads as zeros.\<close>

definition array_device :: "(nat \<Rightarrow> nat \<Rightarrow> byte list) device_fn" where
  "array_device did ty sector buf m =
     (let b = unat sector div 2 in
      if ty = VIRTIO_BLK_T_IN then (0, take BSIZE (m did b @ replicate BSIZE 0), m)
      else (0, buf, upd2 m did b buf))"

definition fresh_vstate :: "nat \<Rightarrow> (nat \<Rightarrow> nat \<Rightarrow> byte list) vstate" where
  "fresh_vstate nd = \<lparr>disks = replicate (Suc nd) (fresh_vdisk ''disk''),
     transfer_buffer = replicate (Suc nd) (Some zero_buf), device = array_device, media = (\<lambda>_ _. [])\<rparr>"

lemma sector_block: "b < 2 ^ 31 \<Longrightarrow> unat (of_nat (2 * b) :: u64) div 2 = b"
  using unat_of_nat64[of "2 * b"] by simp

lemma array_device_block: "b < 2 ^ 31 \<Longrightarrow> dev_block array_device m did b = take BSIZE (m did b @ replicate BSIZE 0)"
  unfolding dev_block_def array_device_def Let_def using sector_block[of b] by simp

lemma array_device_law:
  assumes "nblk \<le> 2 ^ 31"
  shows "virtio_blk_law array_device nblk"
  unfolding virtio_blk_law_def
proof (intro allI impI)
  fix did b and m :: "nat \<Rightarrow> nat \<Rightarrow> byte list" and buf :: "byte list"
  assume b: "b < nblk" and len: "length buf = BSIZE"
  have s: "unat (of_nat (2 * b) :: u64) div 2 = b" using b assms by (intro sector_block) simp
  have blk: "dev_block array_device m' did' b' = take BSIZE (m' did' b' @ replicate BSIZE 0)" if "b' < nblk" for m' did' b'
    using that assms by (intro array_device_block) simp
  have rd: "array_device did VIRTIO_BLK_T_IN (of_nat (2 * b)) buf m = (0, dev_block array_device m did b, m)"
    unfolding blk[OF b] by (simp only: array_device_def s Let_def if_True simp_thms)
  have wr: "array_device did VIRTIO_BLK_T_OUT (of_nat (2 * b)) buf m = (0, buf, upd2 m did b buf)"
    unfolding array_device_def s Let_def by (simp add: const_simps)
  show "(\<exists>m'. array_device did VIRTIO_BLK_T_IN (of_nat (2 * b)) buf m = (0, dev_block array_device m did b, m') \<and>
          length (dev_block array_device m did b) = BSIZE \<and>
          (\<forall>did' b'. b' < nblk \<longrightarrow> dev_block array_device m' did' b' = dev_block array_device m did' b')) \<and>
        (\<exists>m' out. array_device did VIRTIO_BLK_T_OUT (of_nat (2 * b)) buf m = (0, out, m') \<and>
          (\<forall>did' b'. b' < nblk \<longrightarrow> dev_block array_device m' did' b' =
             (if did' = did \<and> b' = b then buf else dev_block array_device m did' b')))"
    unfolding rd wr using len by (auto simp: blk b upd2_apply)
qed

lemma fresh_vdisk_ok: "vdisk_ok (fresh_vdisk nm)"
  by (simp add: vdisk_ok_def fresh_vdisk_def nfree_def NUM_def)

lemma fresh_vstate_ok: "nblk \<le> 2 ^ 31 \<Longrightarrow> vio_ok nd nblk (fresh_vstate nd)"
  unfolding vio_ok_def fresh_vstate_def
  by (auto simp: fresh_vdisk_ok array_device_law zero_buf_def nth_replicate simp del: replicate.simps)

lemma fresh_blocks:
  "1 \<le> i \<Longrightarrow> i \<le> nd \<Longrightarrow> b < nblk \<Longrightarrow> nblk \<le> 2 ^ 31 \<Longrightarrow> blocks nd nblk (fresh_vstate nd) i b = replicate BSIZE 0"
  by (simp add: blocks_def fresh_vstate_def array_device_block)

end
