(* ===== verification/Vm.thy ===== *)
theory Vm
  imports Kalloc
begin

unbundle bit_operations_syntax

text \<open>
  Page tables and user memory, \<^verbatim>\<open>kernel/vm.c\<close>.  A page table is a tree of 4096-byte pages in
  physical memory, three levels deep; \<^verbatim>\<open>*pte\<close> is the 64-bit word at the address \<open>walk\<close>
  returns.  The kernel's side of a copy to or from user space is a list of bytes, the user's
  side is the memory that the page table gives access to.
\<close>

section \<open>Page table entries\<close>

definition MAXVA :: u64 where [const_simps]: "MAXVA = 0x4000000000"
definition PTE_V :: u64 where [const_simps]: "PTE_V = 1"
definition PTE_R :: u64 where [const_simps]: "PTE_R = 2"
definition PTE_W :: u64 where [const_simps]: "PTE_W = 4"
definition PTE_X :: u64 where [const_simps]: "PTE_X = 8"
definition PTE_U :: u64 where [const_simps]: "PTE_U = 16"

definition PA2PTE :: "u64 \<Rightarrow> u64" where "PA2PTE pa = push_bit 10 (drop_bit 12 pa)"
definition PTE2PA :: "u64 \<Rightarrow> u64" where "PTE2PA pte = push_bit 12 (drop_bit 10 pte)"
definition PTE_FLAGS :: "u64 \<Rightarrow> u64" where "PTE_FLAGS pte = pte AND 0x3FF"
definition PX :: "nat \<Rightarrow> u64 \<Rightarrow> u64" where "PX level va = drop_bit (12 + 9 * level) va AND 0x1FF"
definition PGROUNDDOWN :: "u64 \<Rightarrow> u64" where "PGROUNDDOWN a = a AND NOT (of_nat PGSIZE - 1)"

section \<open>Walking and mapping\<close>

definition pte_addr :: "u64 \<Rightarrow> nat \<Rightarrow> u64 \<Rightarrow> u64" where
  "pte_addr pagetable level va = pagetable + 8 * PX level va"

text \<open>The loop of \<^verbatim>\<open>walk\<close> from \<open>level\<close> down, and the address it returns at level 0.\<close>

fun walk_level :: "nat \<Rightarrow> u64 \<Rightarrow> u64 \<Rightarrow> bool \<Rightarrow> kmem \<Rightarrow> u64 \<times> kmem" where
  "walk_level 0 pagetable va alloc k = (pte_addr pagetable 0 va, k)"
| "walk_level (Suc l) pagetable va alloc k =
     (let a = pte_addr pagetable (Suc l) va; pte = get64 (phys k) a in
      if pte AND PTE_V \<noteq> 0 then walk_level l (PTE2PA pte) va alloc k
      else if \<not> alloc then (0, k)
      else case kalloc k of
             (p, k1) \<Rightarrow>
               if p = 0 then (0, k1)
               else walk_level l p va alloc
                      (k1\<lparr>phys := put64 (mem_fill (phys k1) p 0 PGSIZE) a (PA2PTE p OR PTE_V)\<rparr>))"

definition walk :: "u64 \<Rightarrow> u64 \<Rightarrow> bool \<Rightarrow> kmem \<Rightarrow> u64 \<times> kmem" where
  "walk pagetable va alloc k =
     (if MAXVA \<le> va then (0, k) else walk_level 2 pagetable va alloc k)"

definition walkaddr :: "u64 \<Rightarrow> u64 \<Rightarrow> kmem \<Rightarrow> u64" where
  "walkaddr pagetable va k =
     (if MAXVA \<le> va then 0
      else let pte = fst (walk pagetable va False k) in
        if pte = 0 then 0
        else if get64 (phys k) pte AND PTE_V = 0 then 0
        else if get64 (phys k) pte AND PTE_U = 0 then 0
        else PTE2PA (get64 (phys k) pte))"

lemma unat_MAXVA: "unat MAXVA = 2 ^ 38"
  by (simp add: MAXVA_def)

lemma next_page_measure:
  "a < MAXVA \<Longrightarrow> unat MAXVA - unat (a + of_nat PGSIZE) < unat MAXVA - unat a"
  by (simp add: word_less_nat_alt MAXVA_def PGSIZE_def unat_word_ariths)

lemma walk_nonzero: "walk pagetable va alloc k = (p, k') \<Longrightarrow> p \<noteq> 0 \<Longrightarrow> va < MAXVA"
  by (auto simp: walk_def split: if_splits)

lemma walk_fst_nonzero: "fst (walk pagetable va alloc k) \<noteq> 0 \<Longrightarrow> va < MAXVA"
  by (auto simp: walk_def split: if_splits)

text \<open>The loop of \<^verbatim>\<open>mappages\<close>; it ends because \<^verbatim>\<open>walk\<close> refuses addresses from \<^verbatim>\<open>MAXVA\<close> on.\<close>

function mappages_loop :: "u64 \<Rightarrow> u64 \<Rightarrow> u64 \<Rightarrow> u64 \<Rightarrow> u64 \<Rightarrow> kmem \<Rightarrow> (int \<times> kmem) result" where
  "mappages_loop pagetable a alast pa perm k =
     (case walk pagetable a True k of
        (pte, k1) \<Rightarrow>
          if pte = 0 then Inr (-1, k1)
          else if get64 (phys k1) pte AND PTE_V \<noteq> 0 then Inl (Panic ''mappages: remap'')
          else let k2 = k1\<lparr>phys := put64 (phys k1) pte (PA2PTE pa OR perm OR PTE_V)\<rparr> in
            if a = alast then Inr (0, k2)
            else mappages_loop pagetable (a + of_nat PGSIZE) alast (pa + of_nat PGSIZE) perm k2)"
  by pat_completeness auto
termination
  by (relation "measure (\<lambda>(pt, a, l, pa, perm, k). unat MAXVA - unat a)")
    (auto intro!: next_page_measure dest: walk_nonzero[OF sym])

declare mappages_loop.simps [simp del]

definition mappages :: "u64 \<Rightarrow> u64 \<Rightarrow> u64 \<Rightarrow> u64 \<Rightarrow> u64 \<Rightarrow> kmem \<Rightarrow> (int \<times> kmem) result" where
  "mappages pagetable va sz pa perm k =
     (if sz = 0 then Inl (Panic ''mappages: size'')
      else mappages_loop pagetable (PGROUNDDOWN va) (PGROUNDDOWN (va + sz - 1)) pa perm k)"

definition kvmmap :: "u64 \<Rightarrow> u64 \<Rightarrow> u64 \<Rightarrow> u64 \<Rightarrow> u64 \<Rightarrow> kmem \<Rightarrow> kmem result" where
  "kvmmap kpgtbl va pa sz perm k =
     rbind (mappages kpgtbl va sz pa perm k) (\<lambda>(r, k1).
       if r \<noteq> 0 then Inl (Panic ''kvmmap'') else Inr k1)"

text \<open>The loop of \<^verbatim>\<open>uvmunmap\<close>, up to the address \<open>e\<close>.\<close>

function uvmunmap_loop :: "u64 \<Rightarrow> u64 \<Rightarrow> u64 \<Rightarrow> u64 \<Rightarrow> bool \<Rightarrow> kmem \<Rightarrow> kmem result" where
  "uvmunmap_loop kend pagetable a e do_free k =
     (if \<not> a < e then Inr k
      else let pte = fst (walk pagetable a False k) in
        if pte = 0 then Inl (Panic ''uvmunmap: walk'')
        else let v = get64 (phys k) pte in
          if v AND PTE_V = 0 then Inl (Panic ''uvmunmap: not mapped'')
          else if PTE_FLAGS v = PTE_V then Inl (Panic ''uvmunmap: not a leaf'')
          else rbind (if do_free then kfree kend (PTE2PA v) k else Inr k) (\<lambda>k1.
                 uvmunmap_loop kend pagetable (a + of_nat PGSIZE) e do_free
                   (k1\<lparr>phys := put64 (phys k1) pte 0\<rparr>)))"
  by pat_completeness auto
termination
  by (relation "measure (\<lambda>(kend, pt, a, e, f, k). unat MAXVA - unat a)")
    (auto intro!: next_page_measure dest: walk_fst_nonzero)

declare uvmunmap_loop.simps [simp del]

definition uvmunmap :: "u64 \<Rightarrow> u64 \<Rightarrow> u64 \<Rightarrow> u64 \<Rightarrow> bool \<Rightarrow> kmem \<Rightarrow> kmem result" where
  "uvmunmap kend pagetable va npages do_free k =
     (if unat va mod PGSIZE \<noteq> 0 then Inl (Panic ''uvmunmap: not aligned'')
      else uvmunmap_loop kend pagetable va (va + npages * of_nat PGSIZE) do_free k)"

section \<open>User address spaces\<close>

definition uvmcreate :: "kmem \<Rightarrow> u64 \<times> kmem" where
  "uvmcreate k =
     (case kalloc k of
        (pagetable, k1) \<Rightarrow>
          if pagetable = 0 then (0, k1)
          else (pagetable, k1\<lparr>phys := mem_fill (phys k1) pagetable 0 PGSIZE\<rparr>))"

text \<open>\<^verbatim>\<open>uvmfirst\<close> does not test what \<^verbatim>\<open>kalloc\<close> and \<^verbatim>\<open>mappages\<close> return.\<close>

definition uvmfirst :: "u64 \<Rightarrow> byte list \<Rightarrow> kmem \<Rightarrow> kmem result" where
  "uvmfirst pagetable src k =
     (if PGSIZE \<le> length src then Inl (Panic ''uvmfirst: more than a page'')
      else case kalloc k of
        (mem, k1) \<Rightarrow>
          if mem = 0 then Inl NullDeref
          else rbind (mappages pagetable 0 (of_nat PGSIZE) mem (PTE_W OR PTE_R OR PTE_X OR PTE_U)
                       (k1\<lparr>phys := mem_fill (phys k1) mem 0 PGSIZE\<rparr>)) (\<lambda>(_, k2).
                 Inr (k2\<lparr>phys := mem_write (phys k2) mem src\<rparr>)))"

text \<open>The number of pages is an \<^verbatim>\<open>int\<close>, widened to 64 bits for \<^verbatim>\<open>uvmunmap\<close>.\<close>

definition uvmdealloc :: "u64 \<Rightarrow> u64 \<Rightarrow> u64 \<Rightarrow> u64 \<Rightarrow> kmem \<Rightarrow> (u64 \<times> kmem) result" where
  "uvmdealloc kend pagetable oldsz newsz k =
     (if oldsz \<le> newsz then Inr (oldsz, k)
      else if PGROUNDUP newsz < PGROUNDUP oldsz
      then let npages = scast (ucast ((PGROUNDUP oldsz - PGROUNDUP newsz) div of_nat PGSIZE) :: u32)
           in rbind (uvmunmap kend pagetable (PGROUNDUP newsz) npages True k) (\<lambda>k1. Inr (newsz, k1))
      else Inr (newsz, k))"

lemma PGROUNDDOWN_eq: "PGROUNDDOWN a = push_bit 12 (drop_bit 12 a)"
proof -
  have "(of_nat PGSIZE - 1 :: u64) = mask 12" by (simp add: PGSIZE_def mask_eq_exp_minus_1)
  then show ?thesis
    unfolding PGROUNDDOWN_def by (auto intro!: bit_word_eqI simp: bit_simps)
qed

lemma unat_PGROUNDDOWN: "unat (PGROUNDDOWN a) = PGSIZE * (unat a div PGSIZE)"
proof -
  have "unat a < 2 ^ 64" using unsigned_less[of a] by simp
  then have "4096 * (unat a div 4096) < 2 ^ 64" by (rule le_less_trans[rotated]) simp
  then show ?thesis
    unfolding PGROUNDDOWN_eq PGSIZE_def
    by (simp add: push_bit_eq_mult unat_word_ariths unat_drop_bit_eq drop_bit_eq_div)
qed

lemma PGROUNDDOWN_less_MAXVA: "PGROUNDDOWN a < MAXVA \<longleftrightarrow> a < MAXVA"
  unfolding word_less_nat_alt unat_PGROUNDDOWN unat_MAXVA PGSIZE_def
  by (simp add: less_mult_imp_div_less) linarith

lemma mappages_success:
  assumes "mappages pagetable va sz pa perm k = Inr (0, k')"
  shows "va < MAXVA"
proof -
  have "PGROUNDDOWN va < MAXVA"
    using assms walk_nonzero[of pagetable "PGROUNDDOWN va" True k]
    unfolding mappages_def mappages_loop.simps[of _ "PGROUNDDOWN va"]
    by (auto split: if_splits prod.splits)
  then show ?thesis by (simp add: PGROUNDDOWN_less_MAXVA)
qed

text \<open>The loop of \<^verbatim>\<open>uvmalloc\<close>; \<open>oldsz\<close> is already rounded up.\<close>

function uvmalloc_loop ::
    "u64 \<Rightarrow> u64 \<Rightarrow> u64 \<Rightarrow> u64 \<Rightarrow> u64 \<Rightarrow> u64 \<Rightarrow> kmem \<Rightarrow> (u64 \<times> kmem) result" where
  "uvmalloc_loop kend pagetable oldsz a newsz xperm k =
     (if \<not> a < newsz then Inr (newsz, k)
      else case kalloc k of
        (mem, k1) \<Rightarrow>
          if mem = 0
          then rbind (uvmdealloc kend pagetable a oldsz k1) (\<lambda>(_, k2). Inr (0, k2))
          else case mappages pagetable a (of_nat PGSIZE) mem (PTE_R OR PTE_U OR xperm)
                      (k1\<lparr>phys := mem_fill (phys k1) mem 0 PGSIZE\<rparr>) of
                 Inl e \<Rightarrow> Inl e
               | Inr (r, k2) \<Rightarrow>
                   if r \<noteq> 0
                   then rbind (kfree kend mem k2) (\<lambda>k3.
                        rbind (uvmdealloc kend pagetable a oldsz k3) (\<lambda>(_, k4). Inr (0, k4)))
                   else uvmalloc_loop kend pagetable oldsz (a + of_nat PGSIZE) newsz xperm k2)"
  by pat_completeness auto
termination
  by (relation "measure (\<lambda>(kend, pt, oldsz, a, newsz, x, k). unat MAXVA - unat a)")
    (auto intro!: next_page_measure dest: mappages_success[OF sym] mappages_success)

declare uvmalloc_loop.simps [simp del]

definition uvmalloc :: "u64 \<Rightarrow> u64 \<Rightarrow> u64 \<Rightarrow> u64 \<Rightarrow> u64 \<Rightarrow> kmem \<Rightarrow> (u64 \<times> kmem) result" where
  "uvmalloc kend pagetable oldsz newsz xperm k =
     (if newsz < oldsz then Inr (oldsz, k)
      else uvmalloc_loop kend pagetable (PGROUNDUP oldsz) (PGROUNDUP oldsz) newsz xperm k)"

text \<open>
  \<^verbatim>\<open>freewalk\<close> recurses into every entry that points to a table.  \<open>n\<close> bounds the depth of the
  recursion; the tables of the kernel have three levels.
\<close>

fun freewalk :: "nat \<Rightarrow> u64 \<Rightarrow> u64 \<Rightarrow> kmem \<Rightarrow> kmem result" where
  "freewalk 0 kend pagetable k = Inl OutOfFuel"
| "freewalk (Suc n) kend pagetable k =
     rbind (rfold (\<lambda>i k.
         let pte = get64 (phys k) (pagetable + of_nat (8 * i)) in
         if pte AND PTE_V \<noteq> 0 \<and> pte AND (PTE_R OR PTE_W OR PTE_X) = 0
         then rbind (freewalk n kend (PTE2PA pte) k) (\<lambda>k1.
                Inr (k1\<lparr>phys := put64 (phys k1) (pagetable + of_nat (8 * i)) 0\<rparr>))
         else if pte AND PTE_V \<noteq> 0 then Inl (Panic ''freewalk: leaf'')
         else Inr k) [0..<512] k)
       (kfree kend pagetable)"

definition uvmfree :: "nat \<Rightarrow> u64 \<Rightarrow> u64 \<Rightarrow> u64 \<Rightarrow> kmem \<Rightarrow> kmem result" where
  "uvmfree n kend pagetable sz k =
     rbind (if 0 < sz then uvmunmap kend pagetable 0 (PGROUNDUP sz div of_nat PGSIZE) True k else Inr k)
       (freewalk n kend pagetable)"

text \<open>The loop of \<^verbatim>\<open>uvmcopy\<close> with its \<^verbatim>\<open>err\<close> exit.\<close>

function uvmcopy_loop :: "u64 \<Rightarrow> u64 \<Rightarrow> u64 \<Rightarrow> u64 \<Rightarrow> u64 \<Rightarrow> kmem \<Rightarrow> (int \<times> kmem) result" where
  "uvmcopy_loop kend old new i sz k =
     (if \<not> i < sz then Inr (0, k)
      else let pte = fst (walk old i False k) in
        if pte = 0 then Inl (Panic ''uvmcopy: pte should exist'')
        else let v = get64 (phys k) pte in
          if v AND PTE_V = 0 then Inl (Panic ''uvmcopy: page not present'')
          else case kalloc k of
            (mem, k1) \<Rightarrow>
              if mem = 0
              then rbind (uvmunmap kend new 0 (i div of_nat PGSIZE) True k1) (\<lambda>k2. Inr (-1, k2))
              else rbind (mappages new i (of_nat PGSIZE) mem (PTE_FLAGS v)
                          (k1\<lparr>phys := mem_write (phys k1) mem (mem_read (phys k1) (PTE2PA v) PGSIZE)\<rparr>))
                    (\<lambda>(r, k2).
                       if r \<noteq> 0
                       then rbind (kfree kend mem k2) (\<lambda>k3.
                            rbind (uvmunmap kend new 0 (i div of_nat PGSIZE) True k3) (\<lambda>k4. Inr (-1, k4)))
                       else uvmcopy_loop kend old new (i + of_nat PGSIZE) sz k2))"
  by pat_completeness auto
termination
  by (relation "measure (\<lambda>(kend, old, new, i, sz, k). unat MAXVA - unat i)")
    (auto intro!: next_page_measure dest: walk_fst_nonzero)

declare uvmcopy_loop.simps [simp del]

definition uvmcopy :: "u64 \<Rightarrow> u64 \<Rightarrow> u64 \<Rightarrow> u64 \<Rightarrow> kmem \<Rightarrow> (int \<times> kmem) result" where
  "uvmcopy kend old new sz k = uvmcopy_loop kend old new 0 sz k"

definition uvmclear :: "u64 \<Rightarrow> u64 \<Rightarrow> kmem \<Rightarrow> kmem result" where
  "uvmclear pagetable va k =
     (let pte = fst (walk pagetable va False k) in
      if pte = 0 then Inl (Panic ''uvmclear'')
      else Inr (k\<lparr>phys := put64 (phys k) pte (get64 (phys k) pte AND NOT PTE_U)\<rparr>))"

section \<open>Copying between the kernel and user space\<close>

lemma chunk_pos: "PGSIZE - unat (va - PGROUNDDOWN va) \<noteq> 0"
proof -
  have le: "PGROUNDDOWN va \<le> va"
    unfolding word_le_nat_alt unat_PGROUNDDOWN by simp
  have "unat va mod PGSIZE < PGSIZE" by (simp add: PGSIZE_def)
  moreover have "unat (va - PGROUNDDOWN va) = unat va mod PGSIZE"
    using le unfolding unat_sub_if' word_le_nat_alt unat_PGROUNDDOWN
    by (simp add: minus_mult_div_eq_mod)
  ultimately show ?thesis by simp
qed

lemma chunk_less:
  "0 < len \<Longrightarrow> len - min (PGSIZE - unat (va - PGROUNDDOWN va)) len < len"
  using chunk_pos[of va] by linarith

function copyout :: "u64 \<Rightarrow> u64 \<Rightarrow> byte list \<Rightarrow> kmem \<Rightarrow> int \<times> kmem" where
  "copyout pagetable dstva src k =
     (if src = [] then (0, k)
      else let va0 = PGROUNDDOWN dstva; pa0 = walkaddr pagetable va0 k in
        if pa0 = 0 then (-1, k)
        else let n = min (PGSIZE - unat (dstva - va0)) (length src)
          in copyout pagetable (va0 + of_nat PGSIZE) (drop n src)
               (k\<lparr>phys := mem_write (phys k) (pa0 + (dstva - va0)) (take n src)\<rparr>))"
  by pat_completeness auto
termination
  by (relation "measure (\<lambda>(pt, va, src, k). length src)") (auto simp: chunk_less)

declare copyout.simps [simp del]

text \<open>The second component is what has been copied to \<^verbatim>\<open>dst\<close> when the call returns.\<close>

function copyin :: "u64 \<Rightarrow> u64 \<Rightarrow> nat \<Rightarrow> kmem \<Rightarrow> int \<times> byte list" where
  "copyin pagetable srcva len k =
     (if len = 0 then (0, [])
      else let va0 = PGROUNDDOWN srcva; pa0 = walkaddr pagetable va0 k in
        if pa0 = 0 then (-1, [])
        else let n = min (PGSIZE - unat (srcva - va0)) len
          in case copyin pagetable (va0 + of_nat PGSIZE) (len - n) k of
               (r, bs) \<Rightarrow> (r, mem_read (phys k) (pa0 + (srcva - va0)) n @ bs))"
  by pat_completeness auto
termination
  by (relation "measure (\<lambda>(pt, va, len, k). len)") (auto simp: chunk_less)

declare copyin.simps [simp del]

text \<open>
  The inner loop of \<^verbatim>\<open>copyinstr\<close> over at most \<open>n\<close> bytes from \<open>p\<close>: whether it met the
  terminating zero, and the bytes it stored, the zero included.
\<close>

fun copystr_chunk :: "memory \<Rightarrow> u64 \<Rightarrow> nat \<Rightarrow> bool \<times> byte list" where
  "copystr_chunk m p 0 = (False, [])"
| "copystr_chunk m p (Suc n) =
     (if m p = 0 then (True, [0])
      else case copystr_chunk m (p + 1) n of (g, bs) \<Rightarrow> (g, m p # bs))"

function copyinstr :: "u64 \<Rightarrow> u64 \<Rightarrow> nat \<Rightarrow> kmem \<Rightarrow> int \<times> byte list" where
  "copyinstr pagetable srcva mx k =
     (if mx = 0 then (-1, [])
      else let va0 = PGROUNDDOWN srcva; pa0 = walkaddr pagetable va0 k in
        if pa0 = 0 then (-1, [])
        else let n = min (PGSIZE - unat (srcva - va0)) mx
          in case copystr_chunk (phys k) (pa0 + (srcva - va0)) n of
               (got_null, bs) \<Rightarrow>
                 if got_null then (0, bs)
                 else case copyinstr pagetable (va0 + of_nat PGSIZE) (mx - n) k of
                        (r, bs') \<Rightarrow> (r, bs @ bs'))"
  by pat_completeness auto
termination
  by (relation "measure (\<lambda>(pt, va, mx, k). mx)") (auto simp: chunk_less)

declare copyinstr.simps [simp del]

end
