(* ===== verification/Raid_Meta.thy ===== *)
theory Raid_Meta
  imports Virtio Vm
begin

unbundle bit_operations_syntax

text \<open>
  The state of the RAID layer: \<^verbatim>\<open>struct raid\<close> of \<^verbatim>\<open>kernel/raid.h\<close>, and the helpers \<^verbatim>\<open>fetch\<close>
  and \<^verbatim>\<open>writeback\<close> of \<^verbatim>\<open>kernel/raid_rw.c\<close> that move it between memory and block 0 of the disks.

  The structure lives in one page of physical memory that \<^verbatim>\<open>kalloc\<close> provides, the cached
  blocks in the same page behind it, and the buffers of the callers elsewhere in the same
  memory.  The model keeps it that way: \<open>raid_metadata\<close> is an address, a field is the 32-bit
  word at its offset, and an array element is the word at the offset the C index expression
  denotes, whether or not the index is below the length of the array.  An access outside
  the RAM the kernel maps stops.  \<open>D\<close> is the build parameter \<^verbatim>\<open>DISKS\<close>.
\<close>

section \<open>State and memory access\<close>

definition BLOCKSIZE :: nat where [const_simps]: "BLOCKSIZE = 512"
definition KERNBASE :: nat where [const_simps]: "KERNBASE = 0x80000000"

definition ALIVE :: u32 where [const_simps]: "ALIVE = 0"
definition DEAD :: u32 where [const_simps]: "DEAD = 1"
definition REPAIRED :: u32 where [const_simps]: "REPAIRED = 2"

definition RAID0 :: u32 where [const_simps]: "RAID0 = 0"
definition RAID1 :: u32 where [const_simps]: "RAID1 = 1"
definition RAID0_1 :: u32 where [const_simps]: "RAID0_1 = 2"
definition RAID4 :: u32 where [const_simps]: "RAID4 = 3"
definition RAID5 :: u32 where [const_simps]: "RAID5 = 4"

record 'd rsys =
  raid_metadata :: u64
  km :: kmem
  vd :: "'d vstate"

abbreviation mem :: "'d rsys \<Rightarrow> memory" where "mem s \<equiv> phys (km s)"

definition set_mem :: "memory \<Rightarrow> 'd rsys \<Rightarrow> 'd rsys" where
  "set_mem m s = s\<lparr>km := (km s)\<lparr>phys := m\<rparr>\<rparr>"

definition ram :: "u64 \<Rightarrow> nat \<Rightarrow> bool" where
  "ram a n \<longleftrightarrow> KERNBASE \<le> unat a \<and> unat a + n \<le> unat PHYSTOP"

definition load :: "u64 \<Rightarrow> nat \<Rightarrow> 'd rsys \<Rightarrow> byte list result" where
  "load a n s = (if ram a n then Inr (mem_read (mem s) a n) else Inl OutOfBounds)"

definition store :: "u64 \<Rightarrow> byte list \<Rightarrow> 'd rsys \<Rightarrow> 'd rsys result" where
  "store a bs s =
     (if ram a (length bs) then Inr (set_mem (mem_write (mem s) a bs) s) else Inl OutOfBounds)"

definition load32 :: "u64 \<Rightarrow> 'd rsys \<Rightarrow> u32 result" where
  "load32 a s = rbind (load a 4 s) (\<lambda>bs. Inr (rd32 bs))"

definition store32 :: "u64 \<Rightarrow> u32 \<Rightarrow> 'd rsys \<Rightarrow> 'd rsys result" where
  "store32 a v s = store a (le32 v) s"

section \<open>The fields of \<^verbatim>\<open>struct raid\<close>\<close>

text \<open>
  The word at index \<open>i\<close> of the structure.  The seven scalar fields come first, then
  \<^verbatim>\<open>disk_state[D]\<close>, \<^verbatim>\<open>data_disks[D/2]\<close>, \<^verbatim>\<open>copy_disks[D/2]\<close>, three more words, and at the next
  multiple of eight bytes the cache: two words and \<open>D\<close> pointers.
\<close>

definition fld :: "nat \<Rightarrow> 'd rsys \<Rightarrow> u32" where
  "fld i s = get32 (mem s) (raid_metadata s + of_nat (4 * i))"

definition set_fld :: "nat \<Rightarrow> u32 \<Rightarrow> 'd rsys \<Rightarrow> 'd rsys" where
  "set_fld i v s = set_mem (put32 (mem s) (raid_metadata s + of_nat (4 * i)) v) s"

abbreviation "raid_initialized \<equiv> fld 0"
abbreviation "raid_type \<equiv> fld 1"
abbreviation "num_of_disks \<equiv> fld 2"
abbreviation "block_size \<equiv> fld 3"
abbreviation "max_blocks \<equiv> fld 4"
abbreviation "num_dead_disks \<equiv> fld 5"
abbreviation "max_dead_disks \<equiv> fld 6"

definition W_disk_state :: nat where [layout_simps]: "W_disk_state = 7"
definition W_data_disks :: "nat \<Rightarrow> nat" where [layout_simps]: "W_data_disks D = 7 + D"
definition W_copy_disks :: "nat \<Rightarrow> nat" where [layout_simps]: "W_copy_disks D = 7 + D + D div 2"
definition W_reserve_disk :: "nat \<Rightarrow> nat" where [layout_simps]: "W_reserve_disk D = 7 + D + 2 * (D div 2)"
definition W_stripe_cursor :: "nat \<Rightarrow> nat" where [layout_simps]: "W_stripe_cursor D = 8 + D + 2 * (D div 2)"
definition W_parity_disk :: "nat \<Rightarrow> nat" where [layout_simps]: "W_parity_disk D = 9 + D + 2 * (D div 2)"
definition W_cache :: "nat \<Rightarrow> nat" where [layout_simps]: "W_cache D = 2 * D + 10"

abbreviation "reserve_disk D \<equiv> fld (W_reserve_disk D)"
abbreviation "stripe_cursor D \<equiv> fld (W_stripe_cursor D)"
abbreviation "parity_disk D \<equiv> fld (W_parity_disk D)"
abbreviation "cache_stripe D \<equiv> fld (W_cache D)"
abbreviation "parity_cached D \<equiv> fld (W_cache D + 1)"

definition raid_word :: "nat \<Rightarrow> int \<Rightarrow> 'd rsys \<Rightarrow> u32 result" where
  "raid_word base k s = load32 (raid_metadata s + of_int (4 * (int base + k))) s"

definition set_raid_word :: "nat \<Rightarrow> int \<Rightarrow> u32 \<Rightarrow> 'd rsys \<Rightarrow> 'd rsys result" where
  "set_raid_word base k v s = store32 (raid_metadata s + of_int (4 * (int base + k))) v s"

abbreviation disk_state :: "int \<Rightarrow> 'd rsys \<Rightarrow> u32 result" where
  "disk_state k \<equiv> raid_word W_disk_state k"

abbreviation data_disks :: "nat \<Rightarrow> int \<Rightarrow> 'd rsys \<Rightarrow> u32 result" where
  "data_disks D k \<equiv> raid_word (W_data_disks D) k"

abbreviation copy_disks :: "nat \<Rightarrow> int \<Rightarrow> 'd rsys \<Rightarrow> u32 result" where
  "copy_disks D k \<equiv> raid_word (W_copy_disks D) k"

text \<open>\<^verbatim>\<open>cache.cached_data_disks[k]\<close>.\<close>

definition cached_data_disks :: "nat \<Rightarrow> int \<Rightarrow> 'd rsys \<Rightarrow> u64 result" where
  "cached_data_disks D k s =
     rbind (load (raid_metadata s + of_int (4 * int (W_cache D + 2) + 8 * k)) 8 s) (\<lambda>bs. Inr (rd64 bs))"

definition set_cached_data_disks :: "nat \<Rightarrow> nat \<Rightarrow> u64 \<Rightarrow> 'd rsys \<Rightarrow> 'd rsys" where
  "set_cached_data_disks D k p s =
     set_mem (put64 (mem s) (raid_metadata s + of_nat (4 * (W_cache D + 2) + 8 * k)) p) s"

section \<open>Blocks to and from memory\<close>

definition read_block_to :: "int \<Rightarrow> int \<Rightarrow> u64 \<Rightarrow> 'd rsys \<Rightarrow> 'd rsys result" where
  "read_block_to diskn blockno data s =
     rbind (read_block diskn blockno (vd s)) (\<lambda>(bs, v). store data bs (s\<lparr>vd := v\<rparr>))"

definition write_block_from :: "int \<Rightarrow> int \<Rightarrow> u64 \<Rightarrow> 'd rsys \<Rightarrow> 'd rsys result" where
  "write_block_from diskn blockno data s =
     rbind (load data BSIZE s) (\<lambda>bs.
     rbind (write_block diskn blockno bs (vd s)) (\<lambda>v. Inr (s\<lparr>vd := v\<rparr>)))"

text \<open>\<^verbatim>\<open>memmove\<close> between two addresses.\<close>

definition move :: "u64 \<Rightarrow> u64 \<Rightarrow> nat \<Rightarrow> 'd rsys \<Rightarrow> 'd rsys result" where
  "move dst src n s = rbind (load src n s) (\<lambda>bs. store dst bs s)"

section \<open>Metadata on disk\<close>

text \<open>
  The loop of \<^verbatim>\<open>fetch\<close> over the disks; \<^verbatim>\<open>continue\<close> goes on with the next disk and \<^verbatim>\<open>break\<close>
  leaves.  The state that is tested is \<^verbatim>\<open>disk_state[i]\<close>, as in the source.
\<close>

fun fetch_loop :: "u64 \<Rightarrow> nat list \<Rightarrow> 'd rsys \<Rightarrow> 'd rsys result" where
  "fetch_loop data [] s = Inr s"
| "fetch_loop data (i # is) s =
     rbind (read_block_to (int i) 0 data s) (\<lambda>s1.
       let s2 = s1\<lparr>raid_metadata := data\<rparr> in
       if raid_metadata s2 = 0 then fetch_loop data is s2
       else rbind (disk_state (int i) s2) (\<lambda>st.
              if st = DEAD then fetch_loop data is s2 else Inr s2))"

definition set_slots :: "nat \<Rightarrow> 'd rsys \<Rightarrow> 'd rsys" where
  "set_slots D s =
     fold (\<lambda>i s. set_cached_data_disks D i (raid_metadata s + of_nat (BLOCKSIZE * (i + 1))) s) [0..<D] s"

definition fetch :: "nat \<Rightarrow> 'd rsys \<Rightarrow> 'd rsys result" where
  "fetch D s =
     (if raid_metadata s = 0 \<or> raid_initialized s = 0
      then case kalloc (km s) of
        (data, k) \<Rightarrow>
          if data = 0 then Inl NullDeref
          else rbind (fetch_loop data [1..<Suc D]
                       (s\<lparr>km := k\<lparr>phys := mem_fill (phys k) data 0 PGSIZE\<rparr>\<rparr>)) (\<lambda>s1.
                 Inr (set_slots D (set_fld (W_cache D + 1) (-1) (set_fld (W_cache D) (-1) s1))))
      else Inr s)"

definition writeback :: "nat \<Rightarrow> 'd rsys \<Rightarrow> 'd rsys result" where
  "writeback D s =
     rfold (\<lambda>i s. rbind (disk_state (int i - 1) s) (\<lambda>st.
        if st = ALIVE \<or> st = REPAIRED then write_block_from (int i) 0 (raid_metadata s) s else Inr s))
       [1..<Suc D] s"

section \<open>Views of the page\<close>

text \<open>
  The rest of the development looks at the page through two views: the words of the
  structure (\<open>fld\<close>) and the 512-byte areas behind it (\<open>slot\<close>), area \<open>k\<close> being the one
  \<^verbatim>\<open>cached_data_disks[k]\<close> points to.
\<close>

definition pg :: "'d rsys \<Rightarrow> nat \<Rightarrow> byte" where
  "pg s x = mem s (raid_metadata s + of_nat x)"

definition slot :: "'d rsys \<Rightarrow> nat \<Rightarrow> byte list" where
  "slot s k = (if k \<le> 6 then map (pg s) [BLOCKSIZE * (k + 1)..<BLOCKSIZE * (k + 2)] else [])"

definition slot_ptr :: "nat \<Rightarrow> nat \<Rightarrow> 'd rsys \<Rightarrow> u64" where
  "slot_ptr D k s = get64 (mem s) (raid_metadata s + of_nat (4 * (W_cache D + 2) + 8 * k))"

definition slot_addr :: "'d rsys \<Rightarrow> nat \<Rightarrow> u64" where
  "slot_addr s k = raid_metadata s + of_nat (BLOCKSIZE * (k + 1))"

text \<open>
  The structure is in a page of RAM and its pointers are those \<^verbatim>\<open>fetch\<close> and \<^verbatim>\<open>init_raid\<close>
  store.  A transfer of 1024 bytes to the last slot stays in the page when \<open>D \<le> 6\<close>.
\<close>

definition raid_wf :: "nat \<Rightarrow> 'd rsys \<Rightarrow> bool" where
  "raid_wf D s \<longleftrightarrow> 2 \<le> D \<and> D \<le> 6 \<and> ram (raid_metadata s) PGSIZE \<and>
     (\<forall>k<D. slot_ptr D k s = slot_addr s k)"

text \<open>What no operation on the page changes: where it is, the free list, all other memory.\<close>

definition page_only :: "'d rsys \<Rightarrow> 'd rsys \<Rightarrow> bool" where
  "page_only s s' \<longleftrightarrow> raid_metadata s' = raid_metadata s \<and> freelist (km s') = freelist (km s) \<and>
     (\<forall>x. \<not> within (raid_metadata s) PGSIZE x \<longrightarrow> mem s' x = mem s x)"

definition raid_ready :: "nat \<Rightarrow> nat \<Rightarrow> 'd rsys \<Rightarrow> bool" where
  "raid_ready D nblk s \<longleftrightarrow> raid_wf D s \<and> vio_ok D nblk (vd s)"

text \<open>A step from \<open>s\<close> to \<open>s'\<close> that changes no word of the structure and no memory outside the page.\<close>

definition quiet :: "nat \<Rightarrow> nat \<Rightarrow> 'd rsys \<Rightarrow> 'd rsys \<Rightarrow> bool" where
  "quiet D nblk s s' \<longleftrightarrow> raid_ready D nblk s' \<and> page_only s s' \<and> (\<forall>i<128. fld i s' = fld i s)"

abbreviation dblocks :: "nat \<Rightarrow> nat \<Rightarrow> 'd rsys \<Rightarrow> nat \<Rightarrow> nat \<Rightarrow> byte list" where
  "dblocks D nblk s \<equiv> blocks D nblk (vd s)"

text \<open>A buffer of \<open>n\<close> bytes in RAM that does not overlap the page.\<close>

definition user_buf :: "u64 \<Rightarrow> nat \<Rightarrow> 'd rsys \<Rightarrow> bool" where
  "user_buf p n s \<longleftrightarrow> ram p n \<and> (\<forall>x. within p n x \<longrightarrow> \<not> within (raid_metadata s) PGSIZE x)"

section \<open>Lemmas on the views\<close>

lemma mem_set_mem [simp]: "mem (set_mem m s) = m"
  "raid_metadata (set_mem m s) = raid_metadata s" "vd (set_mem m s) = vd s"
  "freelist (km (set_mem m s)) = freelist (km s)" "set_mem m (set_mem m' s) = set_mem m s"
  by (simp_all add: set_mem_def)

lemma ram_offset:
  assumes "ram a n" "off + k \<le> n"
  shows "ram (a + of_nat off) k"
proof -
  have lt: "unat a + n \<le> 0x82000000" using assms(1) by (simp add: ram_def PHYSTOP_def)
  with assms(2) have "unat (a + of_nat off) = unat a + off"
    by (simp add: unat_word_ariths unat_of_nat)
  with assms lt show ?thesis by (simp add: ram_def)
qed

lemma page_only_refl [simp]: "page_only s s"
  by (simp add: page_only_def)

lemma page_only_trans: "page_only s s' \<Longrightarrow> page_only s' s'' \<Longrightarrow> page_only s s''"
  by (simp add: page_only_def)

lemma page_only_vd [simp]: "page_only s (s'\<lparr>vd := v\<rparr>) = page_only s s'"
  by (simp add: page_only_def)

lemma page_only_write:
  assumes "off + length bs \<le> PGSIZE"
  shows "page_only s (set_mem (mem_write (mem s) (raid_metadata s + of_nat off) bs) s)"
proof -
  have "\<not> within (raid_metadata s + of_nat off) (length bs) x" if x: "\<not> within (raid_metadata s) PGSIZE x" for x
  proof
    assume "within (raid_metadata s + of_nat off) (length bs) x"
    then obtain i where i: "i < length bs" "x = raid_metadata s + of_nat off + of_nat i" by (rule withinE)
    then have "x = raid_metadata s + of_nat (off + i)" by simp
    moreover have "off + i < 2 ^ 64" using i assms by (simp add: PGSIZE_def)
    ultimately have "within (raid_metadata s) PGSIZE x"
      using i assms by (simp only: within_offset)
    with x show False ..
  qed
  then show ?thesis by (simp add: page_only_def mem_write_outside)
qed

lemma pg_write:
  assumes "off + length bs \<le> PGSIZE" "x < PGSIZE"
  shows "pg (set_mem (mem_write (mem s) (raid_metadata s + of_nat off) bs) s) x =
    (if off \<le> x \<and> x < off + length bs then bs ! (x - off) else pg s x)"
  using assms by (simp add: pg_def mem_write_at PGSIZE_def)

lemma pg_vd [simp]: "pg (s\<lparr>vd := v\<rparr>) = pg s"
  by (simp add: pg_def fun_eq_iff)

lemma fld_vd [simp]: "fld i (s\<lparr>vd := v\<rparr>) = fld i s"
  by (simp add: fld_def)

lemma slot_vd [simp]: "slot (s\<lparr>vd := v\<rparr>) = slot s"
  by (simp add: slot_def fun_eq_iff)

lemma slot_ptr_vd [simp]: "slot_ptr D k (s\<lparr>vd := v\<rparr>) = slot_ptr D k s"
  by (simp add: slot_ptr_def)

lemma slot_addr_vd [simp]: "slot_addr (s\<lparr>vd := v\<rparr>) k = slot_addr s k"
  by (simp add: slot_addr_def)

lemma raid_wf_vd [simp]: "raid_wf D (s\<lparr>vd := v\<rparr>) = raid_wf D s"
  by (simp add: raid_wf_def)

lemma fld_pg: "i < 1024 \<Longrightarrow> fld i s = rd32 (map (pg s) [4 * i..<4 * i + 4])"
  unfolding fld_def get32_def by (subst mem_read_at) (simp_all add: pg_def[abs_def])

lemma slot_ptr_pg:
  "4 * (W_cache D + 2) + 8 * k + 8 \<le> PGSIZE \<Longrightarrow>
   slot_ptr D k s = rd64 (map (pg s) [4 * (W_cache D + 2) + 8 * k..<4 * (W_cache D + 2) + 8 * k + 8])"
  unfolding slot_ptr_def get64_def by (subst mem_read_at) (simp_all add: pg_def[abs_def] PGSIZE_def)

lemma length_slot [simp]: "length (slot s k) = (if k \<le> 6 then BLOCKSIZE else 0)"
  by (simp add: slot_def)

lemma nth_slot: "k \<le> 6 \<Longrightarrow> i < BLOCKSIZE \<Longrightarrow> slot s k ! i = pg s (BLOCKSIZE * (k + 1) + i)"
  by (simp add: slot_def)

subsection \<open>Words\<close>

lemma set_fld_write:
  "set_fld i v s = set_mem (mem_write (mem s) (raid_metadata s + of_nat (4 * i)) (le32 v)) s"
  by (simp add: set_fld_def put32_def)

lemma raid_metadata_set_fld [simp]: "raid_metadata (set_fld i v s) = raid_metadata s"
  "vd (set_fld i v s) = vd s" "freelist (km (set_fld i v s)) = freelist (km s)"
  by (simp_all add: set_fld_def)

lemma pg_set_fld:
  "i < 1024 \<Longrightarrow> x < PGSIZE \<Longrightarrow> pg (set_fld i v s) x =
     (if 4 * i \<le> x \<and> x < 4 * i + 4 then le32 v ! (x - 4 * i) else pg s x)"
  unfolding set_fld_write by (subst pg_write) (simp_all add: PGSIZE_def)

lemma fld_set_fld:
  assumes "i < 1024" "j < 1024"
  shows "fld i (set_fld j v s) = (if i = j then v else fld i s)"
proof (cases "i = j")
  case True
  then show ?thesis by (simp add: fld_def set_fld_def)
next
  case False
  have "map (pg (set_fld j v s)) [4 * i..<4 * i + 4] = map (pg s) [4 * i..<4 * i + 4]"
    using assms False by (auto simp: pg_set_fld PGSIZE_def)
  with assms False show ?thesis by (simp only: fld_pg if_False)
qed

lemma fld_set_fld_same [simp]: "fld i (set_fld i v s) = v"
  by (simp add: fld_def set_fld_def)

lemma slot_set_fld [simp]: "i < 128 \<Longrightarrow> slot (set_fld i v s) = slot s"
  by (rule ext) (auto simp: slot_def pg_set_fld PGSIZE_def BLOCKSIZE_def)

lemma slot_ptr_set_fld [simp]:
  assumes "i < W_cache D + 2" "k < D" "D \<le> 6"
  shows "slot_ptr D k (set_fld i v s) = slot_ptr D k s"
proof -
  have b: "4 * (W_cache D + 2) + 8 * k + 8 \<le> PGSIZE"
    using assms by (simp add: W_cache_def PGSIZE_def)
  show ?thesis
    unfolding slot_ptr_pg[OF b]
    by (rule arg_cong[of _ _ rd64]) (use assms in \<open>auto simp: pg_set_fld W_cache_def PGSIZE_def\<close>)
qed

lemma slot_addr_set_fld [simp]: "slot_addr (set_fld i v s) k = slot_addr s k"
  by (simp add: slot_addr_def)

lemma raid_wf_set_fld [simp]: "i < W_cache D + 2 \<Longrightarrow> raid_wf D (set_fld i v s) = raid_wf D s"
  by (cases "D \<le> 6") (auto simp: raid_wf_def)

lemma page_only_set_fld: "i < 1024 \<Longrightarrow> page_only s (set_fld i v s)"
  unfolding set_fld_write by (rule page_only_write) (simp add: PGSIZE_def)

lemma raid_word_fld:
  assumes "ram (raid_metadata s) PGSIZE" "0 \<le> int base + k" "int base + k < 1024"
  shows "raid_word base k s = Inr (fld (nat (int base + k)) s)"
proof -
  define i where "i = nat (int base + k)"
  have i: "int base + k = int i" "i < 1024" using assms by (auto simp: i_def)
  have "ram (raid_metadata s + of_nat (4 * i)) 4"
    by (rule ram_offset[OF assms(1)]) (use i in \<open>simp add: PGSIZE_def\<close>)
  then show ?thesis
    unfolding raid_word_def i(1) by (simp add: load32_def load_def fld_def get32_def)
qed

lemma set_raid_word_fld:
  assumes "ram (raid_metadata s) PGSIZE" "0 \<le> int base + k" "int base + k < 1024"
  shows "set_raid_word base k v s = Inr (set_fld (nat (int base + k)) v s)"
proof -
  define i where "i = nat (int base + k)"
  have i: "int base + k = int i" "i < 1024" using assms by (auto simp: i_def)
  have "ram (raid_metadata s + of_nat (4 * i)) 4"
    by (rule ram_offset[OF assms(1)]) (use i in \<open>simp add: PGSIZE_def\<close>)
  then show ?thesis
    unfolding set_raid_word_def i(1) by (simp add: store32_def store_def set_fld_write)
qed

lemma cached_data_disks_ok:
  assumes "raid_wf D s" "k < D"
  shows "cached_data_disks D (int k) s = Inr (slot_addr s k)"
proof -
  have r: "ram (raid_metadata s + of_nat (4 * (W_cache D + 2) + 8 * k)) 8"
    by (rule ram_offset[of _ PGSIZE]) (use assms in \<open>auto simp: raid_wf_def W_cache_def PGSIZE_def\<close>)
  have e: "(of_int (4 * int (W_cache D + 2) + 8 * int k) :: u64) = of_nat (4 * (W_cache D + 2) + 8 * k)"
    by simp
  have "cached_data_disks D (int k) s = Inr (slot_ptr D k s)"
    using r unfolding cached_data_disks_def e by (simp add: load_def slot_ptr_def get64_def)
  with assms show ?thesis by (simp add: raid_wf_def)
qed

subsection \<open>Writes to the area of the slots\<close>

definition area_write :: "nat \<Rightarrow> byte list \<Rightarrow> 'd rsys \<Rightarrow> 'd rsys" where
  "area_write off bs s = set_mem (mem_write (mem s) (raid_metadata s + of_nat off) bs) s"

definition in_area :: "nat \<Rightarrow> nat \<Rightarrow> bool" where
  "in_area off n \<longleftrightarrow> BLOCKSIZE \<le> off \<and> off + n \<le> PGSIZE"

lemma area_write_simps [simp]: "raid_metadata (area_write off bs s) = raid_metadata s"
  "vd (area_write off bs s) = vd s" "freelist (km (area_write off bs s)) = freelist (km s)"
  by (simp_all add: area_write_def)

lemma area_pg:
  "in_area off (length bs) \<Longrightarrow> x < PGSIZE \<Longrightarrow>
   pg (area_write off bs s) x = (if off \<le> x \<and> x < off + length bs then bs ! (x - off) else pg s x)"
  unfolding area_write_def in_area_def by (simp add: pg_write)

lemma area_fld: "in_area off (length bs) \<Longrightarrow> i < 128 \<Longrightarrow> fld i (area_write off bs s) = fld i s"
  by (auto simp: fld_pg area_pg in_area_def BLOCKSIZE_def PGSIZE_def intro!: arg_cong[of _ _ rd32])

lemma area_slot_ptr:
  "in_area off (length bs) \<Longrightarrow> k < D \<Longrightarrow> D \<le> 6 \<Longrightarrow>
   slot_ptr D k (area_write off bs s) = slot_ptr D k s"
  by (subst (1 2) slot_ptr_pg)
    (auto simp: area_pg in_area_def W_cache_def BLOCKSIZE_def PGSIZE_def intro!: arg_cong[of _ _ rd64])

lemma area_wf: "in_area off (length bs) \<Longrightarrow> raid_wf D s \<Longrightarrow> raid_wf D (area_write off bs s)"
  using area_slot_ptr[of off bs _ D s] by (auto simp: raid_wf_def slot_addr_def)

lemma area_quiet:
  "in_area off (length bs) \<Longrightarrow> raid_ready D nblk s \<Longrightarrow> quiet D nblk s (area_write off bs s)"
  unfolding quiet_def raid_ready_def
  by (auto simp: area_fld area_wf) (simp add: area_write_def page_only_write in_area_def)

lemma quiet_refl: "raid_ready D nblk s \<Longrightarrow> quiet D nblk s s"
  by (simp add: quiet_def)

lemma quiet_trans: "quiet D nblk s s' \<Longrightarrow> quiet D nblk s' s'' \<Longrightarrow> quiet D nblk s s''"
  by (auto simp: quiet_def intro: page_only_trans)

lemma quiet_vd:
  "quiet D nblk s s' \<Longrightarrow> vio_ok D nblk v \<Longrightarrow> quiet D nblk s (s'\<lparr>vd := v\<rparr>)"
  by (simp add: quiet_def raid_ready_def)

lemma quiet_fld: "quiet D nblk s s' \<Longrightarrow> i < 128 \<Longrightarrow> fld i s' = fld i s"
  by (simp add: quiet_def)

lemma quiet_ready: "quiet D nblk s s' \<Longrightarrow> raid_ready D nblk s'"
  by (simp add: quiet_def)

lemma quiet_addr: "quiet D nblk s s' \<Longrightarrow> raid_metadata s' = raid_metadata s"
  by (simp add: quiet_def page_only_def)

text \<open>One byte of a slot.\<close>

lemma slot_area_byte:
  assumes "k \<le> 6" "i < BLOCKSIZE"
  shows "slot (area_write (BLOCKSIZE * (k + 1) + i) [v] s) = (slot s)(k := (slot s k)[i := v])"
proof
  fix j
  have a: "in_area (BLOCKSIZE * (k + 1) + i) (length [v])"
    using assms by (simp add: in_area_def BLOCKSIZE_def PGSIZE_def)
  show "slot (area_write (BLOCKSIZE * (k + 1) + i) [v] s) j = ((slot s)(k := (slot s k)[i := v])) j"
  proof (cases "j \<le> 6")
    case True
    have "slot (area_write (BLOCKSIZE * (k + 1) + i) [v] s) j ! n = ((slot s)(k := (slot s k)[i := v])) j ! n"
      if n: "n < BLOCKSIZE" for n
    proof -
      have x: "BLOCKSIZE * (j + 1) + n < PGSIZE" using True n by (simp add: BLOCKSIZE_def PGSIZE_def)
      have "BLOCKSIZE * (k + 1) + i = BLOCKSIZE * (j + 1) + n \<longleftrightarrow> j = k \<and> n = i"
        using n assms(2) by (cases j k rule: linorder_cases) (auto simp: BLOCKSIZE_def)
      then have "pg (area_write (BLOCKSIZE * (k + 1) + i) [v] s) (BLOCKSIZE * (j + 1) + n) =
          (if j = k \<and> n = i then v else pg s (BLOCKSIZE * (j + 1) + n))"
        unfolding area_pg[OF a x] by auto
      with True n assms show ?thesis
        unfolding nth_slot[OF True n] by (auto simp: nth_slot nth_list_update)
    qed
    with True assms show ?thesis by (intro nth_equalityI) (auto split: if_splits)
  qed (use assms in \<open>auto simp: slot_def\<close>)
qed

text \<open>A transfer of 1024 bytes fills a slot and the one behind it.\<close>

lemma slot_area_block:
  assumes "k \<le> 5" "length bs = BSIZE"
  shows "slot (area_write (BLOCKSIZE * (k + 1)) bs s) =
    (slot s)(k := take BLOCKSIZE bs, Suc k := drop BLOCKSIZE bs)"
proof
  fix j
  have a: "in_area (BLOCKSIZE * (k + 1)) (length bs)"
    using assms by (simp add: in_area_def const_simps)
  show "slot (area_write (BLOCKSIZE * (k + 1)) bs s) j =
      ((slot s)(k := take BLOCKSIZE bs, Suc k := drop BLOCKSIZE bs)) j"
  proof (cases "j \<le> 6")
    case True
    have "slot (area_write (BLOCKSIZE * (k + 1)) bs s) j ! n =
        ((slot s)(k := take BLOCKSIZE bs, Suc k := drop BLOCKSIZE bs)) j ! n"
      if n: "n < BLOCKSIZE" for n
    proof -
      have x: "BLOCKSIZE * (j + 1) + n < PGSIZE" using True n by (simp add: const_simps)
      consider "j < k" | "j = k" | "j = Suc k" | "Suc k < j" by linarith
      then show ?thesis
        using True n assms area_pg[OF a x, of s]
        by cases (simp_all add: nth_slot, simp_all add: const_simps)
    qed
    with True assms show ?thesis by (intro nth_equalityI) (auto simp: const_simps)
  qed (use assms in \<open>auto simp: slot_def\<close>)
qed

subsection \<open>Transfers\<close>

lemma ram_slot:
  assumes "raid_wf D s" "k < D" "i + n \<le> BSIZE"
  shows "ram (slot_addr s k + of_nat i) n"
proof -
  have "ram (raid_metadata s + of_nat (BLOCKSIZE * (k + 1) + i)) n"
    by (rule ram_offset[of _ PGSIZE]) (use assms in \<open>auto simp: raid_wf_def const_simps\<close>)
  then show ?thesis by (simp add: slot_addr_def add.assoc)
qed

lemma store_slot:
  assumes "raid_wf D s" "k < D" "i + length bs \<le> BSIZE"
  shows "store (slot_addr s k + of_nat i) bs s = Inr (area_write (BLOCKSIZE * (k + 1) + i) bs s)"
  using ram_slot[OF assms] by (simp add: store_def area_write_def slot_addr_def add.assoc)

lemma load_slot_block:
  assumes "raid_wf D s" "k < D"
  shows "load (slot_addr s k) BSIZE s = Inr (slot s k @ slot s (Suc k))"
proof -
  have "ram (slot_addr s k) BSIZE" using ram_slot[OF assms, of 0 BSIZE] by simp
  moreover have "mem_read (mem s) (slot_addr s k) BSIZE =
      map (pg s) [BLOCKSIZE * (k + 1)..<BLOCKSIZE * (k + 1) + BSIZE]"
    using assms unfolding slot_addr_def
    by (subst mem_read_at) (auto simp: raid_wf_def const_simps pg_def)
  moreover have "[BLOCKSIZE * (k + 1)..<BLOCKSIZE * (k + 1) + BSIZE] =
      [BLOCKSIZE * (k + 1)..<BLOCKSIZE * (k + 2)] @ [BLOCKSIZE * (k + 2)..<BLOCKSIZE * (k + 3)]"
    using upt_add_eq_append[of "BLOCKSIZE * (k + 1)" "BLOCKSIZE * (k + 2)" BLOCKSIZE]
    by (simp add: const_simps algebra_simps)
  moreover have "BLOCKSIZE * (k + 3) = BLOCKSIZE * (Suc k + 2)" by (simp add: BLOCKSIZE_def)
  ultimately show ?thesis
    using assms by (simp add: load_def slot_def raid_wf_def)
qed

lemma load_slot:
  assumes "raid_wf D s" "k < D"
  shows "load (slot_addr s k) BLOCKSIZE s = Inr (slot s k)"
proof -
  have "ram (slot_addr s k) BLOCKSIZE" using ram_slot[OF assms, of 0 BLOCKSIZE] by (simp add: const_simps)
  moreover have "mem_read (mem s) (slot_addr s k) BLOCKSIZE =
      map (pg s) [BLOCKSIZE * (k + 1)..<BLOCKSIZE * (k + 1) + BLOCKSIZE]"
    using assms unfolding slot_addr_def
    by (subst mem_read_at) (auto simp: raid_wf_def const_simps pg_def)
  ultimately show ?thesis
    using assms by (simp add: load_def slot_def raid_wf_def algebra_simps)
qed

lemma read_block_slot:
  assumes r: "raid_ready D nblk s" and k: "k < D" and i: "1 \<le> i" "i \<le> D" and b: "b < nblk"
  shows "\<exists>s'. read_block_to (int i) (int b) (slot_addr s k) s = Inr s' \<and> quiet D nblk s s' \<and>
     dblocks D nblk s' = dblocks D nblk s \<and>
     slot s' = (slot s)(k := take BLOCKSIZE (dblocks D nblk s i b), Suc k := drop BLOCKSIZE (dblocks D nblk s i b))"
proof -
  have ok: "raid_wf D s" "vio_ok D nblk (vd s)" using r by (simp_all add: raid_ready_def)
  define bs where "bs = dblocks D nblk s i b"
  obtain v where v: "read_block (int i) (int b) (vd s) = Inr (bs, v)" "vio_ok D nblk v"
      "blocks D nblk v = dblocks D nblk s"
    using vio.rd_ok[OF ok(2) i b] by (auto simp: bs_def)
  have len: "length bs = BSIZE" unfolding bs_def by (rule vio.blk_len[OF ok(2) i b])
  have D: "D \<le> 6" using ok(1) by (simp add: raid_wf_def)
  define t where "t = s\<lparr>vd := v\<rparr>"
  have t: "raid_ready D nblk t" using ok v(2) by (simp add: t_def raid_ready_def)
  have a: "in_area (BLOCKSIZE * (k + 1)) (length bs)"
    using k D len by (simp add: in_area_def const_simps)
  have "store (slot_addr t k) bs t = Inr (area_write (BLOCKSIZE * (k + 1)) bs t)"
    using store_slot[of D t k 0 bs] t k len by (simp add: raid_ready_def)
  moreover have "slot_addr t k = slot_addr s k" by (simp add: t_def)
  ultimately have "read_block_to (int i) (int b) (slot_addr s k) s = Inr (area_write (BLOCKSIZE * (k + 1)) bs t)"
    using v(1) by (simp add: read_block_to_def t_def)
  moreover have "quiet D nblk s (area_write (BLOCKSIZE * (k + 1)) bs t)"
    by (rule quiet_trans[OF _ area_quiet[OF a t]])
      (unfold t_def, rule quiet_vd[OF quiet_refl[OF r] v(2)])
  moreover have "slot (area_write (BLOCKSIZE * (k + 1)) bs t) =
      (slot s)(k := take BLOCKSIZE bs, Suc k := drop BLOCKSIZE bs)"
    using slot_area_block[of k bs t] k D len by (simp add: t_def)
  ultimately show ?thesis
    using v(3) by (auto simp: t_def bs_def)
qed

lemma write_block_slot:
  assumes r: "raid_ready D nblk s" and k: "k < D" and i: "1 \<le> i" "i \<le> D" and b: "b < nblk"
  shows "\<exists>s'. write_block_from (int i) (int b) (slot_addr s k) s = Inr s' \<and> quiet D nblk s s' \<and>
     dblocks D nblk s' = upd2 (dblocks D nblk s) i b (slot s k @ slot s (Suc k)) \<and> slot s' = slot s"
proof -
  have ok: "raid_wf D s" "vio_ok D nblk (vd s)" using r by (simp_all add: raid_ready_def)
  have len: "length (slot s k @ slot s (Suc k)) = BSIZE"
    using k ok(1) by (auto simp: raid_wf_def const_simps)
  obtain v where v: "write_block (int i) (int b) (slot s k @ slot s (Suc k)) (vd s) = Inr v" "vio_ok D nblk v"
      "blocks D nblk v = upd2 (dblocks D nblk s) i b (slot s k @ slot s (Suc k))"
    using vio.wr_ok[OF ok(2) i b, of "slot s k @ slot s (Suc k)"] len by auto
  have "write_block_from (int i) (int b) (slot_addr s k) s = Inr (s\<lparr>vd := v\<rparr>)"
    using load_slot_block[OF ok(1) k] v(1) by (simp add: write_block_from_def)
  moreover have "quiet D nblk s (s\<lparr>vd := v\<rparr>)"
    by (rule quiet_vd[OF quiet_refl[OF r] v(2)])
  ultimately show ?thesis using v(3) by auto
qed

end
