(* ===== verification/Raid_RW.thy ===== *)
theory Raid_RW
  imports Raid_Meta
begin

unbundle bit_operations_syntax

text \<open>
  \<^verbatim>\<open>kernel/raid_rw.c\<close>: the stripe cache, recovery of a block from the others, update of the
  parity block, and the ten functions that read and write one logical block under the five
  RAID levels.  The address of the caller's buffer is a physical address.  A block number is
  a C \<^verbatim>\<open>int\<close> that is combined with unsigned fields, so the arithmetic is that of 32-bit words;
  a number handed to the disk driver is read as signed again.
\<close>

section \<open>The stripe cache\<close>

definition cache :: "nat \<Rightarrow> u32 \<Rightarrow> u32 \<Rightarrow> 'd rsys \<Rightarrow> 'd rsys result" where
  "cache D stripe pdisk s0 =
     rbind (rfold (\<lambda>i s.
          rbind (disk_state (int i - 1) s) (\<lambda>st.
            if st = DEAD then Inr s
            else rbind (cached_data_disks D (int i - 1) s) (\<lambda>p. read_block_to (int i) (sint stripe) p s)))
        [1..<Suc (unat (num_of_disks s0))] (set_fld (W_cache D) stripe s0)) (\<lambda>s1.
     let s2 = set_fld (W_parity_disk D) pdisk (set_fld (W_cache D + 1) pdisk s1) in
     rbind (disk_state (uint (parity_disk D s2)) s2) (\<lambda>st.
       if st \<noteq> DEAD
       then rbind (cached_data_disks D (uint (parity_cached D s2)) s2) (\<lambda>p.
              read_block_to (sint (parity_cached D s2 + 1)) (sint stripe) p s2)
       else Inr s2))"

definition load_byte :: "u64 \<Rightarrow> 'd rsys \<Rightarrow> byte result" where
  "load_byte a s = rbind (load a 1 s) (\<lambda>bs. Inr (bs ! 0))"

text \<open>\<^verbatim>\<open>cached_data_disks[k][i] ^= cached_data_disks[j][i]\<close>.\<close>

definition xor_slot_byte :: "nat \<Rightarrow> int \<Rightarrow> int \<Rightarrow> nat \<Rightarrow> 'd rsys \<Rightarrow> 'd rsys result" where
  "xor_slot_byte D k j i s =
     rbind (cached_data_disks D k s) (\<lambda>p.
     rbind (load_byte (p + of_nat i) s) (\<lambda>x.
     rbind (cached_data_disks D j s) (\<lambda>q.
     rbind (load_byte (q + of_nat i) s) (\<lambda>y.
     store (p + of_nat i) [x XOR y] s))))"

text \<open>\<^verbatim>\<open>cached_data_disks[k][i] = v\<close>.\<close>

definition set_slot_byte :: "nat \<Rightarrow> int \<Rightarrow> nat \<Rightarrow> byte \<Rightarrow> 'd rsys \<Rightarrow> 'd rsys result" where
  "set_slot_byte D k i v s =
     rbind (cached_data_disks D k s) (\<lambda>p. store (p + of_nat i) [v] s)"

definition raid_tocache_recovery :: "nat \<Rightarrow> nat \<Rightarrow> 'd rsys \<Rightarrow> 'd rsys result" where
  "raid_tocache_recovery D diskn s0 =
     rfold (\<lambda>i s.
       rbind (set_slot_byte D (int diskn - 1) i 0 s) (\<lambda>s1.
       rbind (rfold (\<lambda>j s. if diskn = j then Inr s else xor_slot_byte D (int diskn - 1) (int j - 1) i s)
                [1..<Suc (unat (num_of_disks s1))] s1) (\<lambda>s2.
       if raid_type s2 = RAID4
       then xor_slot_byte D (int diskn - 1) (uint (parity_disk D s2)) i s2
       else Inr s2))) [0..<BLOCKSIZE] s0"

definition raid_write_updateparity_cache :: "nat \<Rightarrow> nat \<Rightarrow> u64 \<Rightarrow> 'd rsys \<Rightarrow> 'd rsys result" where
  "raid_write_updateparity_cache D diskn paddr_data s0 =
     rbind (rfold (\<lambda>i s.
         rbind (xor_slot_byte D (uint (parity_cached D s)) (int diskn - 1) i s) (\<lambda>s1.
         rbind (load_byte (paddr_data + of_nat i) s1) (\<lambda>v.
         rbind (set_slot_byte D (int diskn - 1) i v s1) (\<lambda>s2.
         xor_slot_byte D (uint (parity_cached D s2)) (int diskn - 1) i s2)))) [0..<BLOCKSIZE] s0) (\<lambda>s.
     rbind (disk_state (uint (parity_cached D s)) s) (\<lambda>st.
     rbind (if st \<noteq> DEAD
            then rbind (cached_data_disks D (uint (parity_cached D s)) s) (\<lambda>p.
                   write_block_from (sint (parity_cached D s + 1)) (sint (cache_stripe D s)) p s)
            else Inr s) (\<lambda>s.
     rbind (disk_state (int diskn - 1) s) (\<lambda>st.
       if st \<noteq> DEAD
       then rbind (cached_data_disks D (int diskn - 1) s) (\<lambda>p.
              write_block_from (int diskn) (sint (cache_stripe D s)) p s)
       else Inr s))))"

section \<open>RAID 0\<close>

definition read_raid0 :: "u32 \<Rightarrow> u64 \<Rightarrow> 'd rsys \<Rightarrow> (int \<times> 'd rsys) result" where
  "read_raid0 blkn paddr_data s =
     (if num_of_disks s = 0 then Inl DivByZero
      else let diskn = blkn mod num_of_disks s + 1; blkn = blkn div num_of_disks s + 1 in
        rbind (disk_state (sint diskn - 1) s) (\<lambda>st.
          if st = DEAD then Inr (-1, s)
          else rbind (read_block_to (sint diskn) (sint blkn) paddr_data s) (\<lambda>s1. Inr (0, s1))))"

text \<open>\<^verbatim>\<open>write_raid0\<close> tests the state at the index of the block on the disk, not of the disk.\<close>

definition write_raid0 :: "u32 \<Rightarrow> u64 \<Rightarrow> 'd rsys \<Rightarrow> (int \<times> 'd rsys) result" where
  "write_raid0 blkn paddr_data s =
     (if num_of_disks s = 0 then Inl DivByZero
      else let diskn = blkn mod num_of_disks s + 1; blkn = blkn div num_of_disks s + 1 in
        rbind (disk_state (sint blkn - 1) s) (\<lambda>st.
          if st = DEAD then Inr (-1, s)
          else rbind (write_block_from (sint diskn) (sint blkn) paddr_data s) (\<lambda>s1. Inr (0, s1))))"

section \<open>RAID 1 and RAID 0+1\<close>

definition read_raid1 :: "nat \<Rightarrow> u32 \<Rightarrow> u64 \<Rightarrow> 'd rsys \<Rightarrow> (int \<times> 'd rsys) result" where
  "read_raid1 D blkn paddr_data s =
     (if num_of_disks s = 0 then Inl DivByZero
      else let disk_index = blkn mod num_of_disks s in
        rbind (data_disks D (sint disk_index) s) (\<lambda>diskn.
        rbind (copy_disks D (sint disk_index) s) (\<lambda>copy_diskn.
        let blkn = blkn div num_of_disks s + 1 in
        rbind (disk_state (sint diskn - 1) s) (\<lambda>st.
          if st \<noteq> DEAD
          then rbind (read_block_to (sint diskn) (sint blkn) paddr_data s) (\<lambda>s1. Inr (0, s1))
          else rbind (disk_state (sint copy_diskn - 1) s) (\<lambda>st.
            if st \<noteq> DEAD
            then rbind (read_block_to (sint copy_diskn) (sint blkn) paddr_data s) (\<lambda>s1. Inr (0, s1))
            else Inr (-1, s))))))"

definition write_raid1 :: "nat \<Rightarrow> u32 \<Rightarrow> u64 \<Rightarrow> 'd rsys \<Rightarrow> (int \<times> 'd rsys) result" where
  "write_raid1 D blkn paddr_data s =
     (if num_of_disks s = 0 then Inl DivByZero
      else let disk_index = blkn mod num_of_disks s in
        rbind (data_disks D (sint disk_index) s) (\<lambda>diskn.
        rbind (copy_disks D (sint disk_index) s) (\<lambda>copy_diskn.
        let blkn = blkn div num_of_disks s + 1 in
        rbind (disk_state (sint diskn - 1) s) (\<lambda>st.
        rbind (if st \<noteq> DEAD
               then rbind (write_block_from (sint diskn) (sint blkn) paddr_data s) (\<lambda>s1. Inr (True, s1))
               else Inr (False, s)) (\<lambda>(flag, s1).
        rbind (disk_state (sint copy_diskn - 1) s1) (\<lambda>st.
        rbind (if st \<noteq> DEAD
               then rbind (write_block_from (sint copy_diskn) (sint blkn) paddr_data s1) (\<lambda>s2. Inr (True, s2))
               else Inr (flag, s1)) (\<lambda>(flag, s2).
        if \<not> flag then Inr (-1, s2) else Inr (0, s2))))))))"

text \<open>The bodies of \<^verbatim>\<open>read_raid01\<close> and \<^verbatim>\<open>write_raid01\<close> are those of RAID 1, statement by statement.\<close>

definition read_raid01 :: "nat \<Rightarrow> u32 \<Rightarrow> u64 \<Rightarrow> 'd rsys \<Rightarrow> (int \<times> 'd rsys) result" where
  "read_raid01 D blkn paddr_data s = read_raid1 D blkn paddr_data s"

definition write_raid01 :: "nat \<Rightarrow> u32 \<Rightarrow> u64 \<Rightarrow> 'd rsys \<Rightarrow> (int \<times> 'd rsys) result" where
  "write_raid01 D blkn paddr_data s = write_raid1 D blkn paddr_data s"

section \<open>RAID 4\<close>

text \<open>Recovery when the disk of the block is dead, then the copy to the caller.\<close>

definition read_cached :: "nat \<Rightarrow> nat \<Rightarrow> u64 \<Rightarrow> 'd rsys \<Rightarrow> (int \<times> 'd rsys) result" where
  "read_cached D diskn paddr_data s =
     rbind (disk_state (int diskn - 1) s) (\<lambda>st.
     rbind (if st = DEAD then raid_tocache_recovery D diskn s else Inr s) (\<lambda>s1.
     rbind (cached_data_disks D (int diskn - 1) s1) (\<lambda>p.
     rbind (move paddr_data p BLOCKSIZE s1) (\<lambda>s2. Inr (0, s2)))))"

definition read_raid4 :: "nat \<Rightarrow> u32 \<Rightarrow> u64 \<Rightarrow> 'd rsys \<Rightarrow> (int \<times> 'd rsys) result" where
  "read_raid4 D blkn paddr_data s =
     (if max_dead_disks s \<le> num_dead_disks s then Inr (-1, s)
      else if num_of_disks s = 0 then Inl DivByZero
      else let diskn = unat (blkn mod num_of_disks s + 1); stripe = blkn div num_of_disks s + 1 in
        if cache_stripe D s = stripe then read_cached D diskn paddr_data s
        else rbind (cache D stripe (parity_disk D s) s) (read_cached D diskn paddr_data))"

definition write_raid4 :: "nat \<Rightarrow> u32 \<Rightarrow> u64 \<Rightarrow> 'd rsys \<Rightarrow> (int \<times> 'd rsys) result" where
  "write_raid4 D blkn paddr_data s =
     (if max_dead_disks s \<le> num_dead_disks s then Inr (-1, s)
      else if num_of_disks s = 0 then Inl DivByZero
      else let diskn = unat (blkn mod num_of_disks s + 1); stripe = blkn div num_of_disks s + 1 in
        if cache_stripe D s = stripe
        then rbind (raid_write_updateparity_cache D diskn paddr_data s) (\<lambda>s1. Inr (0, s1))
        else rbind (cache D stripe (parity_disk D s) s) (\<lambda>s1.
             rbind (disk_state (int diskn - 1) s1) (\<lambda>st.
             rbind (if st = DEAD then raid_tocache_recovery D diskn s1 else Inr s1) (\<lambda>s2.
             rbind (raid_write_updateparity_cache D diskn paddr_data s2) (\<lambda>s3. Inr (0, s3))))))"

section \<open>RAID 5\<close>

text \<open>The three lines of arithmetic that \<^verbatim>\<open>read_raid5\<close> and \<^verbatim>\<open>write_raid5\<close> begin with.\<close>

definition raid5_stripe :: "u32 \<Rightarrow> u32 \<Rightarrow> u32" where
  "raid5_stripe n blkn = blkn div (n - 1) + 1"

definition raid5_parity :: "u32 \<Rightarrow> u32 \<Rightarrow> u32" where
  "raid5_parity n stripe = n - (stripe - 1) mod n"

definition raid5_data :: "u32 \<Rightarrow> u32 \<Rightarrow> u32 \<Rightarrow> u32" where
  "raid5_data n parity_diskn blkn = (parity_diskn + blkn mod (n - 1)) mod n + 1"

definition read_raid5 :: "nat \<Rightarrow> u32 \<Rightarrow> u64 \<Rightarrow> 'd rsys \<Rightarrow> (int \<times> 'd rsys) result" where
  "read_raid5 D blkn paddr_data s =
     (if max_dead_disks s \<le> num_dead_disks s then Inr (-1, s)
      else let n = num_of_disks s in
      if n = 0 \<or> n = 1 then Inl DivByZero
      else let stripe = raid5_stripe n blkn; parity_diskn = raid5_parity n stripe;
               data_diskn = unat (raid5_data n parity_diskn blkn) in
        if cache_stripe D s = stripe then read_cached D data_diskn paddr_data s
        else rbind (cache D stripe (parity_diskn - 1) s) (read_cached D data_diskn paddr_data))"

definition write_raid5 :: "nat \<Rightarrow> u32 \<Rightarrow> u64 \<Rightarrow> 'd rsys \<Rightarrow> (int \<times> 'd rsys) result" where
  "write_raid5 D blkn paddr_data s =
     (if max_dead_disks s \<le> num_dead_disks s then Inr (-1, s)
      else let n = num_of_disks s in
      if n = 0 \<or> n = 1 then Inl DivByZero
      else let stripe = raid5_stripe n blkn; parity_diskn = raid5_parity n stripe;
               data_diskn = unat (raid5_data n parity_diskn blkn) in
        if cache_stripe D s = stripe
        then rbind (raid_write_updateparity_cache D data_diskn paddr_data s) (\<lambda>s1. Inr (0, s1))
        else rbind (cache D stripe (parity_diskn - 1) s) (\<lambda>s1.
             rbind (disk_state (int data_diskn - 1) s1) (\<lambda>st.
             rbind (if st = DEAD then raid_tocache_recovery D data_diskn s1 else Inr s1) (\<lambda>s2.
             rbind (raid_write_updateparity_cache D data_diskn paddr_data s2) (\<lambda>s3. Inr (0, s3))))))"

end
