(* ===== verification/Raid_Parity.thy ===== *)
theory Raid_Parity
  imports Raid_RW
begin

unbundle bit_operations_syntax

text \<open>
  RAID 4 and RAID 5: the stripe cache, recovery and parity update on the views of the page,
  and the theorems that reads return what was written, also with one disk dead.
\<close>

declare upt_Suc [simp del]

section \<open>Exclusive or over a list of columns\<close>

definition xorl :: "('a \<Rightarrow> byte) \<Rightarrow> 'a list \<Rightarrow> byte" where
  "xorl f xs = foldr (\<lambda>j v. f j XOR v) xs 0"

lemma xorl_simps [simp]: "xorl f [] = 0" "xorl f (x # xs) = f x XOR xorl f xs"
  by (simp_all add: xorl_def)

lemma xor_cancel [simp]: "(a :: byte) XOR (a XOR b) = b"
  by (simp flip: xor.assoc)

lemma xor_eq_0_iff: "(a :: byte) XOR b = 0 \<longleftrightarrow> a = b"
  by (metis xor.right_neutral xor_cancel xor_self_eq)

lemma xorl_append: "xorl f (xs @ ys) = xorl f xs XOR xorl f ys"
  by (induction xs) (simp_all add: xor.assoc)

lemma xorl_cong: "(\<And>x. x \<in> set xs \<Longrightarrow> f x = g x) \<Longrightarrow> xorl f xs = xorl g xs"
  by (induction xs) simp_all

lemma xorl_remove:
  "distinct xs \<Longrightarrow> k \<in> set xs \<Longrightarrow> xorl f xs = f k XOR xorl f (filter (\<lambda>j. j \<noteq> k) xs)"
proof (induction xs)
  case (Cons x xs)
  show ?case
  proof (cases "x = k")
    case True
    with Cons.prems have "filter (\<lambda>j. j \<noteq> k) xs = xs" by (intro filter_True) auto
    with True show ?thesis by simp
  next
    case False
    with Cons show ?thesis by (simp add: xor.left_commute)
  qed
qed simp

text \<open>Replacing column \<open>d\<close> and correcting column \<open>p\<close> by the difference keeps the sum.\<close>

lemma xorl_update:
  assumes "distinct xs" "p \<in> set xs" "d \<in> set xs" "p \<noteq> d"
  shows "xorl (f(d := y, p := f p XOR f d XOR y)) xs = xorl f xs"
proof -
  let ?g = "f(d := y, p := f p XOR f d XOR y)"
  let ?r = "filter (\<lambda>j. j \<noteq> d) (filter (\<lambda>j. j \<noteq> p) xs)"
  have r: "xorl h xs = h p XOR (h d XOR xorl h ?r)" for h
    using xorl_remove[OF assms(1,2), of h] xorl_remove[of "filter (\<lambda>j. j \<noteq> p) xs" d h] assms by simp
  have "xorl ?g ?r = xorl f ?r" by (rule xorl_cong) auto
  with r[of ?g] r[of f] assms(4) show ?thesis by (simp add: ac_simps)
qed

section \<open>Bytes of the slots\<close>

lemma slot_byte_step:
  assumes "raid_ready D nblk s" "k < D" "i < BLOCKSIZE"
  shows "quiet D nblk s (area_write (BLOCKSIZE * (k + 1) + i) [v] s)"
    and "store (slot_addr s k + of_nat i) [v] s = Inr (area_write (BLOCKSIZE * (k + 1) + i) [v] s)"
    and "slot (area_write (BLOCKSIZE * (k + 1) + i) [v] s) = (slot s)(k := (slot s k)[i := v])"
proof -
  have wf: "raid_wf D s" and D: "D \<le> 6" using assms(1) by (auto simp: raid_ready_def raid_wf_def)
  have "in_area (BLOCKSIZE * (k + 1) + i) (length [v])"
    using assms D by (simp add: in_area_def const_simps)
  then show "quiet D nblk s (area_write (BLOCKSIZE * (k + 1) + i) [v] s)"
    by (rule area_quiet[OF _ assms(1)])
  show "store (slot_addr s k + of_nat i) [v] s = Inr (area_write (BLOCKSIZE * (k + 1) + i) [v] s)"
    by (rule store_slot[OF wf assms(2)]) (use assms(3) in \<open>simp add: const_simps\<close>)
  show "slot (area_write (BLOCKSIZE * (k + 1) + i) [v] s) = (slot s)(k := (slot s k)[i := v])"
    by (rule slot_area_byte) (use assms D in auto)
qed

lemma load_byte_slot:
  assumes "raid_ready D nblk s" "k < D" "i < BLOCKSIZE"
  shows "load_byte (slot_addr s k + of_nat i) s = Inr (slot s k ! i)"
proof -
  have wf: "raid_wf D s" and D: "D \<le> 6" using assms(1) by (auto simp: raid_ready_def raid_wf_def)
  have "ram (slot_addr s k + of_nat i) 1"
    by (rule ram_slot[OF wf assms(2)]) (use assms(3) in \<open>simp add: const_simps\<close>)
  then show ?thesis
    using assms D by (simp add: load_byte_def load_def nth_slot pg_def slot_addr_def algebra_simps)
qed

lemma set_slot_byte_ok:
  assumes "raid_ready D nblk s" "k < D" "i < BLOCKSIZE"
  shows "\<exists>s'. set_slot_byte D (int k) i v s = Inr s' \<and> quiet D nblk s s' \<and> vd s' = vd s \<and>
     slot s' = (slot s)(k := (slot s k)[i := v])"
  using assms slot_byte_step[OF assms, of v]
  by (simp add: set_slot_byte_def raid_ready_def cached_data_disks_ok)

lemma xor_slot_byte_ok:
  assumes "raid_ready D nblk s" "k < D" "j < D" "i < BLOCKSIZE"
  shows "\<exists>s'. xor_slot_byte D (int k) (int j) i s = Inr s' \<and> quiet D nblk s s' \<and> vd s' = vd s \<and>
     slot s' = (slot s)(k := (slot s k)[i := slot s k ! i XOR slot s j ! i])"
  using assms slot_byte_step[OF assms(1,2,4)] load_byte_slot[OF assms(1,2,4)] load_byte_slot[OF assms(1,3,4)]
  by (simp add: xor_slot_byte_def raid_ready_def cached_data_disks_ok)

section \<open>Recovery\<close>

lemma recovery_columns:
  assumes r: "raid_ready D nblk s" and k: "k < D" and i: "i < BLOCKSIZE" and js: "set js \<subseteq> {1..D}"
  shows "\<exists>s'. rfold (\<lambda>j s. if Suc k = j then Inr s else xor_slot_byte D (int k) (int j - 1) i s) js s = Inr s' \<and>
     quiet D nblk s s' \<and> vd s' = vd s \<and>
     slot s' = (slot s)(k := (slot s k)[i := slot s k ! i XOR
        xorl (\<lambda>j. slot s (j - 1) ! i) (filter (\<lambda>j. j \<noteq> Suc k) js)])"
  using r js
proof (induction js arbitrary: s)
  case Nil
  then show ?case by (simp add: quiet_refl)
next
  case (Cons j js)
  have len: "i < length (slot s k)" if "raid_ready D nblk s" for s :: "'a rsys"
    using that k i by (simp add: raid_ready_def raid_wf_def)
  have js': "set js \<subseteq> {1..D}" using Cons.prems(2) by simp
  show ?case
  proof (cases "Suc k = j")
    case True
    with Cons.IH[OF Cons.prems(1)] Cons.prems(2) show ?thesis by simp
  next
    case False
    have j: "j - 1 < D" "int j - 1 = int (j - 1)" "j - 1 \<noteq> k" using Cons.prems(2) False by auto
    obtain s1 where s1: "xor_slot_byte D (int k) (int (j - 1)) i s = Inr s1" "quiet D nblk s s1" "vd s1 = vd s"
      "slot s1 = (slot s)(k := (slot s k)[i := slot s k ! i XOR slot s (j - 1) ! i])"
      using xor_slot_byte_ok[OF Cons.prems(1) k j(1) i] by blast
    obtain s2 where s2: "rfold (\<lambda>j s. if Suc k = j then Inr s else xor_slot_byte D (int k) (int j - 1) i s) js s1 = Inr s2"
      "quiet D nblk s1 s2" "vd s2 = vd s1"
      "slot s2 = (slot s1)(k := (slot s1 k)[i := slot s1 k ! i XOR
        xorl (\<lambda>j. slot s1 (j - 1) ! i) (filter (\<lambda>j. j \<noteq> Suc k) js)])"
      using Cons.IH[OF quiet_ready[OF s1(2)]] js' by blast
    have "xorl (\<lambda>j. slot s1 (j - 1) ! i) (filter (\<lambda>j. j \<noteq> Suc k) js) =
        xorl (\<lambda>j. slot s (j - 1) ! i) (filter (\<lambda>j. j \<noteq> Suc k) js)"
      using Cons.prems(2) by (intro xorl_cong) (auto simp: s1(4))
    then have sl: "slot s2 = (slot s)(k := (slot s k)[i := slot s k ! i XOR
        xorl (\<lambda>j. slot s (j - 1) ! i) (filter (\<lambda>j. j \<noteq> Suc k) (j # js))])"
      using len[OF Cons.prems(1)] False by (simp add: s2(4) s1(4) xor.assoc)
    have "rfold (\<lambda>j s. if Suc k = j then Inr s else xor_slot_byte D (int k) (int j - 1) i s) (j # js) s = Inr s2"
      using s1(1)[folded j(2)] s2(1) False by simp
    moreover have "vd s2 = vd s" using s1(3) s2(3) by simp
    ultimately show ?thesis using sl quiet_trans[OF s1(2) s2(2)] by blast
  qed
qed

text \<open>
  How the fields describe the array: RAID 4 counts the data disks and has its parity on the
  last disk, RAID 5 counts all disks.
\<close>

definition geometry :: "bool \<Rightarrow> nat \<Rightarrow> 'd rsys \<Rightarrow> bool" where
  "geometry r4 D s \<longleftrightarrow>
     (if r4 then raid_type s = RAID4 \<and> unat (num_of_disks s) = D - 1 \<and> unat (parity_disk D s) = D - 1
      else raid_type s = RAID5 \<and> unat (num_of_disks s) = D)"

definition data_cols :: "bool \<Rightarrow> nat \<Rightarrow> nat" where
  "data_cols r4 D = (if r4 then D - 1 else D)"

lemma xorl_map: "xorl f (map g xs) = xorl (\<lambda>x. f (g x)) xs"
  by (induction xs) simp_all

lemma xorl_shift:
  "xorl (\<lambda>j. f (j - 1)) (filter (\<lambda>j. j \<noteq> Suc k) [1..<Suc n]) = xorl f (filter (\<lambda>j. j \<noteq> k) [0..<n])"
proof -
  have "[1..<Suc n] = map Suc [0..<n]" by (simp add: map_Suc_upt)
  then show ?thesis by (simp only: filter_map xorl_map comp_def) simp
qed

lemma xorl_last:
  "1 \<le> D \<Longrightarrow> k < D - 1 \<Longrightarrow> xorl f (filter (\<lambda>j. j \<noteq> k) [0..<D]) =
     xorl f (filter (\<lambda>j. j \<noteq> k) [0..<D - 1]) XOR f (D - 1)"
  by (cases D) (simp_all add: xorl_append upt_Suc)

definition recover_body :: "nat \<Rightarrow> nat \<Rightarrow> nat \<Rightarrow> 'd rsys \<Rightarrow> 'd rsys result" where
  "recover_body D diskn i s =
       rbind (set_slot_byte D (int diskn - 1) i 0 s) (\<lambda>s1.
       rbind (rfold (\<lambda>j s. if diskn = j then Inr s else xor_slot_byte D (int diskn - 1) (int j - 1) i s)
                [1..<Suc (unat (num_of_disks s1))] s1) (\<lambda>s2.
       if raid_type s2 = RAID4
       then xor_slot_byte D (int diskn - 1) (uint (parity_disk D s2)) i s2
       else Inr s2))"

lemma recover_body_ok:
  assumes r: "raid_ready D nblk s" and g: "geometry r4 D s" and k: "k < data_cols r4 D" and i: "i < BLOCKSIZE"
  shows "\<exists>s'. recover_body D (Suc k) i s = Inr s' \<and> quiet D nblk s s' \<and> vd s' = vd s \<and>
     slot s' = (slot s)(k := (slot s k)[i := xorl (\<lambda>j. slot s j ! i) (filter (\<lambda>j. j \<noteq> k) [0..<D])])"
proof -
  have D: "2 \<le> D" "D \<le> 6" using r by (auto simp: raid_ready_def raid_wf_def)
  have kD: "k < D" using k by (auto simp: data_cols_def split: if_splits)
  have len: "i < length (slot s k)" using kD D i by simp
  have ik: "int (Suc k) - 1 = int k" by simp
  have W: "W_parity_disk D < 128" using D by (simp add: layout_simps)
  obtain s1 where s1: "set_slot_byte D (int k) i 0 s = Inr s1" "quiet D nblk s s1" "vd s1 = vd s"
    "slot s1 = (slot s)(k := (slot s k)[i := 0])"
    using set_slot_byte_ok[OF r kD i] by blast
  have n: "unat (num_of_disks s1) = data_cols r4 D"
    using g D quiet_fld[OF s1(2), of 2] by (auto simp: geometry_def data_cols_def split: if_splits)
  have sub: "set [1..<Suc (data_cols r4 D)] \<subseteq> {1..D}" by (auto simp: data_cols_def split: if_splits)
  obtain s2 where s2: "rfold (\<lambda>j s. if Suc k = j then Inr s else xor_slot_byte D (int k) (int j - 1) i s)
        [1..<Suc (data_cols r4 D)] s1 = Inr s2" "quiet D nblk s1 s2" "vd s2 = vd s1"
    "slot s2 = (slot s1)(k := (slot s1 k)[i := slot s1 k ! i XOR
        xorl (\<lambda>j. slot s1 (j - 1) ! i) (filter (\<lambda>j. j \<noteq> Suc k) [1..<Suc (data_cols r4 D)])])"
    using recovery_columns[OF quiet_ready[OF s1(2)] kD i sub] by blast
  have "xorl (\<lambda>j. slot s1 j ! i) (filter (\<lambda>j. j \<noteq> k) [0..<data_cols r4 D]) =
      xorl (\<lambda>j. slot s j ! i) (filter (\<lambda>j. j \<noteq> k) [0..<data_cols r4 D])"
    by (intro xorl_cong) (auto simp: s1(4))
  then have sl2: "slot s2 = (slot s)(k := (slot s k)[i := xorl (\<lambda>j. slot s j ! i) (filter (\<lambda>j. j \<noteq> k) [0..<data_cols r4 D])])"
    using len unfolding s2(4) xorl_shift[of "\<lambda>j. slot s1 j ! i"] by (simp add: s1(4))
  have q2: "quiet D nblk s s2" by (rule quiet_trans[OF s1(2) s2(2)])
  have t2: "raid_type s2 = raid_type s" "parity_disk D s2 = parity_disk D s"
    using quiet_fld[OF q2, of 1] quiet_fld[OF q2 W] by simp_all
  show ?thesis
  proof (cases r4)
    case False
    have "recover_body D (Suc k) i s = Inr s2"
      using s1(1) s2(1) n t2 g False unfolding recover_body_def ik
      by (simp add: geometry_def const_simps)
    with sl2 q2 s1(3) s2(3) False show ?thesis by (simp add: data_cols_def)
  next
    case True
    have "D - 1 < D" "k < D - 1" using D k True by (auto simp: data_cols_def)
    obtain s3 where s3: "xor_slot_byte D (int k) (int (D - 1)) i s2 = Inr s3" "quiet D nblk s2 s3" "vd s3 = vd s2"
      "slot s3 = (slot s2)(k := (slot s2 k)[i := slot s2 k ! i XOR slot s2 (D - 1) ! i])"
      using xor_slot_byte_ok[OF quiet_ready[OF q2] kD \<open>D - 1 < D\<close> i] by blast
    have u: "uint (parity_disk D s) = int (D - 1)"
      using g True by (simp add: geometry_def uint_nat)
    have "recover_body D (Suc k) i s = Inr s3"
      using s1(1) s2(1) n t2 g True s3(1) unfolding recover_body_def ik
      by (simp add: geometry_def u)
    moreover have "slot s3 = (slot s)(k := (slot s k)[i := xorl (\<lambda>j. slot s j ! i) (filter (\<lambda>j. j \<noteq> k) [0..<D])])"
      using len D True \<open>k < D - 1\<close> xorl_last[of D k "\<lambda>j. slot s j ! i"]
      by (simp add: s3(4) sl2 data_cols_def)
    ultimately show ?thesis
      using quiet_trans[OF q2 s3(2)] s3(3) s2(3) s1(3) by (intro exI[of _ s3]) simp
  qed
qed

lemma prefix_update:
  "m < length xs \<Longrightarrow> (map f [0..<m] @ drop m xs)[m := f m] = map f [0..<Suc m] @ drop (Suc m) xs"
  by (simp add: list_update_append upt_Suc flip: Cons_nth_drop_Suc)

lemma prefix_nth: "m < length xs \<Longrightarrow> (map f [0..<m] @ drop m xs) ! m = xs ! m"
  by (simp add: nth_append)

definition recovered :: "nat \<Rightarrow> nat \<Rightarrow> (nat \<Rightarrow> byte list) \<Rightarrow> byte list" where
  "recovered D k S = map (\<lambda>i. xorl (\<lambda>j. S j ! i) (filter (\<lambda>j. j \<noteq> k) [0..<D])) [0..<BLOCKSIZE]"

lemma geometry_quiet: "quiet D nblk s s' \<Longrightarrow> D \<le> 6 \<Longrightarrow> geometry r4 D s' = geometry r4 D s"
  by (simp add: geometry_def quiet_fld layout_simps)

lemma recovery_loop:
  assumes r: "raid_ready D nblk s" and g: "geometry r4 D s" and k: "k < data_cols r4 D" and m: "m \<le> BLOCKSIZE"
  shows "\<exists>s'. rfold (recover_body D (Suc k)) [0..<m] s = Inr s' \<and> quiet D nblk s s' \<and> vd s' = vd s \<and>
     slot s' = (slot s)(k := map (\<lambda>i. xorl (\<lambda>j. slot s j ! i) (filter (\<lambda>j. j \<noteq> k) [0..<D])) [0..<m] @ drop m (slot s k))"
  using m
proof (induction m)
  case 0
  show ?case using quiet_refl[OF r] by simp
next
  case (Suc m)
  let ?f = "\<lambda>i. xorl (\<lambda>j. slot s j ! i) (filter (\<lambda>j. j \<noteq> k) [0..<D])"
  have D: "2 \<le> D" "D \<le> 6" "k < D"
    using r k by (auto simp: raid_ready_def raid_wf_def data_cols_def split: if_splits)
  obtain s1 where s1: "rfold (recover_body D (Suc k)) [0..<m] s = Inr s1" "quiet D nblk s s1" "vd s1 = vd s"
    "slot s1 = (slot s)(k := map ?f [0..<m] @ drop m (slot s k))"
    using Suc.IH[OF Suc_leD[OF Suc.prems]] by blast
  have g1: "geometry r4 D s1"
    using g D geometry_quiet[OF s1(2)] by simp
  have mlt: "m < BLOCKSIZE" using Suc.prems by simp
  obtain s2 where s2: "recover_body D (Suc k) m s1 = Inr s2" "quiet D nblk s1 s2" "vd s2 = vd s1"
    "slot s2 = (slot s1)(k := (slot s1 k)[m := xorl (\<lambda>j. slot s1 j ! m) (filter (\<lambda>j. j \<noteq> k) [0..<D])])"
    using recover_body_ok[OF quiet_ready[OF s1(2)] g1 k mlt] by blast
  have "xorl (\<lambda>j. slot s1 j ! m) (filter (\<lambda>j. j \<noteq> k) [0..<D]) = ?f m"
    by (intro xorl_cong) (auto simp: s1(4))
  then have "slot s2 = (slot s)(k := map ?f [0..<Suc m] @ drop (Suc m) (slot s k))"
    using mlt D prefix_update[of m "slot s k" ?f] by (simp add: s2(4) s1(4))
  moreover have "rfold (recover_body D (Suc k)) [0..<Suc m] s = Inr s2"
    using s1(1) s2(1) by (simp add: upt_Suc rfold_append)
  moreover have "vd s2 = vd s" using s1(3) s2(3) by simp
  ultimately show ?case using quiet_trans[OF s1(2) s2(2)] by blast
qed

lemma raid_tocache_recovery_ok:
  assumes r: "raid_ready D nblk s" and g: "geometry r4 D s" and k: "k < data_cols r4 D"
  shows "\<exists>s'. raid_tocache_recovery D (Suc k) s = Inr s' \<and> quiet D nblk s s' \<and> vd s' = vd s \<and>
     slot s' = (slot s)(k := recovered D k (slot s))"
proof -
  have "raid_tocache_recovery D (Suc k) s = rfold (recover_body D (Suc k)) [0..<BLOCKSIZE] s"
    unfolding raid_tocache_recovery_def recover_body_def[abs_def] ..
  moreover have "drop BLOCKSIZE (slot s k) = []" by simp
  ultimately show ?thesis
    using recovery_loop[OF r g k order_refl] by (simp add: recovered_def)
qed

section \<open>Update of the parity block\<close>

definition user_data :: "u64 \<Rightarrow> 'd rsys \<Rightarrow> byte list" where
  "user_data p s = mem_read (mem s) p BLOCKSIZE"

lemma page_only_buf:
  assumes "page_only s s'" "user_buf p n s"
  shows "user_buf p n s'" and "\<And>x. within p n x \<Longrightarrow> mem s' x = mem s x"
  using assms by (auto simp: page_only_def user_buf_def)

lemma user_data_page_only:
  assumes "page_only s s'" "user_buf p n s" "BLOCKSIZE \<le> n"
  shows "user_data p s' = user_data p s"
  unfolding user_data_def
proof (rule mem_read_cong)
  fix x
  assume "within p BLOCKSIZE x"
  then have "within p n x" using assms(3) by (rule within_mono)
  then show "mem s' x = mem s x" by (rule page_only_buf(2)[OF assms(1,2)])
qed (simp add: BLOCKSIZE_def)

lemma load_byte_user:
  assumes "user_buf p BLOCKSIZE s" "i < BLOCKSIZE"
  shows "load_byte (p + of_nat i) s = Inr (user_data p s ! i)"
proof -
  have "ram (p + of_nat i) 1"
    by (rule ram_offset[of _ BLOCKSIZE]) (use assms in \<open>auto simp: user_buf_def\<close>)
  with assms(2) show ?thesis by (simp add: load_byte_def load_def user_data_def)
qed

definition update_body :: "nat \<Rightarrow> nat \<Rightarrow> u64 \<Rightarrow> nat \<Rightarrow> 'd rsys \<Rightarrow> 'd rsys result" where
  "update_body D diskn paddr_data i s =
         rbind (xor_slot_byte D (uint (parity_cached D s)) (int diskn - 1) i s) (\<lambda>s1.
         rbind (load_byte (paddr_data + of_nat i) s1) (\<lambda>v.
         rbind (set_slot_byte D (int diskn - 1) i v s1) (\<lambda>s2.
         xor_slot_byte D (uint (parity_cached D s2)) (int diskn - 1) i s2)))"

lemma update_body_ok:
  assumes r: "raid_ready D nblk s" and p: "unat (parity_cached D s) = p" "p < D" and k: "k < D" "k \<noteq> p"
    and i: "i < BLOCKSIZE" and u: "user_buf a BLOCKSIZE s"
  shows "\<exists>s'. update_body D (Suc k) a i s = Inr s' \<and> quiet D nblk s s' \<and> vd s' = vd s \<and>
     slot s' = (slot s)(k := (slot s k)[i := user_data a s ! i],
       p := (slot s p)[i := slot s p ! i XOR slot s k ! i XOR user_data a s ! i])"
proof -
  have D: "2 \<le> D" "D \<le> 6" using r by (auto simp: raid_ready_def raid_wf_def)
  have W: "W_cache D + 1 < 128" using D by (simp add: layout_simps)
  have ik: "int (Suc k) - 1 = int k" by simp
  have len: "i < length (slot s k)" "i < length (slot s p)" using k p D i by simp_all
  obtain s1 where s1: "xor_slot_byte D (int p) (int k) i s = Inr s1" "quiet D nblk s s1" "vd s1 = vd s"
    "slot s1 = (slot s)(p := (slot s p)[i := slot s p ! i XOR slot s k ! i])"
    using xor_slot_byte_ok[OF r p(2) k(1) i] by blast
  have po: "page_only s s1" using s1(2) by (simp add: quiet_def)
  have ld: "load_byte (a + of_nat i) s1 = Inr (user_data a s ! i)"
    using load_byte_user[OF page_only_buf(1)[OF po u] i] user_data_page_only[OF po u] by simp
  obtain s2 where s2: "set_slot_byte D (int k) i (user_data a s ! i) s1 = Inr s2" "quiet D nblk s1 s2" "vd s2 = vd s1"
    "slot s2 = (slot s1)(k := (slot s1 k)[i := user_data a s ! i])"
    using set_slot_byte_ok[OF quiet_ready[OF s1(2)] k(1) i] by blast
  obtain s3 where s3: "xor_slot_byte D (int p) (int k) i s2 = Inr s3" "quiet D nblk s2 s3" "vd s3 = vd s2"
    "slot s3 = (slot s2)(p := (slot s2 p)[i := slot s2 p ! i XOR slot s2 k ! i])"
    using xor_slot_byte_ok[OF quiet_ready[OF s2(2)] p(2) k(1) i] by blast
  have q2: "quiet D nblk s s2" by (rule quiet_trans[OF s1(2) s2(2)])
  have pc: "uint (parity_cached D s) = int p" "uint (parity_cached D s2) = int p"
    using p(1) quiet_fld[OF q2 W] by (simp_all add: uint_nat)
  have "update_body D (Suc k) a i s = Inr s3"
    unfolding update_body_def ik pc(1) using s1(1) ld s2(1) s3(1) pc(2) by simp
  moreover have "slot s3 = (slot s)(k := (slot s k)[i := user_data a s ! i],
       p := (slot s p)[i := slot s p ! i XOR slot s k ! i XOR user_data a s ! i])"
    unfolding s3(4) s2(4) s1(4) using len k(2) by (simp add: fun_upd_twist xor.assoc)
  moreover have "vd s3 = vd s" using s1(3) s2(3) s3(3) by simp
  ultimately show ?thesis using quiet_trans[OF q2 s3(2)] by blast
qed

lemma update_loop:
  assumes r: "raid_ready D nblk s" and p: "unat (parity_cached D s) = p" "p < D" and k: "k < D" "k \<noteq> p"
    and u: "user_buf a BLOCKSIZE s" and m: "m \<le> BLOCKSIZE"
  shows "\<exists>s'. rfold (update_body D (Suc k) a) [0..<m] s = Inr s' \<and> quiet D nblk s s' \<and> vd s' = vd s \<and>
     slot s' = (slot s)(k := map (\<lambda>i. user_data a s ! i) [0..<m] @ drop m (slot s k),
       p := map (\<lambda>i. slot s p ! i XOR slot s k ! i XOR user_data a s ! i) [0..<m] @ drop m (slot s p))"
  using m
proof (induction m)
  case 0
  show ?case using quiet_refl[OF r] by simp
next
  case (Suc m)
  let ?f = "\<lambda>i. user_data a s ! i"
  let ?g = "\<lambda>i. slot s p ! i XOR slot s k ! i XOR user_data a s ! i"
  have D: "2 \<le> D" "D \<le> 6" using r by (auto simp: raid_ready_def raid_wf_def)
  have W: "W_cache D + 1 < 128" using D by (simp add: layout_simps)
  obtain s1 where s1: "rfold (update_body D (Suc k) a) [0..<m] s = Inr s1" "quiet D nblk s s1" "vd s1 = vd s"
    "slot s1 = (slot s)(k := map ?f [0..<m] @ drop m (slot s k), p := map ?g [0..<m] @ drop m (slot s p))"
    using Suc.IH[OF Suc_leD[OF Suc.prems]] by blast
  have po: "page_only s s1" using s1(2) by (simp add: quiet_def)
  have p1: "unat (parity_cached D s1) = p" using p(1) quiet_fld[OF s1(2) W] by simp
  have mlt: "m < BLOCKSIZE" using Suc.prems by simp
  obtain s2 where s2: "update_body D (Suc k) a m s1 = Inr s2" "quiet D nblk s1 s2" "vd s2 = vd s1"
    "slot s2 = (slot s1)(k := (slot s1 k)[m := user_data a s1 ! m],
       p := (slot s1 p)[m := slot s1 p ! m XOR slot s1 k ! m XOR user_data a s1 ! m])"
    using update_body_ok[OF quiet_ready[OF s1(2)] p1 p(2) k mlt page_only_buf(1)[OF po u]] by blast
  have ud: "user_data a s1 = user_data a s" by (rule user_data_page_only[OF po u]) simp
  have len: "m < length (slot s k)" "m < length (slot s p)" using D p k mlt by simp_all
  have "slot s2 = (slot s)(k := map ?f [0..<Suc m] @ drop (Suc m) (slot s k),
      p := map ?g [0..<Suc m] @ drop (Suc m) (slot s p))"
    using k(2) prefix_update[OF len(1), of ?f] prefix_update[OF len(2), of ?g]
      prefix_nth[OF len(1)] prefix_nth[OF len(2)]
    by (simp add: s2(4) s1(4) ud fun_upd_twist)
  moreover have "rfold (update_body D (Suc k) a) [0..<Suc m] s = Inr s2"
    using s1(1) s2(1) by (simp add: upt_Suc rfold_append)
  moreover have "vd s2 = vd s" using s1(3) s2(3) by simp
  ultimately show ?case using quiet_trans[OF s1(2) s2(2)] by blast
qed

text \<open>The state of disk \<open>d\<close>, counted from 0.\<close>

definition alive :: "'d rsys \<Rightarrow> nat \<Rightarrow> bool" where
  "alive s d \<longleftrightarrow> fld (W_disk_state + d) s \<noteq> DEAD"

lemma disk_state_ok: "raid_ready D nblk s \<Longrightarrow> d < D \<Longrightarrow> disk_state (int d) s = Inr (fld (W_disk_state + d) s)"
  by (subst raid_word_fld) (auto simp: raid_ready_def raid_wf_def W_disk_state_def nat_add_distrib)

lemma alive_quiet: "quiet D nblk s s' \<Longrightarrow> d < 100 \<Longrightarrow> alive s' d = alive s d"
  by (simp add: alive_def quiet_fld W_disk_state_def)

definition parity_update :: "byte list \<Rightarrow> byte list \<Rightarrow> byte list \<Rightarrow> byte list" where
  "parity_update par old new = map (\<lambda>i. par ! i XOR old ! i XOR new ! i) [0..<BLOCKSIZE]"

lemma unat_plus1: "unat (w :: u32) < 2 ^ 31 \<Longrightarrow> unat (w + 1) = unat w + 1"
  by (simp add: unat_word_ariths)

text \<open>The transfer of a slot to its disk, when the disk is not dead.\<close>

lemma write_if_alive:
  assumes r: "raid_ready D nblk s" and d: "d < D" and b: "b < nblk"
  shows "\<exists>s'. (if fld (W_disk_state + d) s \<noteq> DEAD
         then write_block_from (int (Suc d)) (int b) (slot_addr s d) s else Inr s) = Inr s' \<and>
       quiet D nblk s s' \<and> slot s' = slot s \<and>
       dblocks D nblk s' = (if alive s d then upd2 (dblocks D nblk s) (Suc d) b (slot s d @ slot s (Suc d))
                            else dblocks D nblk s)"
proof (cases "alive s d")
  case True
  then show ?thesis
    using write_block_slot[OF r d _ _ b, of "Suc d"] d by (auto simp: alive_def)
next
  case False
  then show ?thesis using quiet_refl[OF r] by (auto simp: alive_def)
qed

lemma raid_write_updateparity_cache_ok:
  assumes r: "raid_ready D nblk s" and p: "unat (parity_cached D s) = p" "p < D" and k: "k < D" "k \<noteq> p"
    and u: "user_buf a BLOCKSIZE s" and st: "unat (cache_stripe D s) = st" "st < nblk"
  shows "\<exists>s'. raid_write_updateparity_cache D (Suc k) a s = Inr s' \<and> quiet D nblk s s' \<and>
     (let S = (slot s)(k := user_data a s, p := parity_update (slot s p) (slot s k) (user_data a s));
          B1 = (if alive s p then upd2 (dblocks D nblk s) (Suc p) st (S p @ S (Suc p)) else dblocks D nblk s);
          B2 = (if alive s k then upd2 B1 (Suc k) st (S k @ S (Suc k)) else B1)
      in slot s' = S \<and> dblocks D nblk s' = B2)"
proof -
  have D: "2 \<le> D" "D \<le> 6" using r by (auto simp: raid_ready_def raid_wf_def)
  have nb: "nblk \<le> 2 ^ 31" using r by (simp add: raid_ready_def vio_ok_def)
  have W: "W_cache D + 1 < 128" "W_cache D < 128" using D by (simp_all add: layout_simps)
  have ik: "int (Suc k) - 1 = int k" by simp
  define S where "S = (slot s)(k := user_data a s, p := parity_update (slot s p) (slot s k) (user_data a s))"
  have ud: "map (\<lambda>i. user_data a s ! i) [0..<BLOCKSIZE] = user_data a s"
    by (rule nth_equalityI) (simp_all add: user_data_def)
  have dr: "drop BLOCKSIZE (slot s k) = []" "drop BLOCKSIZE (slot s p) = []" by simp_all
  obtain s1 where s1: "rfold (update_body D (Suc k) a) [0..<BLOCKSIZE] s = Inr s1" "quiet D nblk s s1"
      "vd s1 = vd s" "slot s1 = S"
    using update_loop[OF r p k u order_refl] unfolding S_def ud dr parity_update_def append_Nil2 by blast
  have f1: "parity_cached D s1 = parity_cached D s" "cache_stripe D s1 = cache_stripe D s"
    using quiet_fld[OF s1(2) W(1)] quiet_fld[OF s1(2) W(2)] by simp_all
  have "unat (parity_cached D s + 1) = Suc p"
    using p D unat_plus1[of "parity_cached D s"] by simp
  then have pc: "uint (parity_cached D s1) = int p" "sint (parity_cached D s1 + 1) = int (Suc p)"
    "sint (cache_stripe D s1) = int st"
    using p D st nb sint_small[of "parity_cached D s + 1"] sint_small[of "cache_stripe D s"]
    unfolding f1 by (metis uint_nat, simp_all)
  obtain s2 where s2: "(if fld (W_disk_state + p) s1 \<noteq> DEAD
        then write_block_from (int (Suc p)) (int st) (slot_addr s1 p) s1 else Inr s1) = Inr s2"
      "quiet D nblk s1 s2" "slot s2 = slot s1"
      "dblocks D nblk s2 = (if alive s1 p then upd2 (dblocks D nblk s1) (Suc p) st (slot s1 p @ slot s1 (Suc p))
                            else dblocks D nblk s1)"
    using write_if_alive[OF quiet_ready[OF s1(2)] p(2) st(2)] by blast
  obtain s3 where s3: "(if fld (W_disk_state + k) s2 \<noteq> DEAD
        then write_block_from (int (Suc k)) (int st) (slot_addr s2 k) s2 else Inr s2) = Inr s3"
      "quiet D nblk s2 s3" "slot s3 = slot s2"
      "dblocks D nblk s3 = (if alive s2 k then upd2 (dblocks D nblk s2) (Suc k) st (slot s2 k @ slot s2 (Suc k))
                            else dblocks D nblk s2)"
    using write_if_alive[OF quiet_ready[OF s2(2)] k(1) st(2)] by blast
  have st2: "sint (cache_stripe D s2) = int st" using pc(3) quiet_fld[OF s2(2) W(2)] by simp
  have wf: "raid_wf D s1" "raid_wf D s2"
    using quiet_ready[OF s1(2)] quiet_ready[OF s2(2)] by (simp_all add: raid_ready_def)
  have q: "quiet D nblk s s3" using quiet_trans s1(2) s2(2) s3(2) by blast
  have "raid_write_updateparity_cache D (Suc k) a s = Inr s3"
  proof -
    have "rbind (cached_data_disks D (int p) s1) (\<lambda>q. write_block_from (int (Suc p)) (int st) q s1)
        = write_block_from (int (Suc p)) (int st) (slot_addr s1 p) s1"
      by (simp add: cached_data_disks_ok[OF wf(1) p(2)])
    moreover have "rbind (cached_data_disks D (int k) s2) (\<lambda>q. write_block_from (int (Suc k)) (int st) q s2)
        = write_block_from (int (Suc k)) (int st) (slot_addr s2 k) s2"
      by (simp add: cached_data_disks_ok[OF wf(2) k(1)])
    ultimately show ?thesis
      unfolding raid_write_updateparity_cache_def ik s1(1)[unfolded update_body_def[abs_def] ik]
      using s2(1) s3(1)
      by (simp only: pc st2 rbind_Inr disk_state_ok[OF quiet_ready[OF s1(2)] p(2)]
          disk_state_ok[OF quiet_ready[OF s2(2)] k(1)])
  qed
  moreover have "alive s1 p = alive s p" "alive s2 k = alive s k"
    using alive_quiet[OF s1(2)] alive_quiet[OF quiet_trans[OF s1(2) s2(2)]] D p k by simp_all
  ultimately show ?thesis
    using q s3(3,4) s2(3,4) s1(3,4) unfolding S_def[symmetric] Let_def by (intro exI[of _ s3]) simp
qed

section \<open>Filling the cache\<close>

definition cache_body :: "nat \<Rightarrow> u32 \<Rightarrow> nat \<Rightarrow> 'd rsys \<Rightarrow> 'd rsys result" where
  "cache_body D stripe i s =
     rbind (disk_state (int i - 1) s) (\<lambda>st.
        if st = DEAD then Inr s
        else rbind (cached_data_disks D (int i - 1) s) (\<lambda>p. read_block_to (int i) (sint stripe) p s))"

lemma cache_body_ok:
  assumes r: "raid_ready D nblk s" and d: "d < D" and st: "unat stripe = st" "st < nblk"
  shows "\<exists>s'. cache_body D stripe (Suc d) s = Inr s' \<and> quiet D nblk s s' \<and> dblocks D nblk s' = dblocks D nblk s \<and>
     slot s' = (if alive s d then (slot s)(d := take BLOCKSIZE (dblocks D nblk s (Suc d) st),
                                           Suc d := drop BLOCKSIZE (dblocks D nblk s (Suc d) st))
                else slot s)"
proof -
  have nb: "nblk \<le> 2 ^ 31" using r by (simp add: raid_ready_def vio_ok_def)
  have si: "sint stripe = int st" using st nb sint_small[of stripe] by simp
  have id: "int (Suc d) - 1 = int d" by simp
  have wf: "raid_wf D s" using r by (simp add: raid_ready_def)
  show ?thesis
    unfolding cache_body_def id disk_state_ok[OF r d] si rbind_Inr cached_data_disks_ok[OF wf d]
    using read_block_slot[OF r d _ _ st(2), of "Suc d"] d quiet_refl[OF r]
    by (auto simp: alive_def)
qed

lemma cache_loop:
  assumes r: "raid_ready D nblk s" and m: "m \<le> D" and st: "unat stripe = st" "st < nblk"
  shows "\<exists>s'. rfold (cache_body D stripe) [1..<Suc m] s = Inr s' \<and> quiet D nblk s s' \<and>
     dblocks D nblk s' = dblocks D nblk s \<and>
     (\<forall>d<m. alive s d \<longrightarrow> slot s' d = take BLOCKSIZE (dblocks D nblk s (Suc d) st))"
  using m
proof (induction m)
  case 0
  show ?case using quiet_refl[OF r] by simp
next
  case (Suc m)
  have D: "D \<le> 6" using r by (simp add: raid_ready_def raid_wf_def)
  obtain s1 where s1: "rfold (cache_body D stripe) [1..<Suc m] s = Inr s1" "quiet D nblk s s1"
      "dblocks D nblk s1 = dblocks D nblk s"
      "\<forall>d<m. alive s d \<longrightarrow> slot s1 d = take BLOCKSIZE (dblocks D nblk s (Suc d) st)"
    using Suc.IH[OF Suc_leD[OF Suc.prems]] by blast
  have mD: "m < D" using Suc.prems by simp
  obtain s2 where s2: "cache_body D stripe (Suc m) s1 = Inr s2" "quiet D nblk s1 s2"
      "dblocks D nblk s2 = dblocks D nblk s1"
      "slot s2 = (if alive s1 m then (slot s1)(m := take BLOCKSIZE (dblocks D nblk s1 (Suc m) st),
                                           Suc m := drop BLOCKSIZE (dblocks D nblk s1 (Suc m) st))
                else slot s1)"
    using cache_body_ok[OF quiet_ready[OF s1(2)] mD st] by blast
  have al: "alive s1 m = alive s m" using alive_quiet[OF s1(2), of m] mD D by simp
  have "rfold (cache_body D stripe) [1..<Suc (Suc m)] s = Inr s2"
    using s1(1) s2(1) by (simp add: upt_Suc rfold_append)
  moreover have "slot s2 d = take BLOCKSIZE (dblocks D nblk s (Suc d) st)" if "d < Suc m" "alive s d" for d
    using that s1(3,4) al by (cases "d = m") (auto simp: s2(4))
  ultimately show ?case
    using quiet_trans[OF s1(2) s2(2)] s1(3) s2(3) by auto
qed

lemma set_fld_ready: "raid_ready D nblk s \<Longrightarrow> i < W_cache D + 2 \<Longrightarrow> raid_ready D nblk (set_fld i v s)"
  by (simp add: raid_ready_def)

lemma cache_ok:
  assumes r: "raid_ready D nblk s" and n: "unat (num_of_disks s) = data_cols r4 D"
    and p: "unat pdisk = p" "p < D" "r4 \<longrightarrow> p = D - 1" and st: "unat stripe = st" "st < nblk"
  shows "\<exists>s'. cache D stripe pdisk s = Inr s' \<and> raid_ready D nblk s' \<and> page_only s s' \<and>
     (\<forall>i<128. fld i s' = (if i = W_cache D then stripe
                          else if i = W_cache D + 1 \<or> i = W_parity_disk D then pdisk else fld i s)) \<and>
     dblocks D nblk s' = dblocks D nblk s \<and>
     (\<forall>d<D. alive s d \<longrightarrow> d \<noteq> Suc p \<or> \<not> alive s p \<longrightarrow> slot s' d = take BLOCKSIZE (dblocks D nblk s (Suc d) st)) \<and>
     (alive s p \<longrightarrow> slot s' (Suc p) = drop BLOCKSIZE (dblocks D nblk s (Suc p) st))"
proof -
  have D: "2 \<le> D" "D \<le> 6" using r by (auto simp: raid_ready_def raid_wf_def)
  have nb: "nblk \<le> 2 ^ 31" using r by (simp add: raid_ready_def vio_ok_def)
  have W: "W_cache D + 1 < 128" "W_cache D < 128" "W_parity_disk D < W_cache D" "\<And>d. d < D \<Longrightarrow> W_disk_state + d < W_parity_disk D"
    using D by (auto simp: layout_simps)
  define s0 where "s0 = set_fld (W_cache D) stripe s"
  have r0: "raid_ready D nblk s0" unfolding s0_def by (rule set_fld_ready[OF r]) simp
  have al0: "alive s0 d = alive s d" if "d < D" for d
    using W(1-3) W(4)[OF that] fld_set_fld[of "W_disk_state + d" "W_cache D" stripe s]
    by (simp add: alive_def s0_def)
  have mD: "data_cols r4 D \<le> D" by (simp add: data_cols_def)
  obtain s1 where s1: "rfold (cache_body D stripe) [1..<Suc (data_cols r4 D)] s0 = Inr s1" "quiet D nblk s0 s1"
      "dblocks D nblk s1 = dblocks D nblk s0"
      "\<forall>d<data_cols r4 D. alive s0 d \<longrightarrow> slot s1 d = take BLOCKSIZE (dblocks D nblk s0 (Suc d) st)"
    using cache_loop[OF r0 mD st] by blast
  define s2 where "s2 = set_fld (W_parity_disk D) pdisk (set_fld (W_cache D + 1) pdisk s1)"
  have r2: "raid_ready D nblk s2"
    unfolding s2_def using W by (intro set_fld_ready quiet_ready[OF s1(2)]) auto
  have f2: "fld i s2 = (if i = W_cache D then stripe
      else if i = W_cache D + 1 \<or> i = W_parity_disk D then pdisk else fld i s)" if "i < 128" for i
    using that W quiet_fld[OF s1(2) that] by (auto simp: s2_def s0_def fld_set_fld)
  have al2: "alive s2 d = alive s d" if "d < D" for d
    using W(1-3) W(4)[OF that] f2[of "W_disk_state + d"] by (simp add: alive_def)
  have sl2: "slot s2 = slot s1" "dblocks D nblk s2 = dblocks D nblk s"
    using W s1(3) by (simp_all add: s2_def s0_def)
  have po: "page_only s s2"
    unfolding s2_def
    by (rule page_only_trans[OF _ page_only_trans[OF _ page_only_trans[OF page_only_set_fld page_only_set_fld]]])
      (use s1(2) W(1-3) page_only_set_fld[of "W_cache D" s stripe] in \<open>auto simp: quiet_def s0_def\<close>)
  have wf2: "raid_wf D s2" using r2 by (simp add: raid_ready_def)
  have f2': "parity_disk D s2 = pdisk" "parity_cached D s2 = pdisk" using W(1-3) f2 by auto
  have "uint pdisk = int p" unfolding uint_nat p(1) ..
  moreover have "unat (pdisk + 1) = Suc p" using p D unat_plus1[of pdisk] by simp
  then have "sint (pdisk + 1) = int (Suc p)" using sint_small[of "pdisk + 1"] p D by simp
  moreover have "sint stripe = int st" using st nb sint_small[of stripe] by simp
  ultimately have c: "cache D stripe pdisk s = (if fld (W_disk_state + p) s2 \<noteq> DEAD
      then read_block_to (int (Suc p)) (int st) (slot_addr s2 p) s2 else Inr s2)"
    unfolding cache_def Let_def n s0_def[symmetric] s1(1)[unfolded cache_body_def[abs_def]] rbind_Inr
      s2_def[symmetric] f2'
    using wf2 by (simp only: rbind_Inr disk_state_ok[OF r2 p(2)] cached_data_disks_ok[OF wf2 p(2)])
  have live: "slot s2 d = take BLOCKSIZE (dblocks D nblk s (Suc d) st)"
    if "d < D" "alive s d" "d = p \<longrightarrow> \<not> r4" for d
    using that s1(4) al0[OF that(1)] p(3) sl2 by (auto simp: data_cols_def s0_def split: if_splits)
  show ?thesis
  proof (cases "alive s p")
    case False
    then have "cache D stripe pdisk s = Inr s2" using c al2[OF p(2)] by (simp add: alive_def)
    then show ?thesis using r2 po f2 sl2(2) live False by (intro exI[of _ s2]) auto
  next
    case True
    obtain s3 where s3: "read_block_to (int (Suc p)) (int st) (slot_addr s2 p) s2 = Inr s3" "quiet D nblk s2 s3"
      "dblocks D nblk s3 = dblocks D nblk s2"
      "slot s3 = (slot s2)(p := take BLOCKSIZE (dblocks D nblk s2 (Suc p) st),
         Suc p := drop BLOCKSIZE (dblocks D nblk s2 (Suc p) st))"
      using read_block_slot[OF r2 p(2) _ _ st(2), of "Suc p"] p(2) by auto
    have "cache D stripe pdisk s = Inr s3" using c s3(1) al2[OF p(2)] True by (simp add: alive_def)
    moreover have "page_only s s3" using page_only_trans[OF po] s3(2) by (simp add: quiet_def)
    moreover have "\<forall>i<128. fld i s3 = (if i = W_cache D then stripe
        else if i = W_cache D + 1 \<or> i = W_parity_disk D then pdisk else fld i s)"
      using f2 quiet_fld[OF s3(2)] by simp
    moreover have "slot s3 d = take BLOCKSIZE (dblocks D nblk s (Suc d) st)"
      if "d < D" "alive s d" "d \<noteq> Suc p \<or> \<not> alive s p" for d
      using that True live[of d] sl2(2) by (cases "d = p") (auto simp: s3(4))
    moreover have "slot s3 (Suc p) = drop BLOCKSIZE (dblocks D nblk s (Suc p) st)"
      by (simp add: s3(4) sl2(2))
    moreover have "dblocks D nblk s3 = dblocks D nblk s" using s3(3) sl2(2) by simp
    ultimately show ?thesis using quiet_ready[OF s3(2)] by blast
  qed
qed

end
