(* ===== verification/Raid_Stripes.thy ===== *)
theory Raid_Stripes
  imports Raid_Parity
begin

unbundle bit_operations_syntax

text \<open>
  The invariant of a RAID 4 or RAID 5 array and its preservation.  \<open>L st d\<close> is the logical
  content of column \<open>d\<close> (disk \<open>d + 1\<close>) in stripe \<open>st\<close>, 512 bytes, also when that disk is
  dead; the columns of a stripe sum to zero.  A disk block has 1024 bytes: its first half
  carries the column.  Its second half is what the cache held behind the column when the
  block was written, and it matters in one place: RAID 5 reads the parity block last, over
  the slot of the next disk, so the second half of a parity block has to be the column of the
  next disk.  The invariant says so, and the writes keep it.
\<close>

section \<open>Layout\<close>

definition parity_col :: "bool \<Rightarrow> nat \<Rightarrow> nat \<Rightarrow> nat" where
  "parity_col r4 D st = (if r4 then D - 1 else D - 1 - (st - 1) mod D)"

definition stripe_of :: "nat \<Rightarrow> nat \<Rightarrow> nat" where
  "stripe_of D b = b div (D - 1) + 1"

definition data_col :: "bool \<Rightarrow> nat \<Rightarrow> nat \<Rightarrow> nat" where
  "data_col r4 D b = (if r4 then b mod (D - 1)
     else (Suc (parity_col r4 D (stripe_of D b)) + b mod (D - 1)) mod D)"

section \<open>Invariant\<close>

definition columns_ok :: "nat \<Rightarrow> nat \<Rightarrow> (nat \<Rightarrow> nat \<Rightarrow> byte list) \<Rightarrow> bool" where
  "columns_ok D nblk L \<longleftrightarrow> (\<forall>st. 1 \<le> st \<and> st < nblk \<longrightarrow>
     (\<forall>d<D. length (L st d) = BLOCKSIZE) \<and> (\<forall>i<BLOCKSIZE. xorl (\<lambda>j. L st j ! i) [0..<D] = 0))"

definition on_disk ::
    "bool \<Rightarrow> nat \<Rightarrow> nat \<Rightarrow> (nat \<Rightarrow> nat \<Rightarrow> byte list) \<Rightarrow> nat option \<Rightarrow> (nat \<Rightarrow> nat \<Rightarrow> byte list) \<Rightarrow> bool" where
  "on_disk r4 D nblk L dead B \<longleftrightarrow> (\<forall>st. 1 \<le> st \<and> st < nblk \<longrightarrow>
     (\<forall>d<D. dead \<noteq> Some d \<longrightarrow> take BLOCKSIZE (B (Suc d) st) = L st d) \<and>
     (let p = parity_col r4 D st in
      dead \<noteq> Some p \<longrightarrow> Suc p < D \<longrightarrow> drop BLOCKSIZE (B (Suc p) st) = L st (Suc p)))"

definition in_slots ::
    "bool \<Rightarrow> nat \<Rightarrow> (nat \<Rightarrow> nat \<Rightarrow> byte list) \<Rightarrow> nat option \<Rightarrow> nat \<Rightarrow> (nat \<Rightarrow> byte list) \<Rightarrow> bool" where
  "in_slots r4 D L dead st S \<longleftrightarrow>
     (\<forall>d<D. dead \<noteq> Some d \<longrightarrow> S d = L st d) \<and>
     (let p = parity_col r4 D st in dead \<noteq> Some p \<longrightarrow> Suc p < D \<longrightarrow> S (Suc p) = L st (Suc p))"

definition status_ok :: "bool \<Rightarrow> nat \<Rightarrow> nat option \<Rightarrow> 'd rsys \<Rightarrow> bool" where
  "status_ok r4 D dead s \<longleftrightarrow> geometry r4 D s \<and> raid_initialized s \<noteq> 0 \<and>
     (\<forall>d<D. alive s d \<longleftrightarrow> dead \<noteq> Some d) \<and>
     max_dead_disks s = 2 \<and> num_dead_disks s = (if dead = None then 0 else 1)"

definition parity_rep ::
    "bool \<Rightarrow> nat \<Rightarrow> nat \<Rightarrow> (nat \<Rightarrow> nat \<Rightarrow> byte list) \<Rightarrow> nat option \<Rightarrow> 'd rsys \<Rightarrow> bool" where
  "parity_rep r4 D nblk L dead s \<longleftrightarrow>
     raid_ready D nblk s \<and> status_ok r4 D dead s \<and> columns_ok D nblk L \<and>
     on_disk r4 D nblk L dead (dblocks D nblk s) \<and>
     (let st = unat (cache_stripe D s) in 1 \<le> st \<and> st < nblk \<longrightarrow>
        unat (parity_cached D s) = parity_col r4 D st \<and> in_slots r4 D L dead st (slot s))"

text \<open>Only the page and the \<open>n\<close> bytes from \<open>a\<close> change.\<close>

definition frame :: "u64 \<Rightarrow> nat \<Rightarrow> 'd rsys \<Rightarrow> 'd rsys \<Rightarrow> bool" where
  "frame a n s s' \<longleftrightarrow> raid_metadata s' = raid_metadata s \<and> freelist (km s') = freelist (km s) \<and>
     (\<forall>x. \<not> within (raid_metadata s) PGSIZE x \<longrightarrow> \<not> within a n x \<longrightarrow> mem s' x = mem s x)"

section \<open>Lemmas on the layout\<close>

lemma parity_col_less: "2 \<le> D \<Longrightarrow> parity_col r4 D st < D"
  by (simp add: parity_col_def)

lemma parity_col_r4 [simp]: "parity_col True D st = D - 1"
  by (simp add: parity_col_def)

lemma data_col_less: "2 \<le> D \<Longrightarrow> data_col r4 D b < data_cols r4 D"
  by (simp add: data_col_def data_cols_def)

lemma data_col_not_parity:
  assumes "2 \<le> D"
  shows "data_col r4 D b \<noteq> parity_col r4 D (stripe_of D b)"
proof (cases r4)
  case True
  have "b mod (D - 1) < D - 1" using assms by simp
  with True show ?thesis by (simp add: data_col_def)
next
  case False
  define p where "p = parity_col r4 D (stripe_of D b)"
  define x where "x = b mod (D - 1)"
  have p: "p < D" "x < D - 1" using assms parity_col_less[of D r4] by (auto simp: p_def x_def)
  have "(Suc p + x) mod D \<noteq> p"
  proof (cases "Suc p + x < D")
    case False
    with p have "(Suc p + x) mod D = Suc p + x - D" by (simp add: mod_if)
    with p False show ?thesis by auto
  qed simp
  with False show ?thesis unfolding data_col_def p_def x_def by simp
qed

lemma mod_add_inj:
  assumes "(p + x) mod D = (p + y) mod D" "x < D" "y < D"
  shows "x = (y :: nat)"
proof -
  have le: "x = y" if "(p + x) mod D = (p + y) mod D" "x \<le> y" "y < D" for x y :: nat
  proof -
    have "D dvd (p + y) - (p + x)" using that by (subst mod_eq_dvd_iff_nat[symmetric]) auto
    with that show "x = y" by (auto dest: dvd_imp_le)
  qed
  show ?thesis using le[of x y] le[of y x] assms by (cases "x \<le> y") auto
qed

text \<open>Different logical blocks lie in different places.\<close>

lemma layout_inj:
  assumes D: "2 \<le> D" and eq: "stripe_of D b = stripe_of D c" "data_col r4 D b = data_col r4 D c"
  shows "b = c"
proof -
  have q: "b div (D - 1) = c div (D - 1)" using eq(1) by (simp add: stripe_of_def)
  have lt: "b mod (D - 1) < D - 1" "c mod (D - 1) < D - 1" using D by simp_all
  have "b mod (D - 1) = c mod (D - 1)"
  proof (cases r4)
    case True
    with eq(2) show ?thesis by (simp add: data_col_def)
  next
    case False
    define p where "p = Suc (parity_col r4 D (stripe_of D c))"
    have "(p + b mod (D - 1)) mod D = (p + c mod (D - 1)) mod D"
      using eq False by (simp add: data_col_def p_def)
    then show ?thesis by (rule mod_add_inj) (use lt in linarith)+
  qed
  with q show ?thesis by (metis div_mult_mod_eq)
qed

section \<open>Writes to the caller's buffer\<close>

definition user_write :: "u64 \<Rightarrow> byte list \<Rightarrow> 'd rsys \<Rightarrow> 'd rsys" where
  "user_write a bs s = set_mem (mem_write (mem s) a bs) s"

lemma user_write_simps [simp]: "raid_metadata (user_write a bs s) = raid_metadata s"
  "vd (user_write a bs s) = vd s" "freelist (km (user_write a bs s)) = freelist (km s)"
  by (simp_all add: user_write_def)

lemma user_write_pg:
  assumes "user_buf a (length bs) s" "x < PGSIZE"
  shows "pg (user_write a bs s) x = pg s x"
proof -
  have "x < 2 ^ 64" using assms(2) by (simp add: PGSIZE_def)
  then have "within (raid_metadata s) PGSIZE (raid_metadata s + of_nat x)"
    using assms(2) by (simp only: within_offset)
  then have "\<not> within a (length bs) (raid_metadata s + of_nat x)"
    using assms(1) by (auto simp: user_buf_def)
  then show ?thesis by (simp add: pg_def user_write_def mem_write_outside)
qed

lemma user_write_views:
  assumes u: "user_buf a (length bs) s"
  shows "i < 128 \<Longrightarrow> fld i (user_write a bs s) = fld i s"
    and "slot (user_write a bs s) = slot s"
    and "raid_ready D nblk (user_write a bs s) = raid_ready D nblk s"
proof -
  show "fld i (user_write a bs s) = fld i s" if "i < 128" for i
    using that by (auto simp: fld_pg user_write_pg[OF u] PGSIZE_def intro!: arg_cong[of _ _ rd32])
  show "slot (user_write a bs s) = slot s"
    by (rule ext) (auto simp: slot_def user_write_pg[OF u] const_simps)
  have "slot_ptr D k (user_write a bs s) = slot_ptr D k s" if "k < D" "D \<le> 6" for k
  proof -
    have b: "4 * (W_cache D + 2) + 8 * k + 8 \<le> PGSIZE" using that by (simp add: W_cache_def PGSIZE_def)
    show ?thesis
      unfolding slot_ptr_pg[OF b]
      by (rule arg_cong[of _ _ rd64]) (use that in \<open>auto simp: user_write_pg[OF u] W_cache_def PGSIZE_def\<close>)
  qed
  then have "raid_wf D (user_write a bs s) = raid_wf D s"
    by (auto simp: raid_wf_def slot_addr_def)
  then show "raid_ready D nblk (user_write a bs s) = raid_ready D nblk s"
    by (simp add: raid_ready_def)
qed

lemma user_write_data:
  assumes "length bs = BLOCKSIZE"
  shows "user_data a (user_write a bs s) = bs"
  using mem_read_write_same[of bs "mem s" a] assms by (simp add: user_data_def user_write_def BLOCKSIZE_def)

lemma user_write_frame: "frame a (length bs) s (user_write a bs s)"
  by (simp add: frame_def user_write_def mem_write_outside)

lemma frame_page_only: "page_only s s' \<Longrightarrow> frame a n s' s'' \<Longrightarrow> frame a n s s''"
  by (auto simp: frame_def page_only_def)

lemma page_only_frame: "page_only s s' \<Longrightarrow> frame a n s s'"
  by (auto simp: frame_def page_only_def)

section \<open>Preservation\<close>

lemma status_cong:
  assumes "\<And>i. i < 128 \<Longrightarrow> i \<noteq> W_cache D \<Longrightarrow> i \<noteq> W_cache D + 1 \<Longrightarrow> fld i s' = fld i s" "D \<le> 6"
  shows "status_ok r4 D dead s' = status_ok r4 D dead s"
proof -
  have "alive s' d = alive s d" if "d < D" for d
    using assms(1)[of "W_disk_state + d"] assms(2) that by (simp add: alive_def layout_simps)
  moreover have "geometry r4 D s' = geometry r4 D s"
    using assms(1)[of 1] assms(1)[of 2] assms(1)[of "W_parity_disk D"] assms(2)
    by (simp add: geometry_def layout_simps)
  moreover have "max_dead_disks s' = max_dead_disks s" "num_dead_disks s' = num_dead_disks s"
      "raid_initialized s' = raid_initialized s"
    using assms(1)[of 6] assms(1)[of 5] assms(1)[of 0] by (simp_all add: layout_simps)
  ultimately show ?thesis by (simp add: status_ok_def)
qed

lemma parity_rep_D: "parity_rep r4 D nblk L dead s \<Longrightarrow> 2 \<le> D \<and> D \<le> 6"
  by (simp add: parity_rep_def raid_ready_def raid_wf_def)

text \<open>A change of the buffer only.\<close>

lemma parity_rep_user_write:
  assumes "parity_rep r4 D nblk L dead s" "user_buf a (length bs) s"
  shows "parity_rep r4 D nblk L dead (user_write a bs s)"
proof -
  have D: "D \<le> 6" using parity_rep_D[OF assms(1)] by simp
  then have "W_cache D + 1 < 128" by (simp add: layout_simps)
  then show ?thesis
    using assms(1) user_write_views[OF assms(2)]
      status_cong[of D "user_write a bs s" s r4 dead] D
    unfolding parity_rep_def by simp
qed

lemma cache_rep:
  assumes rep: "parity_rep r4 D nblk L dead s"
    and st: "unat stripe = st" "1 \<le> st" "st < nblk" and p: "unat pdisk = parity_col r4 D st"
  shows "\<exists>s'. cache D stripe pdisk s = Inr s' \<and> parity_rep r4 D nblk L dead s' \<and>
     cache_stripe D s' = stripe \<and> page_only s s'"
proof -
  let ?p = "parity_col r4 D st"
  have D: "2 \<le> D" "D \<le> 6" using parity_rep_D[OF rep] by simp_all
  have W: "W_cache D + 1 < 128" "W_parity_disk D < W_cache D" using D by (auto simp: layout_simps)
  note rep' = rep[unfolded parity_rep_def]
  have n: "unat (num_of_disks s) = data_cols r4 D"
    using rep' by (auto simp: status_ok_def geometry_def data_cols_def split: if_splits)
  have al: "alive s d \<longleftrightarrow> dead \<noteq> Some d" if "d < D" for d
    using rep' that by (simp add: status_ok_def)
  have pD: "?p < D" by (rule parity_col_less[OF D(1)])
  obtain s' where s': "cache D stripe pdisk s = Inr s'" "raid_ready D nblk s'" "page_only s s'"
     "\<forall>i<128. fld i s' = (if i = W_cache D then stripe
                          else if i = W_cache D + 1 \<or> i = W_parity_disk D then pdisk else fld i s)"
     "dblocks D nblk s' = dblocks D nblk s"
     "\<forall>d<D. alive s d \<longrightarrow> d \<noteq> Suc ?p \<or> \<not> alive s ?p \<longrightarrow> slot s' d = take BLOCKSIZE (dblocks D nblk s (Suc d) st)"
     "alive s ?p \<longrightarrow> slot s' (Suc ?p) = drop BLOCKSIZE (dblocks D nblk s (Suc ?p) st)"
    using cache_ok[OF _ n p pD _ st(1,3)] rep' by auto
  have od: "on_disk r4 D nblk L dead (dblocks D nblk s)" using rep' by simp
  have take: "take BLOCKSIZE (dblocks D nblk s (Suc d) st) = L st d" if "d < D" "dead \<noteq> Some d" for d
    using od st that by (simp add: on_disk_def)
  have drop: "drop BLOCKSIZE (dblocks D nblk s (Suc ?p) st) = L st (Suc ?p)" if "dead \<noteq> Some ?p" "Suc ?p < D"
    using od st that by (simp add: on_disk_def Let_def)
  have "in_slots r4 D L dead st (slot s')"
    unfolding in_slots_def Let_def
    using s'(6,7) take drop al pD by (metis)
  moreover have "status_ok r4 D dead s'"
  proof (cases r4)
    case True
    have "pdisk = parity_disk D s"
      using p rep' True by (simp add: status_ok_def geometry_def word_unat_eq_iff)
    then have "fld i s' = fld i s" if "i < 128" "i \<noteq> W_cache D" "i \<noteq> W_cache D + 1" for i
      using s'(4) that by auto
    then show ?thesis using status_cong[of D s' s r4 dead] D rep' by simp
  next
    case False
    have "alive s' d = alive s d" if "d < D" for d
      using s'(4) D that by (simp add: alive_def layout_simps)
    moreover have "raid_type s' = raid_type s" "num_of_disks s' = num_of_disks s"
      "max_dead_disks s' = max_dead_disks s" "num_dead_disks s' = num_dead_disks s"
      "raid_initialized s' = raid_initialized s"
      using s'(4) D by (simp_all add: layout_simps)
    ultimately show ?thesis using rep' False by (simp add: status_ok_def geometry_def)
  qed
  moreover have "cache_stripe D s' = stripe" "parity_cached D s' = pdisk" using s'(4) W by auto
  ultimately have "parity_rep r4 D nblk L dead s'"
    unfolding parity_rep_def using s'(2,5) rep' st p by simp
  with s' \<open>cache_stripe D s' = stripe\<close> show ?thesis by blast
qed

lemma recovered_column:
  assumes "columns_ok D nblk L" "1 \<le> st" "st < nblk" "k < D" "\<And>j. j < D \<Longrightarrow> j \<noteq> k \<Longrightarrow> S j = L st j"
  shows "recovered D k S = L st k"
proof (rule nth_equalityI)
  show "length (recovered D k S) = length (L st k)"
    using assms by (simp add: recovered_def columns_ok_def)
  fix i
  assume "i < length (recovered D k S)"
  then have i: "i < BLOCKSIZE" by (simp add: recovered_def)
  have "xorl (\<lambda>j. L st j ! i) [0..<D] = 0" using assms(1-3) i by (simp add: columns_ok_def)
  moreover have "xorl (\<lambda>j. L st j ! i) [0..<D] =
      L st k ! i XOR xorl (\<lambda>j. L st j ! i) (filter (\<lambda>j. j \<noteq> k) [0..<D])"
    using assms(4) by (intro xorl_remove) auto
  moreover have "xorl (\<lambda>j. S j ! i) (filter (\<lambda>j. j \<noteq> k) [0..<D]) =
      xorl (\<lambda>j. L st j ! i) (filter (\<lambda>j. j \<noteq> k) [0..<D])"
    by (intro xorl_cong) (auto simp: assms(5))
  ultimately show "recovered D k S ! i = L st k ! i"
    using i by (simp add: recovered_def xor_eq_0_iff)
qed

text \<open>Recovery of the dead disk's column in the cached stripe.\<close>

lemma recovery_rep:
  assumes rep: "parity_rep r4 D nblk L dead s" and st: "unat (cache_stripe D s) = st" "1 \<le> st" "st < nblk"
    and k: "k < data_cols r4 D" and dead: "dead = Some k"
  shows "\<exists>s'. raid_tocache_recovery D (Suc k) s = Inr s' \<and> parity_rep r4 D nblk L dead s' \<and>
     cache_stripe D s' = cache_stripe D s \<and> slot s' k = L st k \<and> page_only s s'"
proof -
  have D: "2 \<le> D" "D \<le> 6" using parity_rep_D[OF rep] by simp_all
  have kD: "k < D" using k by (auto simp: data_cols_def split: if_splits)
  have W: "W_cache D + 1 < 128" using D by (auto simp: layout_simps)
  note rep' = rep[unfolded parity_rep_def]
  have g: "geometry r4 D s" and r: "raid_ready D nblk s" using rep' by (simp_all add: status_ok_def)
  obtain s' where s': "raid_tocache_recovery D (Suc k) s = Inr s'" "quiet D nblk s s'" "vd s' = vd s"
      "slot s' = (slot s)(k := recovered D k (slot s))"
    using raid_tocache_recovery_ok[OF r g k] by blast
  have sl: "in_slots r4 D L dead st (slot s)" and pc: "unat (parity_cached D s) = parity_col r4 D st"
    and col: "columns_ok D nblk L"
    using rep' st by (simp_all add: Let_def)
  have rec: "recovered D k (slot s) = L st k"
    by (rule recovered_column[OF col st(2,3) kD]) (use sl dead in \<open>auto simp: in_slots_def\<close>)
  have "in_slots r4 D L dead st (slot s')"
    using sl by (simp add: in_slots_def Let_def s'(4) rec)
  moreover have "status_ok r4 D dead s'"
    using status_cong[of D s' s r4 dead] quiet_fld[OF s'(2)] D rep' by simp
  moreover have f: "cache_stripe D s' = cache_stripe D s" "parity_cached D s' = parity_cached D s"
    using quiet_fld[OF s'(2)] W by simp_all
  ultimately have "parity_rep r4 D nblk L dead s'"
    unfolding parity_rep_def f st(1) Let_def using quiet_ready[OF s'(2)] rep' s'(3) pc by simp
  moreover have "slot s' k = L st k" by (simp add: s'(4) rec)
  ultimately show ?thesis using s'(1,2) f(1) by (auto simp: quiet_def)
qed

text \<open>Recovery is called when the disk is dead, and gives the column in either case.\<close>

lemma maybe_recovery_rep:
  assumes rep: "parity_rep r4 D nblk L dead s" and st: "unat (cache_stripe D s) = st" "1 \<le> st" "st < nblk"
    and k: "k < data_cols r4 D"
  shows "\<exists>s'. rbind (disk_state (int (Suc k) - 1) s) (\<lambda>x.
         rbind (if x = DEAD then raid_tocache_recovery D (Suc k) s else Inr s) f) = f s' \<and>
     parity_rep r4 D nblk L dead s' \<and> cache_stripe D s' = cache_stripe D s \<and> slot s' k = L st k \<and> page_only s s'"
proof -
  have kD: "k < D" using k by (auto simp: data_cols_def split: if_splits)
  have r: "raid_ready D nblk s" and al: "alive s k \<longleftrightarrow> dead \<noteq> Some k"
    using rep kD by (auto simp: parity_rep_def status_ok_def)
  have ik: "int (Suc k) - 1 = int k" by simp
  show ?thesis
  proof (cases "dead = Some k")
    case True
    obtain s' where "raid_tocache_recovery D (Suc k) s = Inr s'" "parity_rep r4 D nblk L dead s'"
       "cache_stripe D s' = cache_stripe D s" "slot s' k = L st k" "page_only s s'"
      using recovery_rep[OF rep st k True] by blast
    moreover have "fld (W_disk_state + k) s = DEAD" using al True by (simp add: alive_def)
    ultimately show ?thesis
      unfolding ik disk_state_ok[OF r kD] by (intro exI[of _ s']) simp
  next
    case False
    then have "slot s k = L st k"
      using rep st kD by (simp add: parity_rep_def Let_def in_slots_def)
    moreover have "fld (W_disk_state + k) s \<noteq> DEAD" using al False by (simp add: alive_def)
    ultimately show ?thesis
      unfolding ik disk_state_ok[OF r kD] using rep by (intro exI[of _ s]) simp
  qed
qed

lemma user_buf_cong: "raid_metadata s' = raid_metadata s \<Longrightarrow> user_buf a n s' = user_buf a n s"
  by (simp add: user_buf_def)

lemma read_cached_rep:
  assumes rep: "parity_rep r4 D nblk L dead s" and st: "unat (cache_stripe D s) = st" "1 \<le> st" "st < nblk"
    and k: "k < data_cols r4 D" and u: "user_buf a BLOCKSIZE s"
  shows "\<exists>s'. read_cached D (Suc k) a s = Inr (0, s') \<and> parity_rep r4 D nblk L dead s' \<and>
     user_data a s' = L st k \<and> frame a BLOCKSIZE s s' \<and> unat (cache_stripe D s') = st"
proof -
  have kD: "k < D" using k by (auto simp: data_cols_def split: if_splits)
  have ik: "int (Suc k) - 1 = int k" by simp
  let ?f = "\<lambda>s1. rbind (cached_data_disks D (int (Suc k) - 1) s1) (\<lambda>p.
     rbind (move a p BLOCKSIZE s1) (\<lambda>s2. Inr (0, s2)))"
  obtain s1 where s1: "read_cached D (Suc k) a s = ?f s1" "parity_rep r4 D nblk L dead s1"
      "slot s1 k = L st k" "page_only s s1" "cache_stripe D s1 = cache_stripe D s"
    using maybe_recovery_rep[OF rep st k, of ?f] unfolding read_cached_def by blast
  have wf: "raid_wf D s1" using s1(2) by (simp add: parity_rep_def raid_ready_def)
  have len: "length (slot s1 k) = BLOCKSIZE" using kD wf by (simp add: raid_wf_def)
  have u1: "user_buf a (length (slot s1 k)) s1" unfolding len by (rule page_only_buf(1)[OF s1(4) u])
  have "read_cached D (Suc k) a s = Inr (0, user_write a (slot s1 k) s1)"
    unfolding s1(1) ik using u1 len
    by (simp add: cached_data_disks_ok[OF wf kD] move_def load_slot[OF wf kD] store_def user_buf_def user_write_def)
  moreover have "parity_rep r4 D nblk L dead (user_write a (slot s1 k) s1)"
    by (rule parity_rep_user_write[OF s1(2) u1])
  moreover have "user_data a (user_write a (slot s1 k) s1) = L st k"
    using user_write_data[OF len] s1(3) by simp
  moreover have "frame a BLOCKSIZE s (user_write a (slot s1 k) s1)"
    using frame_page_only[OF s1(4) user_write_frame[of a "slot s1 k"]] len by simp
  moreover have "W_cache D < 128" using wf by (auto simp: raid_wf_def layout_simps)
  then have "unat (cache_stripe D (user_write a (slot s1 k) s1)) = st"
    using user_write_views[OF u1] s1(5) st(1) by simp
  ultimately show ?thesis by blast
qed

text \<open>The columns after a write: the new data, and the parity corrected.\<close>

definition write_column :: "bool \<Rightarrow> nat \<Rightarrow> nat \<Rightarrow> nat \<Rightarrow> byte list \<Rightarrow> (nat \<Rightarrow> nat \<Rightarrow> byte list) \<Rightarrow> nat \<Rightarrow> nat \<Rightarrow> byte list" where
  "write_column r4 D st k bs L =
     (let p = parity_col r4 D st in L(st := (L st)(k := bs, p := parity_update (L st p) (L st k) bs)))"

lemma write_column_ok:
  assumes "columns_ok D nblk L" "2 \<le> D" "k < D" "k \<noteq> parity_col r4 D st" "length bs = BLOCKSIZE"
  shows "columns_ok D nblk (write_column r4 D st k bs L)"
  unfolding columns_ok_def
proof (intro allI impI conjI)
  let ?p = "parity_col r4 D st"
  fix st'
  assume st': "1 \<le> st' \<and> st' < nblk"
  show "length (write_column r4 D st k bs L st' d) = BLOCKSIZE" if "d < D" for d
    using assms st' that by (simp add: write_column_def Let_def columns_ok_def parity_update_def)
  show "xorl (\<lambda>j. write_column r4 D st k bs L st' j ! i) [0..<D] = 0" if i: "i < BLOCKSIZE" for i
  proof (cases "st' = st")
    case True
    have "xorl (\<lambda>j. write_column r4 D st k bs L st' j ! i) [0..<D] =
        xorl ((\<lambda>j. L st j ! i)(k := bs ! i, ?p := L st ?p ! i XOR L st k ! i XOR bs ! i)) [0..<D]"
      by (rule xorl_cong) (use assms(4) i True in \<open>auto simp: write_column_def Let_def parity_update_def\<close>)
    also have "\<dots> = xorl (\<lambda>j. L st j ! i) [0..<D]"
      by (rule xorl_update) (use assms parity_col_less[of D r4 st] in auto)
    finally show ?thesis using assms(1) st' i True by (simp add: columns_ok_def)
  qed (use assms(1) st' i in \<open>simp add: write_column_def Let_def columns_ok_def\<close>)
qed

text \<open>
  What a write of \<open>bs\<close> to column \<open>k\<close> of the cached stripe stores: the parity takes up the
  difference of \<open>bs\<close> and the slot.  It is \<open>bs\<close> when the slot holds the column.
\<close>

definition merged :: "(nat \<Rightarrow> nat \<Rightarrow> byte list) \<Rightarrow> nat \<Rightarrow> nat \<Rightarrow> byte list \<Rightarrow> 'd rsys \<Rightarrow> byte list" where
  "merged L st k bs s = map (\<lambda>i. bs ! i XOR slot s k ! i XOR L st k ! i) [0..<BLOCKSIZE]"

lemma user_data_length [simp]: "length (user_data a s) = BLOCKSIZE"
  by (simp add: user_data_def)

lemma merged_same: "slot s k = L st k \<Longrightarrow> length bs = BLOCKSIZE \<Longrightarrow> merged L st k bs s = bs"
  by (intro nth_equalityI) (simp_all add: merged_def ac_simps)

lemma parity_update_merged:
  "parity_update p (L st k) (merged L st k bs s) = parity_update p (slot s k) bs"
  by (intro nth_equalityI) (simp_all add: parity_update_def merged_def ac_simps)

lemma updateparity_rep:
  assumes rep: "parity_rep r4 D nblk L dead s" and st: "unat (cache_stripe D s) = st" "1 \<le> st" "st < nblk"
    and k: "k < D" "k \<noteq> parity_col r4 D st" and u: "user_buf a BLOCKSIZE s"
  shows "\<exists>s'. raid_write_updateparity_cache D (Suc k) a s = Inr s' \<and> page_only s s' \<and>
     parity_rep r4 D nblk (write_column r4 D st k (merged L st k (user_data a s) s) L) dead s'"
proof -
  let ?bs = "merged L st k (user_data a s) s"
  let ?p = "parity_col r4 D st" and ?L = "write_column r4 D st k ?bs L"
  have D: "2 \<le> D" "D \<le> 6" using parity_rep_D[OF rep] by simp_all
  have pD: "?p < D" by (rule parity_col_less[OF D(1)])
  have W: "W_cache D + 1 < 128" using D by (auto simp: layout_simps)
  note rep' = rep[unfolded parity_rep_def]
  have r: "raid_ready D nblk s" and pc: "unat (parity_cached D s) = ?p"
    and sl: "in_slots r4 D L dead st (slot s)" and od: "on_disk r4 D nblk L dead (dblocks D nblk s)"
    and col: "columns_ok D nblk L"
    using rep' st by (simp_all add: Let_def)
  have al: "alive s d \<longleftrightarrow> dead \<noteq> Some d" if "d < D" for d
    using rep' that by (simp add: status_ok_def)
  define S where "S = (slot s)(k := user_data a s, ?p := parity_update (slot s ?p) (slot s k) (user_data a s))"
  define B1 where "B1 = (if dead \<noteq> Some ?p then upd2 (dblocks D nblk s) (Suc ?p) st (S ?p @ S (Suc ?p)) else dblocks D nblk s)"
  define B2 where "B2 = (if dead \<noteq> Some k then upd2 B1 (Suc k) st (S k @ S (Suc k)) else B1)"
  obtain s' where s': "raid_write_updateparity_cache D (Suc k) a s = Inr s'" "quiet D nblk s s'"
      "slot s' = S" "dblocks D nblk s' = B2"
    using raid_write_updateparity_cache_ok[OF r pc pD k u st(1,3)]
    unfolding Let_def S_def[symmetric] al[OF pD] al[OF k(1)] B1_def[symmetric] B2_def[symmetric] by blast
  have lens: "length (user_data a s) = BLOCKSIZE" "length (S ?p) = BLOCKSIZE"
    "length (L st k) = BLOCKSIZE" "length ?bs = BLOCKSIZE"
    using col st k by (simp_all add: user_data_def S_def parity_update_def columns_ok_def merged_def)
  have same: "?bs = user_data a s" if "dead \<noteq> Some k \<or> dead \<noteq> Some ?p \<and> k = Suc ?p"
    using that sl k lens(1) by (intro merged_same) (auto simp: in_slots_def Let_def)
  have Sp: "S ?p = ?L st ?p" if "dead \<noteq> Some ?p"
    using that sl pD k(2) parity_update_merged[of "L st ?p" L st k "user_data a s" s]
    by (simp add: S_def write_column_def Let_def in_slots_def)
  have Sd: "S d = ?L st d" if "d < D" "dead \<noteq> Some d" for d
    using that sl Sp k(2) same by (auto simp: S_def write_column_def Let_def in_slots_def)
  have Smir: "S (Suc ?p) = ?L st (Suc ?p)" if "dead \<noteq> Some ?p" "Suc ?p < D"
    using that sl same by (auto simp: S_def write_column_def Let_def in_slots_def)
  have slots: "in_slots r4 D ?L dead st (slot s')"
    unfolding in_slots_def Let_def s'(3) using Sd Smir by blast
  have disk: "on_disk r4 D nblk ?L dead B2"
    unfolding on_disk_def Let_def
  proof (intro allI impI conjI)
    fix st'
    assume st': "1 \<le> st' \<and> st' < nblk"
    have other: "B2 j st' = dblocks D nblk s j st'" "?L st' = L st'" if "st' \<noteq> st" for j
      using that by (simp_all add: B2_def B1_def upd2_apply write_column_def Let_def)
    show "take BLOCKSIZE (B2 (Suc d) st') = ?L st' d" if d: "d < D" "dead \<noteq> Some d" for d
    proof (cases "st' = st")
      case True
      have "B2 (Suc d) st = (if d = k then S k @ S (Suc k) else if d = ?p then S ?p @ S (Suc ?p)
          else dblocks D nblk s (Suc d) st)"
        using d(2) by (auto simp: B2_def B1_def upd2_apply)
      moreover have "take BLOCKSIZE (dblocks D nblk s (Suc d) st) = L st d"
        using od st d by (simp add: on_disk_def)
      ultimately show ?thesis
        using True d Sd[OF d] lens k by (auto simp: write_column_def Let_def S_def)
    qed (use other od st' d in \<open>simp add: on_disk_def\<close>)
    show "drop BLOCKSIZE (B2 (Suc (parity_col r4 D st')) st') = ?L st' (Suc (parity_col r4 D st'))"
      if d: "dead \<noteq> Some (parity_col r4 D st')" "Suc (parity_col r4 D st') < D"
    proof (cases "st' = st")
      case True
      have "B2 (Suc ?p) st = S ?p @ S (Suc ?p)"
        using d(1) True k(2) by (auto simp: B2_def B1_def upd2_apply)
      then show ?thesis using True d Smir lens by simp
    qed (use other od st' d in \<open>simp add: on_disk_def Let_def\<close>)
  qed
  have f: "cache_stripe D s' = cache_stripe D s" "parity_cached D s' = parity_cached D s"
    using quiet_fld[OF s'(2)] W by simp_all
  have "status_ok r4 D dead s'"
    using status_cong[of D s' s r4 dead] quiet_fld[OF s'(2)] D rep' by simp
  then have "parity_rep r4 D nblk ?L dead s'"
    unfolding parity_rep_def f st(1) Let_def
    using quiet_ready[OF s'(2)] write_column_ok[OF col D(1) k lens(4)] disk slots pc s'(4) by simp
  then show ?thesis using s'(1,2) by (auto simp: quiet_def)
qed

section \<open>One logical block\<close>

lemma read_stripe_rep:
  assumes rep: "parity_rep r4 D nblk L dead s" and st: "unat stripe = st" "1 \<le> st" "st < nblk"
    and p: "unat pdisk = parity_col r4 D st" and k: "k < data_cols r4 D" and u: "user_buf a BLOCKSIZE s"
  shows "\<exists>s'. (if cache_stripe D s = stripe then read_cached D (Suc k) a s
               else rbind (cache D stripe pdisk s) (read_cached D (Suc k) a)) = Inr (0, s') \<and>
     parity_rep r4 D nblk L dead s' \<and> user_data a s' = L st k \<and> frame a BLOCKSIZE s s' \<and>
     unat (cache_stripe D s') = st"
proof (cases "cache_stripe D s = stripe")
  case True
  then show ?thesis using read_cached_rep[OF rep _ st(2,3) k u] st(1) by simp
next
  case False
  obtain s1 where s1: "cache D stripe pdisk s = Inr s1" "parity_rep r4 D nblk L dead s1"
      "cache_stripe D s1 = stripe" "page_only s s1"
    using cache_rep[OF rep st p] by blast
  have c1: "unat (cache_stripe D s1) = st" using s1(3) st(1) by simp
  obtain s2 where s2: "read_cached D (Suc k) a s1 = Inr (0, s2)" "parity_rep r4 D nblk L dead s2"
      "user_data a s2 = L st k" "frame a BLOCKSIZE s1 s2" "unat (cache_stripe D s2) = st"
    using read_cached_rep[OF s1(2) c1 st(2,3) k page_only_buf(1)[OF s1(4) u]] by blast
  then show ?thesis
    using False s1(1) frame_page_only[OF s1(4) s2(4)] by (intro exI[of _ s2]) simp
qed

text \<open>
  A stripe that is not cached is brought in and the column of a dead disk recovered before
  the write; a cached stripe is updated as it is.
\<close>

definition stored :: "nat \<Rightarrow> (nat \<Rightarrow> nat \<Rightarrow> byte list) \<Rightarrow> nat \<Rightarrow> nat \<Rightarrow> byte list \<Rightarrow> 'd rsys \<Rightarrow> byte list" where
  "stored D L st k bs s = (if unat (cache_stripe D s) = st then merged L st k bs s else bs)"

lemma write_stripe_rep:
  assumes rep: "parity_rep r4 D nblk L dead s" and st: "unat stripe = st" "1 \<le> st" "st < nblk"
    and p: "unat pdisk = parity_col r4 D st" and k: "k < data_cols r4 D" "k \<noteq> parity_col r4 D st"
    and u: "user_buf a BLOCKSIZE s"
  shows "\<exists>s'. (if cache_stripe D s = stripe
        then rbind (raid_write_updateparity_cache D (Suc k) a s) (\<lambda>s1. Inr (0 :: int, s1))
        else rbind (cache D stripe pdisk s) (\<lambda>s1.
             rbind (disk_state (int (Suc k) - 1) s1) (\<lambda>st.
             rbind (if st = DEAD then raid_tocache_recovery D (Suc k) s1 else Inr s1) (\<lambda>s2.
             rbind (raid_write_updateparity_cache D (Suc k) a s2) (\<lambda>s3. Inr (0, s3)))))) = Inr (0, s') \<and>
     parity_rep r4 D nblk (write_column r4 D st k (stored D L st k (user_data a s) s) L) dead s' \<and> page_only s s'"
proof -
  have kD: "k < D" using k by (auto simp: data_cols_def split: if_splits)
  show ?thesis
  proof (cases "cache_stripe D s = stripe")
    case True
    have c: "unat (cache_stripe D s) = st" using True st(1) by simp
    from updateparity_rep[OF rep c st(2,3) kD k(2) u] True c show ?thesis by (auto simp: stored_def)
  next
    case False
    let ?f = "\<lambda>s2. rbind (raid_write_updateparity_cache D (Suc k) a s2) (\<lambda>s3. Inr (0::int, s3))"
    obtain s1 where s1: "cache D stripe pdisk s = Inr s1" "parity_rep r4 D nblk L dead s1"
        "cache_stripe D s1 = stripe" "page_only s s1"
      using cache_rep[OF rep st p] by blast
    have c1: "unat (cache_stripe D s1) = st" using s1(3) st(1) by simp
    obtain s2 where s2: "rbind (disk_state (int (Suc k) - 1) s1) (\<lambda>x.
         rbind (if x = DEAD then raid_tocache_recovery D (Suc k) s1 else Inr s1) ?f) = ?f s2"
        "parity_rep r4 D nblk L dead s2" "cache_stripe D s2 = cache_stripe D s1" "slot s2 k = L st k"
        "page_only s1 s2"
      using maybe_recovery_rep[OF s1(2) c1 st(2,3) k(1), of ?f] by blast
    have c2: "unat (cache_stripe D s2) = st" using s2(3) c1 by simp
    have po: "page_only s s2" by (rule page_only_trans[OF s1(4) s2(5)])
    have ud: "user_data a s2 = user_data a s" by (rule user_data_page_only[OF po u]) simp
    obtain s3 where s3: "raid_write_updateparity_cache D (Suc k) a s2 = Inr s3" "page_only s2 s3"
        "parity_rep r4 D nblk (write_column r4 D st k (user_data a s) L) dead s3"
      using updateparity_rep[OF s2(2) c2 st(2,3) kD k(2) page_only_buf(1)[OF po u]]
      unfolding ud merged_same[where L = L and st = st, OF s2(4) user_data_length] by blast
    have "stored D L st k (user_data a s) s = user_data a s" using False st(1) by (simp add: stored_def word_unat_eq_iff)
    moreover    have "?f s2 = Inr (0, s3)" using s3(1) by simp
    ultimately show ?thesis
      using False s1(1) s2(1) s3(3) page_only_trans[OF po s3(2)] by (intro exI[of _ s3]) simp
  qed
qed

subsection \<open>Block numbers\<close>

lemma unat_div_plus1:
  fixes b n :: u32
  assumes "unat b div unat n + 1 < 2 ^ 31"
  shows "unat (b div n + 1) = unat b div unat n + 1"
proof -
  have "unat (b div n) = unat b div unat n" by (simp add: unat_div_distrib)
  with assms unat_plus1[of "b div n"] show ?thesis by simp
qed

lemma unat_mod_plus1:
  fixes b n :: u32
  assumes "0 < unat n" "unat n \<le> 6"
  shows "unat (b mod n + 1) = unat b mod unat n + 1"
proof -
  have m: "unat (b mod n) = unat b mod unat n" by (simp add: unat_mod_distrib)
  have "unat b mod unat n < unat n" using assms by simp
  with m assms unat_plus1[of "b mod n"] show ?thesis by simp
qed

lemma unat_pred:
  fixes n :: u32
  assumes "1 \<le> unat n"
  shows "unat (n - 1) = unat n - 1"
  using assms by (metis One_nat_def unat_eq_zero unat_minus_one not_one_le_zero)

definition read_parity :: "bool \<Rightarrow> nat \<Rightarrow> u32 \<Rightarrow> u64 \<Rightarrow> 'd rsys \<Rightarrow> (int \<times> 'd rsys) result" where
  "read_parity r4 D = (if r4 then read_raid4 D else read_raid5 D)"

definition write_parity :: "bool \<Rightarrow> nat \<Rightarrow> u32 \<Rightarrow> u64 \<Rightarrow> 'd rsys \<Rightarrow> (int \<times> 'd rsys) result" where
  "write_parity r4 D = (if r4 then write_raid4 D else write_raid5 D)"

text \<open>The arithmetic of the functions finds the stripe, the parity column and the data column.\<close>

lemma raid5_numbers:
  fixes n b :: u32
  assumes n: "unat n = D" "2 \<le> D" "D \<le> 6" and st: "stripe_of D (unat b) < 2 ^ 31"
  shows "unat (raid5_stripe n b) = stripe_of D (unat b)"
    and "unat (raid5_parity n (raid5_stripe n b) - 1) = parity_col False D (stripe_of D (unat b))"
    and "unat (raid5_data n (raid5_parity n (raid5_stripe n b)) b) = Suc (data_col False D (unat b))"
proof -
  let ?st = "stripe_of D (unat b)" and ?p = "raid5_parity n (raid5_stripe n b)"
  have n1: "unat (n - 1) = D - 1" using unat_pred[of n] n by simp
  show u1: "unat (raid5_stripe n b) = ?st"
    unfolding raid5_stripe_def using unat_div_plus1[of b "n - 1"] st n1 by (simp add: stripe_of_def)
  have "unat (raid5_stripe n b - 1) = ?st - 1"
    using unat_pred[of "raid5_stripe n b"] u1 by (simp add: stripe_of_def)
  then have m: "unat ((raid5_stripe n b - 1) mod n) = (?st - 1) mod D"
    using n by (simp add: unat_mod_distrib)
  have lt: "(?st - 1) mod D < D" using n by simp
  have up: "unat ?p = D - (?st - 1) mod D"
    unfolding raid5_parity_def using m n lt by (subst unat_sub) (simp_all add: word_le_nat_alt)
  show "unat (?p - 1) = parity_col False D ?st"
    using unat_pred[of ?p] up lt by (simp add: parity_col_def)
  have sp: "D - (?st - 1) mod D = Suc (parity_col False D ?st)"
    using lt by (simp add: parity_col_def)
  have um: "unat (b mod (n - 1)) = unat b mod (D - 1)" using n1 by (simp add: unat_mod_distrib)
  have "unat b mod (D - 1) < D - 1" using n by simp
  then have "Suc (parity_col False D ?st) + unat b mod (D - 1) < 12"
    using parity_col_less[OF n(2), of False ?st] n by linarith
  then have "Suc (parity_col False D ?st) + unat b mod (D - 1) < 2 ^ 32" by simp
  then have "unat (?p + b mod (n - 1)) = Suc (parity_col False D ?st) + unat b mod (D - 1)"
    unfolding unat_word_ariths(1) up um sp by simp
  then have "unat ((?p + b mod (n - 1)) mod n) = data_col False D (unat b)"
    using n by (simp add: unat_mod_distrib data_col_def)
  then show "unat (raid5_data n ?p b) = Suc (data_col False D (unat b))"
    unfolding raid5_data_def using unat_plus1[of "(?p + b mod (n - 1)) mod n"] data_col_less[OF n(2), of False "unat b"] n
    by (simp add: data_cols_def)
qed

lemma raid4_numbers:
  fixes n b :: u32
  assumes n: "unat n = D - 1" "2 \<le> D" "D \<le> 6" and st: "stripe_of D (unat b) < 2 ^ 31"
  shows "unat (b div n + 1) = stripe_of D (unat b)"
    and "unat (b mod n + 1) = Suc (data_col True D (unat b))"
  using unat_div_plus1[of b n] unat_mod_plus1[of n b] n st
  by (simp_all add: stripe_of_def data_col_def)

lemma parity_rep_fields:
  assumes "parity_rep r4 D nblk L dead s"
  shows "\<not> max_dead_disks s \<le> num_dead_disks s" "nblk \<le> 2 ^ 31" "geometry r4 D s"
  using assms by (auto simp: parity_rep_def status_ok_def raid_ready_def vio_ok_def word_le_nat_alt split: if_splits)

lemma read_parity_rep:
  assumes rep: "parity_rep r4 D nblk L dead s" and b: "stripe_of D (unat blkn) < nblk"
    and u: "user_buf a BLOCKSIZE s"
  shows "\<exists>s'. read_parity r4 D blkn a s = Inr (0, s') \<and> parity_rep r4 D nblk L dead s' \<and>
     user_data a s' = L (stripe_of D (unat blkn)) (data_col r4 D (unat blkn)) \<and> frame a BLOCKSIZE s s' \<and>
     unat (cache_stripe D s') = stripe_of D (unat blkn)"
proof -
  note D = parity_rep_D[OF rep, THEN conjunct1] parity_rep_D[OF rep, THEN conjunct2]
  note f = parity_rep_fields[OF rep]
  have lt: "stripe_of D (unat blkn) < 2 ^ 31" using b f(2) by simp
  have st1: "1 \<le> stripe_of D (unat blkn)" by (simp add: stripe_of_def)
  show ?thesis
  proof (cases r4)
    case True
    have n: "unat (num_of_disks s) = D - 1" "unat (parity_disk D s) = parity_col r4 D (stripe_of D (unat blkn))"
      using f(3) True by (simp_all add: geometry_def)
    have nz: "num_of_disks s \<noteq> 0" using n(1) D by (auto simp: unat_eq_0[symmetric])
    note num = raid4_numbers[OF n(1) D lt]
    have "read_parity r4 D blkn a s =
        (if cache_stripe D s = blkn div num_of_disks s + 1 then read_cached D (Suc (data_col r4 D (unat blkn))) a s
         else rbind (cache D (blkn div num_of_disks s + 1) (parity_disk D s) s)
                (read_cached D (Suc (data_col r4 D (unat blkn))) a))"
      using f(1) nz num(2) True by (simp add: read_parity_def read_raid4_def Let_def)
    then show ?thesis
      by (simp only: read_stripe_rep[OF rep num(1) st1 b n(2) data_col_less[OF D(1)] u])
  next
    case False
    have n: "unat (num_of_disks s) = D" using f(3) False by (simp add: geometry_def)
    have nz: "num_of_disks s \<noteq> 0" "num_of_disks s \<noteq> 1" using n D by auto
    note num = raid5_numbers[OF n D lt]
    define sp where "sp = raid5_stripe (num_of_disks s) blkn"
    define pp where "pp = raid5_parity (num_of_disks s) sp - 1"
    have up: "unat pp = parity_col r4 D (stripe_of D (unat blkn))" using num(2) False by (simp add: pp_def sp_def)
    have "read_parity r4 D blkn a s =
        (if cache_stripe D s = sp then read_cached D (Suc (data_col r4 D (unat blkn))) a s
         else rbind (cache D sp pp s) (read_cached D (Suc (data_col r4 D (unat blkn))) a))"
      using f(1) nz num(3) False by (simp add: read_parity_def read_raid5_def Let_def sp_def pp_def)
    then show ?thesis
      by (simp only: read_stripe_rep[OF rep num(1)[folded sp_def] st1 b up data_col_less[OF D(1)] u])
  qed
qed

definition write_stripe :: "nat \<Rightarrow> u32 \<Rightarrow> u32 \<Rightarrow> nat \<Rightarrow> u64 \<Rightarrow> 'd rsys \<Rightarrow> (int \<times> 'd rsys) result" where
  "write_stripe D stripe pdisk k a s =
     (if cache_stripe D s = stripe
        then rbind (raid_write_updateparity_cache D (Suc k) a s) (\<lambda>s1. Inr (0, s1))
        else rbind (cache D stripe pdisk s) (\<lambda>s1.
             rbind (disk_state (int (Suc k) - 1) s1) (\<lambda>st.
             rbind (if st = DEAD then raid_tocache_recovery D (Suc k) s1 else Inr s1) (\<lambda>s2.
             rbind (raid_write_updateparity_cache D (Suc k) a s2) (\<lambda>s3. Inr (0, s3))))))"

lemma write_parity_rep:
  assumes rep: "parity_rep r4 D nblk L dead s" and b: "stripe_of D (unat blkn) < nblk"
    and u: "user_buf a BLOCKSIZE s"
  shows "\<exists>s'. write_parity r4 D blkn a s = Inr (0, s') \<and> page_only s s' \<and>
     parity_rep r4 D nblk (write_column r4 D (stripe_of D (unat blkn)) (data_col r4 D (unat blkn))
       (stored D L (stripe_of D (unat blkn)) (data_col r4 D (unat blkn)) (user_data a s) s) L) dead s'"
proof -
  note D = parity_rep_D[OF rep, THEN conjunct1] parity_rep_D[OF rep, THEN conjunct2]
  note f = parity_rep_fields[OF rep]
  have lt: "stripe_of D (unat blkn) < 2 ^ 31" using b f(2) by simp
  have st1: "1 \<le> stripe_of D (unat blkn)" by (simp add: stripe_of_def)
  note col = data_col_less[OF D(1), of r4 "unat blkn"] data_col_not_parity[OF D(1), of r4 "unat blkn"]
  show ?thesis
  proof (cases r4)
    case True
    have n: "unat (num_of_disks s) = D - 1" "unat (parity_disk D s) = parity_col r4 D (stripe_of D (unat blkn))"
      using f(3) True by (simp_all add: geometry_def)
    have nz: "num_of_disks s \<noteq> 0" using n(1) D by (auto simp: unat_eq_0[symmetric])
    note num = raid4_numbers[OF n(1) D lt]
    have wp: "write_parity r4 D blkn a s = write_raid4 D blkn a s" using True by (simp add: write_parity_def)
    have eq: "write_parity r4 D blkn a s = write_stripe D (blkn div num_of_disks s + 1) (parity_disk D s)
        (data_col r4 D (unat blkn)) a s"
      using f(1) nz unfolding wp[unfolded eqTrueI[OF True]] eqTrueI[OF True] write_raid4_def write_stripe_def Let_def num(2)
      by simp
    show ?thesis
      unfolding eq write_stripe_def using write_stripe_rep[OF rep num(1) st1 b n(2) col u] by blast
  next
    case False
    have n: "unat (num_of_disks s) = D" using f(3) False by (simp add: geometry_def)
    have nz: "num_of_disks s \<noteq> 0" "num_of_disks s \<noteq> 1" using n D by auto
    note num = raid5_numbers[OF n D lt]
    define sp where "sp = raid5_stripe (num_of_disks s) blkn"
    define pp where "pp = raid5_parity (num_of_disks s) sp - 1"
    have up: "unat pp = parity_col r4 D (stripe_of D (unat blkn))" using num(2) False by (simp add: pp_def sp_def)
    have r: "r4 = False" using False by simp
    have wp: "write_parity r4 D blkn a s = write_raid5 D blkn a s" using False by (simp add: write_parity_def)
    have eq: "write_parity r4 D blkn a s = write_stripe D sp pp (data_col r4 D (unat blkn)) a s"
      using f(1) nz
      unfolding wp[unfolded r] r write_raid5_def write_stripe_def Let_def
        sp_def pp_def num(3) by simp
    show ?thesis
      unfolding eq write_stripe_def
      using write_stripe_rep[OF rep num(1)[folded sp_def] st1 b up col u] by blast
  qed
qed

text \<open>The caller's bytes are stored unless the disk is dead and its stripe is cached.\<close>

lemma stored_same:
  assumes "parity_rep r4 D nblk L dead s" "1 \<le> st" "st < nblk" "k < D" "length bs = BLOCKSIZE"
    and "dead \<noteq> Some k \<or> unat (cache_stripe D s) \<noteq> st"
  shows "stored D L st k bs s = bs"
  using assms by (auto simp: stored_def parity_rep_def Let_def in_slots_def intro!: merged_same)

end
