(* ===== verification/Raid_Admin.thy ===== *)
theory Raid_Admin
  imports Raid_RW
begin

unbundle bit_operations_syntax

text \<open>
  \<^verbatim>\<open>kernel/raid.c\<close>: creating, destroying and querying the array, reporting a disk as failed or
  repaired, and the dispatch of a read or write on the RAID level.  \<open>D\<close> and \<open>DISK_SIZE\<close> are
  the build parameters, \<open>pagetable\<close> is that of the calling process and \<open>kend\<close> the end of
  the kernel image.
\<close>

section \<open>Creating and destroying the array\<close>

definition set_flds :: "(nat \<times> u32) list \<Rightarrow> 'd rsys \<Rightarrow> 'd rsys" where
  "set_flds = fold (\<lambda>(i, v). set_fld i v)"

definition capacity :: "nat \<Rightarrow> u32 \<Rightarrow> u32" where
  "capacity DISK_SIZE n = n * of_int (int (DISK_SIZE div BLOCKSIZE) - 1)"

text \<open>The case of \<^verbatim>\<open>RAID1\<close>, into which that of \<^verbatim>\<open>RAID0_1\<close> falls through.\<close>

definition init_mirror :: "nat \<Rightarrow> nat \<Rightarrow> 'd rsys \<Rightarrow> 'd rsys" where
  "init_mirror D DISK_SIZE s =
     (let n = of_nat (D div 2); reserve = (if D mod 2 = 0 then -1 else of_nat D) in
      set_flds ([(2, n), (W_reserve_disk D, reserve), (6, n + 1 + (if reserve \<noteq> -1 then 1 else 0))] @
         concat (map (\<lambda>i. [(W_data_disks D + i, of_nat (i + 1)),
                           (W_copy_disks D + i, of_nat (i + 1 + D div 2))]) [0..<D div 2]) @
         [(4, capacity DISK_SIZE n)]) s)"

definition init_type :: "nat \<Rightarrow> nat \<Rightarrow> u32 \<Rightarrow> 'd rsys \<Rightarrow> 'd rsys" where
  "init_type D DISK_SIZE raid s =
     (if raid = RAID0_1 then init_mirror D DISK_SIZE (set_fld (W_stripe_cursor D) (-1) s)
      else if raid = RAID1 then init_mirror D DISK_SIZE s
      else if raid = RAID4
      then set_flds [(6, 2), (W_parity_disk D, of_nat D - 1), (2, num_of_disks s - 1)] s
      else if raid = RAID5 then set_fld 6 2 s
      else s)"

definition init_raid :: "nat \<Rightarrow> nat \<Rightarrow> u32 \<Rightarrow> 'd rsys \<Rightarrow> (int \<times> 'd rsys) result" where
  "init_raid D DISK_SIZE raid s0 =
     rbind (fetch D s0) (\<lambda>s.
     let s1 = set_flds [(0, 1), (1, raid), (3, of_nat BLOCKSIZE), (2, of_nat D), (5, 0),
                        (W_reserve_disk D, -1), (4, capacity DISK_SIZE (of_nat D))] s;
         s2 = init_type D DISK_SIZE raid s1 in
     rbind (rfold (\<lambda>i s.
         write_block_from (int i) 0 (raid_metadata s)
           (set_cached_data_disks D (i - 1) (raid_metadata s + of_nat (BLOCKSIZE * i)) s)) [1..<Suc D] s2)
       (\<lambda>s3. Inr (0, s3)))"

definition destroy_raid :: "nat \<Rightarrow> u64 \<Rightarrow> 'd rsys \<Rightarrow> (int \<times> 'd rsys) result" where
  "destroy_raid D kend s0 =
     rbind (if raid_metadata s0 = 0 \<or> raid_initialized s0 = 0
            then case kalloc (km s0) of
                   (data, k) \<Rightarrow> rbind (read_block_to 1 0 data (s0\<lparr>km := k\<rparr>)) (\<lambda>s.
                                  Inr (s\<lparr>raid_metadata := data\<rparr>))
            else Inr s0) (\<lambda>s.
     if raid_metadata s = 0 \<or> raid_initialized s = 0 then Inr (0, s)
     else rbind (writeback D (set_mem (mem_fill (mem s) (raid_metadata s) 0 PGSIZE) s)) (\<lambda>s1.
          rbind (kfree kend (raid_metadata s1) (km s1)) (\<lambda>k.
          Inr (0, s1\<lparr>km := k, raid_metadata := 0\<rparr>))))"

section \<open>Reading, writing and querying\<close>

definition OFFSET :: u64 where [const_simps]: "OFFSET = 0xFFF"

text \<open>The table of functions; an index outside it has no meaning.\<close>

definition raid_rw :: "nat \<Rightarrow> u32 \<Rightarrow> u32 \<Rightarrow> u64 \<Rightarrow> 'd rsys \<Rightarrow> (int \<times> 'd rsys) result" where
  "raid_rw D ix blkn paddr s =
     (if ix = 0 then read_raid0 blkn paddr s
      else if ix = 1 then write_raid0 blkn paddr s
      else if ix = 2 then read_raid1 D blkn paddr s
      else if ix = 3 then write_raid1 D blkn paddr s
      else if ix = 4 then read_raid01 D blkn paddr s
      else if ix = 5 then write_raid01 D blkn paddr s
      else if ix = 6 then read_raid4 D blkn paddr s
      else if ix = 7 then write_raid4 D blkn paddr s
      else if ix = 8 then read_raid5 D blkn paddr s
      else if ix = 9 then write_raid5 D blkn paddr s
      else Inl OutOfBounds)"

definition user_paddr :: "u64 \<Rightarrow> u64 \<Rightarrow> 'd rsys \<Rightarrow> u64" where
  "user_paddr pagetable va s = walkaddr pagetable va (km s) OR (va AND OFFSET)"

definition rw_refused :: "u32 \<Rightarrow> u64 \<Rightarrow> 'd rsys \<Rightarrow> bool" where
  "rw_refused blkn vaddr s \<longleftrightarrow> raid_metadata s = 0 \<or> raid_initialized s = 0 \<or> sint blkn < 0 \<or>
     max_blocks s \<le> blkn \<or> vaddr = 0"

definition read_raid :: "nat \<Rightarrow> u64 \<Rightarrow> u32 \<Rightarrow> u64 \<Rightarrow> 'd rsys \<Rightarrow> (int \<times> 'd rsys) result" where
  "read_raid D pagetable blkn vaddr_data s =
     (if rw_refused blkn vaddr_data s then Inr (-1, s)
      else raid_rw D (push_bit 1 (raid_type s)) blkn (user_paddr pagetable vaddr_data s) s)"

definition write_raid :: "nat \<Rightarrow> u64 \<Rightarrow> u32 \<Rightarrow> u64 \<Rightarrow> 'd rsys \<Rightarrow> (int \<times> 'd rsys) result" where
  "write_raid D pagetable blkn vaddr_data s =
     (if rw_refused blkn vaddr_data s then Inr (-1, s)
      else raid_rw D (push_bit 1 (raid_type s) + 1) blkn (user_paddr pagetable vaddr_data s) s)"

definition info_raid :: "nat \<Rightarrow> u64 \<Rightarrow> u64 \<Rightarrow> u64 \<Rightarrow> u64 \<Rightarrow> 'd rsys \<Rightarrow> (int \<times> 'd rsys) result" where
  "info_raid D pagetable v_blkn v_blks v_disks s0 =
     rbind (fetch D s0) (\<lambda>s.
     if raid_initialized s = 0 then Inr (-1, s)
     else let p_blkn = user_paddr pagetable v_blkn s; p_blks = user_paddr pagetable v_blks s;
              p_disks = user_paddr pagetable v_disks s in
       rbind (store32 p_blkn (max_blocks s) s) (\<lambda>s.
       rbind (store32 p_blks (block_size s) s) (\<lambda>s.
       rbind (store32 p_disks (num_of_disks s) s) (\<lambda>s. Inr (0, s)))))"

section \<open>Failed and repaired disks\<close>

text \<open>The search loops: the last index whose word is \<open>v\<close>, and the first one.\<close>

definition find_last_word :: "nat \<Rightarrow> u32 \<Rightarrow> 'd rsys \<Rightarrow> int result" where
  "find_last_word base v s =
     rfold (\<lambda>i r. rbind (raid_word base (int i) s) (\<lambda>w. Inr (if w = v then int i else r)))
       [0..<unat (num_of_disks s)] (-1)"

fun find_first_word :: "nat \<Rightarrow> u32 \<Rightarrow> nat list \<Rightarrow> 'd rsys \<Rightarrow> nat option result" where
  "find_first_word base v [] s = Inr None"
| "find_first_word base v (i # is) s =
     rbind (raid_word base (int i) s) (\<lambda>w. if w = v then Inr (Some i) else find_first_word base v is s)"

definition sync_meta :: "nat \<Rightarrow> 'd rsys \<Rightarrow> (int \<times> 'd rsys) result" where
  "sync_meta D s = rbind (writeback D s) (\<lambda>s1. Inr (0, s1))"

definition disk_fail_raid :: "nat \<Rightarrow> int \<Rightarrow> 'd rsys \<Rightarrow> (int \<times> 'd rsys) result" where
  "disk_fail_raid D diskn s0 =
     (if raid_metadata s0 = 0 \<or> raid_initialized s0 = 0 \<or> diskn < 1 \<or> int D < diskn then Inr (-1, s0)
      else rbind (disk_state (diskn - 1) s0) (\<lambda>st.
      if st = DEAD then Inr (0, s0)
      else rbind (set_raid_word W_disk_state (diskn - 1) DEAD s0) (\<lambda>s1.
      let s = set_fld 5 (num_dead_disks s1 + 1) s1 in
      if raid_type s = RAID0 \<or> raid_type s = RAID4 \<or> raid_type s = RAID5 then sync_meta D s
      else if reserve_disk D s \<noteq> -1 \<and> reserve_disk D s \<noteq> 0
      then if of_int diskn \<le> num_of_disks s
           then rbind (copy_disks D (diskn - 1) s) (\<lambda>c.
                rbind (set_raid_word (W_data_disks D) (diskn - 1) c s) (\<lambda>s.
                rbind (set_raid_word (W_copy_disks D) (diskn - 1) (reserve_disk D s) s) (\<lambda>s.
                sync_meta D (set_fld (W_reserve_disk D) 0 s))))
           else rbind (set_raid_word (W_copy_disks D) (int D - diskn) (reserve_disk D s) s) (\<lambda>s.
                sync_meta D (set_fld (W_reserve_disk D) 0 s))
      else rbind (find_last_word (W_data_disks D) (of_int diskn) s) (\<lambda>primary.
           if primary \<noteq> -1
           then rbind (copy_disks D primary s) (\<lambda>c.
                rbind (set_raid_word (W_data_disks D) primary c s) (\<lambda>s.
                rbind (set_raid_word (W_copy_disks D) primary (-1) s) (sync_meta D)))
           else rbind (find_last_word (W_copy_disks D) (of_int diskn) s) (\<lambda>copy.
                rbind (set_raid_word (W_copy_disks D) copy (-1) s) (sync_meta D))))))"

definition disk_repaired_raid :: "nat \<Rightarrow> int \<Rightarrow> 'd rsys \<Rightarrow> (int \<times> 'd rsys) result" where
  "disk_repaired_raid D diskn s0 =
     (if raid_metadata s0 = 0 \<or> raid_initialized s0 = 0 \<or> diskn < 1 \<or> int D < diskn then Inr (-1, s0)
      else rbind (disk_state (diskn - 1) s0) (\<lambda>st.
      if st \<noteq> DEAD then Inr (0, s0)
      else rbind (set_raid_word W_disk_state (diskn - 1) REPAIRED s0) (\<lambda>s1.
      let s = set_fld 5 (num_dead_disks s1 - 1) s1 in
      if raid_type s = RAID0 \<or> raid_type s = RAID4 \<or> raid_type s = RAID5 then sync_meta D s
      else rbind (find_first_word (W_data_disks D) (-1) [0..<unat (num_of_disks s)] s) (\<lambda>r.
        case r of
          Some i \<Rightarrow> rbind (set_raid_word (W_data_disks D) (int i) (of_int diskn) s) (sync_meta D)
        | None \<Rightarrow>
           rbind (find_first_word (W_copy_disks D) (-1) [0..<unat (num_of_disks s)] s) (\<lambda>r.
             case r of
               Some i \<Rightarrow> rbind (set_raid_word (W_copy_disks D) (int i) (of_int diskn) s) (sync_meta D)
             | None \<Rightarrow> sync_meta D (set_fld (W_reserve_disk D) (of_int diskn) s))))))"

end
