(* ===== verification/Raid_Init.thy ===== *)
theory Raid_Init
  imports Raid_Stripes Raid_Admin
begin

unbundle bit_operations_syntax

declare upt_Suc [simp del]

text \<open>
  Bringing the array up: what \<^verbatim>\<open>fetch\<close> restores from block 0, what \<^verbatim>\<open>writeback\<close> and
  \<^verbatim>\<open>init_raid\<close> store there, and that a fresh array of zeroed disks satisfies the
  invariants of its level.
\<close>

section \<open>The pointers to the slots\<close>

lemma set_cached_write:
  "set_cached_data_disks D k p s =
     set_mem (mem_write (mem s) (raid_metadata s + of_nat (4 * (W_cache D + 2) + 8 * k)) (le64 p)) s"
  by (simp add: set_cached_data_disks_def put64_def)

lemma set_cached_simps [simp]: "raid_metadata (set_cached_data_disks D k p s) = raid_metadata s"
  "vd (set_cached_data_disks D k p s) = vd s"
  "freelist (km (set_cached_data_disks D k p s)) = freelist (km s)"
  by (simp_all add: set_cached_data_disks_def)

lemma pg_set_cached:
  assumes "k < D" "D \<le> 6" "x < PGSIZE"
  shows "pg (set_cached_data_disks D k p s) x =
     (if 4 * (W_cache D + 2) + 8 * k \<le> x \<and> x < 4 * (W_cache D + 2) + 8 * k + 8
      then le64 p ! (x - (4 * (W_cache D + 2) + 8 * k)) else pg s x)"
  unfolding set_cached_write using assms
  by (subst pg_write) (simp_all add: PGSIZE_def W_cache_def)

lemma fld_set_cached [simp]:
  assumes "k < D" "D \<le> 6" "i < W_cache D + 2"
  shows "fld i (set_cached_data_disks D k p s) = fld i s"
proof -
  have "i < 1024" using assms by (simp add: W_cache_def)
  then show ?thesis
    using assms by (auto simp: fld_pg pg_set_cached PGSIZE_def W_cache_def intro!: arg_cong[of _ _ rd32])
qed

lemma slot_set_cached [simp]:
  assumes "k < D" "D \<le> 6"
  shows "slot (set_cached_data_disks D k p s) = slot s"
  using assms by (auto simp: slot_def fun_eq_iff pg_set_cached const_simps W_cache_def)

lemma slot_ptr_set_cached:
  assumes "k < D" "j < D" "D \<le> 6"
  shows "slot_ptr D j (set_cached_data_disks D k p s) = (if j = k then p else slot_ptr D j s)"
proof (cases "j = k")
  case True
  then show ?thesis by (simp add: slot_ptr_def set_cached_data_disks_def)
next
  case False
  have b: "4 * (W_cache D + 2) + 8 * j + 8 \<le> PGSIZE"
    using assms by (simp add: W_cache_def PGSIZE_def)
  have "slot_ptr D j (set_cached_data_disks D k p s) = slot_ptr D j s"
    unfolding slot_ptr_pg[OF b]
    by (rule arg_cong[of _ _ rd64]) (use assms False in \<open>auto simp: pg_set_cached W_cache_def PGSIZE_def\<close>)
  with False show ?thesis by simp
qed

lemma page_only_set_cached:
  assumes "k < D" "D \<le> 6"
  shows "page_only s (set_cached_data_disks D k p s)"
  unfolding set_cached_write by (rule page_only_write) (use assms in \<open>simp add: W_cache_def PGSIZE_def\<close>)

lemma set_slots_loop:
  assumes "m \<le> D" "D \<le> 6"
    and "s' = fold (\<lambda>i s. set_cached_data_disks D i (raid_metadata s + of_nat (BLOCKSIZE * (i + 1))) s) [0..<m] s"
  shows "page_only s s' \<and> vd s' = vd s \<and> slot s' = slot s \<and> (\<forall>i<W_cache D + 2. fld i s' = fld i s) \<and>
     (\<forall>k<m. slot_ptr D k s' = slot_addr s' k)"
  using assms
proof (induction m arbitrary: s')
  case 0
  then show ?case by simp
next
  case (Suc m)
  define t where "t = fold (\<lambda>i s. set_cached_data_disks D i (raid_metadata s + of_nat (BLOCKSIZE * (i + 1))) s) [0..<m] s"
  have t: "page_only s t" "vd t = vd s" "slot t = slot s" "\<forall>i<W_cache D + 2. fld i t = fld i s"
      "\<forall>k<m. slot_ptr D k t = slot_addr t k"
    using Suc.IH[of t] Suc.prems by (auto simp: t_def)
  have s': "s' = set_cached_data_disks D m (slot_addr t m) t"
    using Suc.prems(3) unfolding t_def by (simp add: upt_Suc slot_addr_def)
  have "slot_ptr D k s' = slot_addr s' k" if "k < Suc m" for k
    using that t(5) Suc.prems(1,2) unfolding s'
    by (subst slot_ptr_set_cached) (auto simp: slot_addr_def less_Suc_eq)
  moreover have "page_only s s'"
    unfolding s' by (rule page_only_trans[OF t(1) page_only_set_cached]) (use Suc.prems in auto)
  moreover have "vd s' = vd s" "slot s' = slot s" "\<forall>i<W_cache D + 2. fld i s' = fld i s"
    using t(2-4) Suc.prems(1,2) unfolding s' by simp_all
  ultimately show ?case by blast
qed

lemma set_slots_ok:
  assumes "D \<le> 6"
  shows "page_only s (set_slots D s)" "vd (set_slots D s) = vd s" "slot (set_slots D s) = slot s"
    "\<And>i. i < W_cache D + 2 \<Longrightarrow> fld i (set_slots D s) = fld i s"
    "\<And>k. k < D \<Longrightarrow> slot_ptr D k (set_slots D s) = slot_addr (set_slots D s) k"
  using set_slots_loop[OF order_refl assms, of "set_slots D s" s] by (auto simp: set_slots_def)

section \<open>Restoring the metadata\<close>

definition block_word :: "byte list \<Rightarrow> nat \<Rightarrow> u32" where
  "block_word bs i = rd32 (map (\<lambda>x. bs ! x) [4 * i..<4 * i + 4])"

lemma fld_block_word:
  assumes "\<And>x. x < BSIZE \<Longrightarrow> pg s x = bs ! x" "i < 256"
  shows "fld i s = block_word bs i"
  using assms by (auto simp: fld_pg block_word_def BSIZE_def intro!: arg_cong[of _ _ rd32])

text \<open>
  \<^verbatim>\<open>fetch\<close> with a fresh page: the fields are those of block 0 of disk 1 when word 8 there,
  \<^verbatim>\<open>disk_state[1]\<close>, is not \<^verbatim>\<open>DEAD\<close>; the cache is marked empty and its pointers are set.
\<close>

lemma fetch_ok:
  assumes D: "2 \<le> D" "D \<le> 6" and v: "vio_ok D nblk (vd s)" and nb: "1 \<le> nblk"
    and un: "raid_metadata s = 0 \<or> raid_initialized s = 0"
    and al: "kalloc (km s) = (a, k)" "a \<noteq> 0" "ram a PGSIZE"
    and d2: "block_word (dblocks D nblk s 1 0) 8 \<noteq> DEAD"
  shows "\<exists>s'. fetch D s = Inr s' \<and> raid_metadata s' = a \<and> raid_ready D nblk s' \<and>
     freelist (km s') = freelist k \<and> (\<forall>x. \<not> within a PGSIZE x \<longrightarrow> mem s' x = phys k x) \<and>
     dblocks D nblk s' = dblocks D nblk s \<and>
     (\<forall>i<W_cache D + 2. fld i s' = (if i < W_cache D then block_word (dblocks D nblk s 1 0) i else -1))"
proof -
  define bs where "bs = dblocks D nblk s 1 0"
  define s0 where "s0 = s\<lparr>km := k\<lparr>phys := mem_fill (phys k) a 0 PGSIZE\<rparr>\<rparr>"
  have len: "length bs = BSIZE" unfolding bs_def by (rule vio.blk_len[OF v]) (use D nb in auto)
  obtain w where w: "read_block 1 0 (vd s0) = Inr (bs, w)" "vio_ok D nblk w" "blocks D nblk w = dblocks D nblk s"
    using vio.rd_ok[OF v, of 1 0] D nb by (auto simp: s0_def bs_def)
  define s1 where "s1 = (set_mem (mem_write (mem s0) a bs) (s0\<lparr>vd := w\<rparr>))\<lparr>raid_metadata := a\<rparr>"
  have ram: "ram a BSIZE" using ram_offset[OF al(3), of 0 BSIZE] by (simp add: const_simps)
  have pg1: "pg s1 x = bs ! x" if "x < BSIZE" for x
    using mem_write_at[of x 0 bs "mem s0" a] that len by (simp add: pg_def s1_def BSIZE_def)
  have f1: "fld i s1 = block_word bs i" if "i < 256" for i
    by (rule fld_block_word[OF pg1 that])
  have m1: "raid_metadata s1 = a" "vd s1 = w" by (simp_all add: s1_def)
  have ds: "disk_state 1 s1 = Inr (block_word bs 8)"
    using raid_word_fld[of s1 W_disk_state 1] al(3) m1 f1[of 8] by (simp add: W_disk_state_def)
  have split: "[1..<Suc D] = 1 # [2..<Suc D]" using D upt_conv_Cons[of 1 "Suc D"] by (simp add: numeral_2_eq_2)
  have fl: "fetch_loop a [1..<Suc D] s0 = Inr s1"
    using w(1) ram len ds d2[folded bs_def] al(2) unfolding split fetch_loop.simps s1_def
    by (simp add: read_block_to_def store_def Let_def)
  define s2 where "s2 = set_fld (W_cache D + 1) (-1) (set_fld (W_cache D) (-1) s1)"
  have W: "W_cache D + 2 \<le> 128" using D by (simp add: W_cache_def)
  have f2: "fld i s2 = (if i < W_cache D then block_word bs i else -1)" if "i < W_cache D + 2" for i
    using that W f1[of i] by (auto simp: s2_def fld_set_fld)
  define s3 where "s3 = set_slots D s2"
  have fe: "fetch D s = Inr s3"
    using un al(1,2) fl unfolding fetch_def s3_def s2_def by (simp add: s0_def[symmetric])
  note ss = set_slots_ok[OF D(2), where s = s2]
  have po: "page_only s1 s3"
  proof -
    have "page_only s1 s2" unfolding s2_def using W
      by (intro page_only_trans[OF page_only_set_fld page_only_set_fld]) simp_all
    then show ?thesis unfolding s3_def by (rule page_only_trans[OF _ ss(1)])
  qed
  have out: "mem s3 x = phys k x" if "\<not> within a PGSIZE x" for x
  proof -
    have "mem s3 x = mem s1 x" using po that by (simp add: page_only_def m1)
    moreover have "\<not> within a (length bs) x"
      using that within_mono[of a "length bs" x PGSIZE] len by (auto simp: const_simps)
    ultimately show ?thesis using that by (simp add: s1_def s0_def mem_write_outside mem_fill_outside)
  qed
  have "raid_metadata s3 = a" "freelist (km s3) = freelist k"
    using po by (simp_all add: page_only_def m1) (simp add: s1_def s0_def)
  moreover have "vd s3 = w" unfolding s3_def ss(2) by (simp add: s2_def m1)
  moreover have "\<forall>k<D. slot_ptr D k s3 = slot_addr s3 k" using ss(5) unfolding s3_def by blast
  moreover have "\<forall>i<W_cache D + 2. fld i s3 = (if i < W_cache D then block_word bs i else -1)"
    using ss(4) f2 unfolding s3_def by simp
  ultimately show ?thesis
    using fe out w(2,3) al(3) D unfolding bs_def by (auto simp: raid_ready_def raid_wf_def)
qed

section \<open>Storing the metadata\<close>

definition meta_block :: "'d rsys \<Rightarrow> byte list" where
  "meta_block s = map (pg s) [0..<BSIZE]"

lemma meta_block_vd [simp]: "meta_block (s\<lparr>vd := v\<rparr>) = meta_block s"
  by (simp add: meta_block_def)

lemma block_word_meta: "j < 256 \<Longrightarrow> block_word (meta_block s) j = fld j s"
  by (rule fld_block_word[symmetric]) (simp_all add: meta_block_def)

lemma write_meta_block:
  assumes r: "raid_ready D nblk s" and i: "1 \<le> i" "i \<le> D" and nb: "1 \<le> nblk"
  shows "\<exists>v. write_block_from (int i) 0 (raid_metadata s) s = Inr (s\<lparr>vd := v\<rparr>) \<and> vio_ok D nblk v \<and>
     blocks D nblk v = upd2 (dblocks D nblk s) i 0 (meta_block s)"
proof -
  have ok: "raid_wf D s" "vio_ok D nblk (vd s)" using r by (simp_all add: raid_ready_def)
  have "ram (raid_metadata s) BSIZE"
    using ram_offset[of "raid_metadata s" PGSIZE 0 BSIZE] ok(1) by (simp add: raid_wf_def const_simps)
  then have ld: "load (raid_metadata s) BSIZE s = Inr (meta_block s)"
    by (simp add: load_def meta_block_def mem_read_def pg_def)
  have len: "length (meta_block s) = BSIZE" by (simp add: meta_block_def)
  then obtain v where "write_block (int i) 0 (meta_block s) (vd s) = Inr v" "vio_ok D nblk v"
      "blocks D nblk v = upd2 (dblocks D nblk s) i 0 (meta_block s)"
    using vio.wr_ok[OF ok(2) i, of 0 "meta_block s"] nb by auto
  with ld show ?thesis by (intro exI[of _ v]) (simp add: write_block_from_def)
qed

definition kept :: "'d rsys \<Rightarrow> nat \<Rightarrow> bool" where
  "kept s d \<longleftrightarrow> fld (W_disk_state + d) s = ALIVE \<or> fld (W_disk_state + d) s = REPAIRED"

lemma writeback_loop:
  assumes r: "raid_ready D nblk s" and m: "m \<le> D" and nb: "1 \<le> nblk"
  shows "\<exists>v. rfold (\<lambda>i s. rbind (disk_state (int i - 1) s) (\<lambda>st.
        if st = ALIVE \<or> st = REPAIRED then write_block_from (int i) 0 (raid_metadata s) s else Inr s))
       [1..<Suc m] s = Inr (s\<lparr>vd := v\<rparr>) \<and> vio_ok D nblk v \<and>
     blocks D nblk v = (\<lambda>i b. if 1 \<le> i \<and> i \<le> m \<and> b = 0 \<and> kept s (i - 1) then meta_block s
                               else dblocks D nblk s i b)"
  using m
proof (induction m)
  case 0
  have "s\<lparr>vd := vd s\<rparr> = s" by simp
  moreover have "vio_ok D nblk (vd s)" using r by (simp add: raid_ready_def)
  ultimately show ?case by (intro exI[of _ "vd s"]) (auto simp: fun_eq_iff)
next
  case (Suc m)
  let ?body = "\<lambda>i s. rbind (disk_state (int i - 1) s) (\<lambda>st.
        if st = ALIVE \<or> st = REPAIRED then write_block_from (int i) 0 (raid_metadata s) s else Inr s)"
  obtain v where v: "rfold ?body [1..<Suc m] s = Inr (s\<lparr>vd := v\<rparr>)" "vio_ok D nblk v"
     "blocks D nblk v = (\<lambda>i b. if 1 \<le> i \<and> i \<le> m \<and> b = 0 \<and> kept s (i - 1) then meta_block s
                               else dblocks D nblk s i b)"
    using Suc.IH[OF Suc_leD[OF Suc.prems]] by blast
  have r1: "raid_ready D nblk (s\<lparr>vd := v\<rparr>)" using r v(2) by (simp add: raid_ready_def)
  have im: "int (Suc m) - 1 = int m" "m < D" using Suc.prems by simp_all
  have ap: "rfold ?body [1..<Suc (Suc m)] s = ?body (Suc m) (s\<lparr>vd := v\<rparr>)"
    using v(1) by (simp add: upt_Suc rfold_append rbind_def split: sum.splits)
  have ext: "(\<lambda>i b. if 1 \<le> i \<and> i \<le> Suc m \<and> b = 0 \<and> kept s (i - 1) then meta_block s else dblocks D nblk s i b) =
      (if kept s m then upd2 (blocks D nblk v) (Suc m) 0 (meta_block s) else blocks D nblk v)"
    unfolding v(3) by (cases m) (auto simp: upd2_apply fun_eq_iff le_Suc_eq)
  show ?case
  proof (cases "kept s m")
    case True
    obtain w where "write_block_from (int (Suc m)) 0 (raid_metadata s) (s\<lparr>vd := v\<rparr>) = Inr (s\<lparr>vd := w\<rparr>)"
        "vio_ok D nblk w" "blocks D nblk w = upd2 (blocks D nblk v) (Suc m) 0 (meta_block s)"
      using write_meta_block[OF r1, of "Suc m"] Suc.prems nb by auto
    then show ?thesis
      using True unfolding ap im(1) disk_state_ok[OF r1 im(2)]
      by (intro exI[of _ w]) (simp only: ext, simp add: kept_def)
  next
    case False
    then show ?thesis
      using v(2) unfolding ap im(1) disk_state_ok[OF r1 im(2)]
      by (intro exI[of _ v]) (simp only: ext, simp add: kept_def)
  qed
qed

lemma writeback_ok:
  assumes r: "raid_ready D nblk s" and nb: "1 \<le> nblk"
  shows "\<exists>v. writeback D s = Inr (s\<lparr>vd := v\<rparr>) \<and> vio_ok D nblk v \<and>
     blocks D nblk v = (\<lambda>i b. if 1 \<le> i \<and> i \<le> D \<and> b = 0 \<and> kept s (i - 1) then meta_block s
                               else dblocks D nblk s i b)"
  unfolding writeback_def by (rule writeback_loop[OF r order_refl nb])

section \<open>Creating an array\<close>

lemma set_flds_simps [simp]: "set_flds [] s = s" "set_flds ((i, v) # xs) s = set_flds xs (set_fld i v s)"
  by (simp_all add: set_flds_def)

lemma fld_set_flds:
  "\<forall>(j, v)\<in>set xs. j < 128 \<Longrightarrow> i < 128 \<Longrightarrow>
   fld i (set_flds xs s) = (case map_of (rev xs) i of None \<Rightarrow> fld i s | Some v \<Rightarrow> v)"
proof (induction xs arbitrary: s)
  case (Cons x xs)
  obtain j v where x: "x = (j, v)" by (cases x)
  from Cons show ?case
    by (auto simp: x fld_set_fld map_add_def split: option.splits)
qed simp

definition framed :: "nat \<Rightarrow> nat \<Rightarrow> 'd rsys \<Rightarrow> 'd rsys \<Rightarrow> bool" where
  "framed D nblk s s' \<longleftrightarrow> vd s' = vd s \<and> slot s' = slot s \<and> page_only s s' \<and>
     raid_ready D nblk s' = raid_ready D nblk s"

lemma framed_trans: "framed D nblk s s' \<Longrightarrow> framed D nblk s' s'' \<Longrightarrow> framed D nblk s s''"
  by (auto simp: framed_def intro: page_only_trans)

lemma set_fld_framed: "i < W_cache D + 2 \<Longrightarrow> D \<le> 6 \<Longrightarrow> framed D nblk s (set_fld i v s)"
  by (simp add: framed_def raid_ready_def page_only_set_fld W_cache_def)

lemma set_flds_framed:
  assumes "\<forall>(j, v)\<in>set xs. j < W_cache D + 2" "D \<le> 6"
  shows "framed D nblk s (set_flds xs s)"
  using assms(1)
proof (induction xs arbitrary: s)
  case Nil
  show ?case by (simp add: framed_def)
next
  case (Cons x xs)
  obtain j v where x: "x = (j, v)" by (cases x)
  have "framed D nblk s (set_fld j v s)" using Cons.prems x assms(2) by (intro set_fld_framed) auto
  moreover have "framed D nblk (set_fld j v s) (set_flds xs (set_fld j v s))"
    using Cons.IH Cons.prems by simp
  ultimately show ?case unfolding x set_flds_simps by (rule framed_trans)
qed

definition init_fields :: "nat \<Rightarrow> nat \<Rightarrow> u32 \<Rightarrow> 'd rsys \<Rightarrow> 'd rsys" where
  "init_fields D DISK_SIZE raid s = init_type D DISK_SIZE raid
     (set_flds [(0, 1), (1, raid), (3, of_nat BLOCKSIZE), (2, of_nat D), (5, 0),
                (W_reserve_disk D, -1), (4, capacity DISK_SIZE (of_nat D))] s)"

lemma init_fields_framed:
  assumes D: "2 \<le> D" "D \<le> 6"
  shows "framed D nblk s (init_fields D DS raid s)"
proof -
  have m: "framed D nblk t (init_mirror D DS t)" for t :: "'a rsys"
    unfolding init_mirror_def Let_def
    by (rule set_flds_framed[OF _ D(2)]) (use D in \<open>auto simp: layout_simps\<close>)
  have f: "framed D nblk t (set_fld i v t)" if "i < W_cache D + 2" for i v and t :: "'a rsys"
    by (rule set_fld_framed[OF that D(2)])
  have l: "framed D nblk t (set_flds xs t)" if "\<forall>(j, v)\<in>set xs. j < W_cache D + 2" for xs and t :: "'a rsys"
    by (rule set_flds_framed[OF that D(2)])
  have "framed D nblk t t" for t :: "'a rsys" by (simp add: framed_def)
  then have t: "framed D nblk t (init_type D DS raid t)" for t :: "'a rsys"
    unfolding init_type_def using D
    by (auto intro!: framed_trans[OF f m] m f l simp: layout_simps simp del: set_flds_simps)
  show ?thesis
    unfolding init_fields_def
    by (rule framed_trans[OF set_flds_framed[OF _ D(2)] t]) (use D in \<open>auto simp: layout_simps\<close>)
qed

lemma init_loop:
  assumes r: "raid_ready D nblk s" and m: "m \<le> D" and nb: "1 \<le> nblk"
  shows "\<exists>s'. rfold (\<lambda>i s. write_block_from (int i) 0 (raid_metadata s)
           (set_cached_data_disks D (i - 1) (raid_metadata s + of_nat (BLOCKSIZE * i)) s)) [1..<Suc m] s = Inr s' \<and>
     raid_ready D nblk s' \<and> page_only s s' \<and> slot s' = slot s \<and>
     (\<forall>j<W_cache D + 2. fld j s' = fld j s) \<and>
     (\<forall>i b. b \<noteq> 0 \<longrightarrow> dblocks D nblk s' i b = dblocks D nblk s i b) \<and>
     (\<forall>i j. 1 \<le> i \<and> i \<le> m \<longrightarrow> j < W_cache D + 2 \<longrightarrow> block_word (dblocks D nblk s' i 0) j = fld j s)"
  using m
proof (induction m)
  case 0
  then show ?case using r by simp
next
  case (Suc m)
  have D: "2 \<le> D" "D \<le> 6" using r by (auto simp: raid_ready_def raid_wf_def)
  obtain s1 where s1: "rfold (\<lambda>i s. write_block_from (int i) 0 (raid_metadata s)
           (set_cached_data_disks D (i - 1) (raid_metadata s + of_nat (BLOCKSIZE * i)) s)) [1..<Suc m] s = Inr s1"
     "raid_ready D nblk s1" "page_only s s1" "slot s1 = slot s" "\<forall>j<W_cache D + 2. fld j s1 = fld j s"
     "\<forall>i b. b \<noteq> 0 \<longrightarrow> dblocks D nblk s1 i b = dblocks D nblk s i b"
     "\<forall>i j. 1 \<le> i \<and> i \<le> m \<longrightarrow> j < W_cache D + 2 \<longrightarrow> block_word (dblocks D nblk s1 i 0) j = fld j s"
    using Suc.IH[OF Suc_leD[OF Suc.prems]] by blast
  have mD: "m < D" using Suc.prems by simp
  define s2 where "s2 = set_cached_data_disks D m (slot_addr s1 m) s1"
  have f2: "fld j s2 = fld j s" if "j < W_cache D + 2" for j
    using that s1(5) mD D by (simp add: s2_def)
  have r2: "raid_ready D nblk s2"
    using s1(2) D
    by (auto simp: s2_def raid_ready_def raid_wf_def slot_addr_def slot_ptr_set_cached[OF mD _ D(2)])
  have po: "page_only s s2"
    unfolding s2_def by (rule page_only_trans[OF s1(3) page_only_set_cached[OF mD D(2)]])
  obtain v where v: "write_block_from (int (Suc m)) 0 (raid_metadata s2) s2 = Inr (s2\<lparr>vd := v\<rparr>)" "vio_ok D nblk v"
     "blocks D nblk v = upd2 (dblocks D nblk s2) (Suc m) 0 (meta_block s2)"
    using write_meta_block[OF r2, of "Suc m"] mD nb by auto
  let ?body = "\<lambda>i s. write_block_from (int i) 0 (raid_metadata s)
       (set_cached_data_disks D (i - 1) (raid_metadata s + of_nat (BLOCKSIZE * i)) s)"
  have "[1..<Suc (Suc m)] = [1..<Suc m] @ [Suc m]" by (simp add: upt_Suc)
  then have "rfold ?body [1..<Suc (Suc m)] s = ?body (Suc m) s1"
    by (simp only: rfold_snoc[OF s1(1)])
  also have "\<dots> = write_block_from (int (Suc m)) 0 (raid_metadata s2) s2"
    by (simp add: s2_def slot_addr_def algebra_simps)
  finally have run: "rfold ?body [1..<Suc (Suc m)] s = Inr (s2\<lparr>vd := v\<rparr>)" unfolding v(1) .
  have "W_cache D + 2 \<le> 256" using D by (simp add: W_cache_def)
  then have bw: "block_word (meta_block s2) j = fld j s" if "j < W_cache D + 2" for j
    using that f2[OF that] block_word_meta[of j s2] by simp
  have "dblocks D nblk (s2\<lparr>vd := v\<rparr>) i b = dblocks D nblk s i b" if "b \<noteq> 0" for i b
    using that s1(6) v(3) by (simp add: upd2_apply s2_def)
  moreover have "block_word (dblocks D nblk (s2\<lparr>vd := v\<rparr>) i 0) j = fld j s"
    if "1 \<le> i" "i \<le> Suc m" "j < W_cache D + 2" for i j
    using that s1(7) v(3) bw by (auto simp: upd2_apply s2_def le_Suc_eq)
  moreover have "slot (s2\<lparr>vd := v\<rparr>) = slot s" using s1(4) mD D by (simp add: s2_def)
  ultimately show ?case
    using run r2 v(2) po f2 by (intro exI[of _ "s2\<lparr>vd := v\<rparr>"]) (simp add: raid_ready_def)
qed

text \<open>A machine that has just booted with zeroed disks and a free page.\<close>

definition fresh_boot :: "nat \<Rightarrow> nat \<Rightarrow> 'd rsys \<Rightarrow> bool" where
  "fresh_boot D nblk s \<longleftrightarrow> 2 \<le> D \<and> D \<le> 6 \<and> 1 \<le> nblk \<and> vio_ok D nblk (vd s) \<and> raid_metadata s = 0 \<and>
     fst (kalloc (km s)) \<noteq> 0 \<and> ram (fst (kalloc (km s))) PGSIZE \<and>
     (\<forall>i b. 1 \<le> i \<and> i \<le> D \<and> b < nblk \<longrightarrow> dblocks D nblk s i b = replicate BSIZE 0)"

lemma block_word_zero: "j < 256 \<Longrightarrow> block_word (replicate BSIZE 0) j = 0"
proof -
  assume "j < 256"
  then have "map (\<lambda>x. replicate BSIZE (0::byte) ! x) [4 * j..<4 * j + 4] = [0, 0, 0, 0]"
    by (simp add: BSIZE_def upt_conv_Cons)
  then show ?thesis by (simp add: block_word_def rd32_def)
qed

lemma init_raid_fresh:
  fixes s :: "'d rsys"
  assumes fb: "fresh_boot D nblk s"
  shows "\<exists>(s1 :: 'd rsys) s'. raid_ready D nblk s1 \<and> (\<forall>j<W_cache D + 2. fld j s1 = (if j < W_cache D then 0 else -1)) \<and>
     init_raid D DS raid s = Inr (0, s') \<and> raid_ready D nblk s' \<and>
     raid_metadata s' = fst (kalloc (km s)) \<and> freelist (km s') = freelist (snd (kalloc (km s))) \<and>
     (\<forall>x. \<not> within (fst (kalloc (km s))) PGSIZE x \<longrightarrow> mem s' x = phys (snd (kalloc (km s))) x) \<and>
     (\<forall>j<W_cache D + 2. fld j s' = fld j (init_fields D DS raid s1)) \<and>
     (\<forall>i b. 1 \<le> i \<and> i \<le> D \<and> 1 \<le> b \<and> b < nblk \<longrightarrow> dblocks D nblk s' i b = replicate BSIZE 0) \<and>
     (\<forall>i j. 1 \<le> i \<and> i \<le> D \<longrightarrow> j < W_cache D + 2 \<longrightarrow> block_word (dblocks D nblk s' i 0) j = fld j s')"
proof -
  have D: "2 \<le> D" "D \<le> 6" and nb: "1 \<le> nblk" and v: "vio_ok D nblk (vd s)" and rm: "raid_metadata s = 0"
    and al: "fst (kalloc (km s)) \<noteq> 0" "ram (fst (kalloc (km s))) PGSIZE"
    and z: "\<And>i b. 1 \<le> i \<Longrightarrow> i \<le> D \<Longrightarrow> b < nblk \<Longrightarrow> dblocks D nblk s i b = replicate BSIZE 0"
    using fb by (auto simp: fresh_boot_def)
  obtain a k where k: "kalloc (km s) = (a, k)" by (cases "kalloc (km s)")
  have W: "W_cache D + 2 \<le> 256" using D by (simp add: W_cache_def)
  have z1: "dblocks D nblk s 1 0 = replicate BSIZE 0" using z[of 1 0] D nb by simp
  then have "block_word (dblocks D nblk s 1 0) 8 \<noteq> DEAD" using block_word_zero[of 8] by (simp add: DEAD_def)
  then obtain s1 where s1: "fetch D s = Inr s1" "raid_metadata s1 = a" "raid_ready D nblk s1"
     "freelist (km s1) = freelist k" "dblocks D nblk s1 = dblocks D nblk s"
     "\<forall>x. \<not> within a PGSIZE x \<longrightarrow> mem s1 x = phys k x"
     "\<forall>i<W_cache D + 2. fld i s1 = (if i < W_cache D then block_word (dblocks D nblk s 1 0) i else -1)"
    using fetch_ok[OF D v nb _ k] al rm by (auto simp: k)
  have f1: "\<forall>j<W_cache D + 2. fld j s1 = (if j < W_cache D then 0 else -1)"
    using s1(7) W block_word_zero unfolding z1 by simp
  define s2 where "s2 = init_fields D DS raid s1"
  have fr: "framed D nblk s1 s2" unfolding s2_def by (rule init_fields_framed[OF D])
  obtain s3 where s3: "rfold (\<lambda>i s. write_block_from (int i) 0 (raid_metadata s)
           (set_cached_data_disks D (i - 1) (raid_metadata s + of_nat (BLOCKSIZE * i)) s)) [1..<Suc D] s2 = Inr s3"
     "raid_ready D nblk s3" "page_only s2 s3" "\<forall>j<W_cache D + 2. fld j s3 = fld j s2"
     "\<forall>i b. b \<noteq> 0 \<longrightarrow> dblocks D nblk s3 i b = dblocks D nblk s2 i b"
     "\<forall>i j. 1 \<le> i \<and> i \<le> D \<longrightarrow> j < W_cache D + 2 \<longrightarrow> block_word (dblocks D nblk s3 i 0) j = fld j s2"
    using init_loop[of D nblk s2 D] fr s1(3) nb by (auto simp: framed_def)
  have "init_raid D DS raid s = Inr (0, s3)"
    using s1(1) s3(1) unfolding init_raid_def s2_def init_fields_def by simp
  moreover have "dblocks D nblk s3 i b = replicate BSIZE 0" if "1 \<le> i" "i \<le> D" "1 \<le> b" "b < nblk" for i b
    using that s3(5) fr s1(5) z[of i b] by (simp add: framed_def)
  moreover have "raid_metadata s3 = a" "freelist (km s3) = freelist k"
    "\<forall>x. \<not> within a PGSIZE x \<longrightarrow> mem s3 x = phys k x"
    using s3(3) fr s1(2,4,6) by (simp_all add: framed_def page_only_def)
  ultimately show ?thesis
    using s1(3) f1 s3(2,4,6) unfolding s2_def by (intro exI[of _ s1] exI[of _ s3]) (simp add: k)
qed

lemma columns_zero: "columns_ok D nblk (\<lambda>_ _. replicate BLOCKSIZE 0)"
proof -
  have "xorl (\<lambda>j. 0) xs = 0" for xs :: "nat list" by (induction xs) simp_all
  then show ?thesis by (simp add: columns_ok_def)
qed

text \<open>Creating a RAID 4 or RAID 5 array on zeroed disks.\<close>

lemma init_parity:
  fixes s :: "'d rsys"
  assumes fb: "fresh_boot D nblk s" and nb: "nblk \<le> 2 ^ 31"
  shows "\<exists>s'. init_raid D DS (if r4 then RAID4 else RAID5) s = Inr (0, s') \<and>
     parity_rep r4 D nblk (\<lambda>_ _. replicate BLOCKSIZE 0) None s' \<and>
     (\<forall>i j. 1 \<le> i \<and> i \<le> D \<longrightarrow> j < W_cache D \<longrightarrow> block_word (dblocks D nblk s' i 0) j = fld j s') \<and>
     raid_initialized s' = 1 \<and> max_blocks s' = capacity DS (of_nat D) \<and>
     (\<forall>d<D. fld (W_disk_state + d) s' = ALIVE) \<and> raid_metadata s' = fst (kalloc (km s)) \<and>
     freelist (km s') = freelist (snd (kalloc (km s))) \<and>
     (\<forall>x. \<not> within (fst (kalloc (km s))) PGSIZE x \<longrightarrow> mem s' x = phys (snd (kalloc (km s))) x)"
proof -
  let ?raid = "if r4 then RAID4 else RAID5"
  have D: "2 \<le> D" "D \<le> 6" using fb by (simp_all add: fresh_boot_def)
  obtain s1 s' :: "'d rsys" where s': "raid_ready D nblk s1" "\<forall>j<W_cache D + 2. fld j s1 = (if j < W_cache D then 0 else -1)"
     "init_raid D DS ?raid s = Inr (0, s')" "raid_ready D nblk s'"
     "\<forall>j<W_cache D + 2. fld j s' = fld j (init_fields D DS ?raid s1)"
     "\<forall>i b. 1 \<le> i \<and> i \<le> D \<and> 1 \<le> b \<and> b < nblk \<longrightarrow> dblocks D nblk s' i b = replicate BSIZE 0"
     "raid_metadata s' = fst (kalloc (km s))" "freelist (km s') = freelist (snd (kalloc (km s)))"
     "\<forall>x. \<not> within (fst (kalloc (km s))) PGSIZE x \<longrightarrow> mem s' x = phys (snd (kalloc (km s))) x"
     "\<forall>i j. 1 \<le> i \<and> i \<le> D \<longrightarrow> j < W_cache D + 2 \<longrightarrow> block_word (dblocks D nblk s' i 0) j = fld j s'"
    using init_raid_fresh[OF fb, of DS ?raid] by blast
  define g where "g j = fld j (init_fields D DS ?raid s1)" for j
  have ty: "RAID4 \<noteq> RAID0_1" "RAID4 \<noteq> RAID1" "RAID5 \<noteq> RAID0_1" "RAID5 \<noteq> RAID1" "RAID5 \<noteq> RAID4" by (simp_all add: const_simps)
  have g: "g 1 = ?raid" "g 2 = (if r4 then of_nat D - 1 else of_nat D)" "g 5 = 0" "g 6 = 2"
    "r4 \<Longrightarrow> g (W_parity_disk D) = of_nat D - 1" "g (W_cache D) = -1" "\<And>d. d < D \<Longrightarrow> g (W_disk_state + d) = 0"
    "g 0 = 1" "g 4 = capacity DS (of_nat D)"
    using D ty s'(2) by (auto simp: g_def init_fields_def init_type_def fld_set_fld layout_simps)
  have gf: "fld j s' = g j" if "j < W_cache D + 2" for j using s'(5) that by (simp add: g_def)
  have al: "alive s' d" if "d < D" for d
    using g(7)[OF that] gf[of "W_disk_state + d"] that D by (simp add: alive_def layout_simps DEAD_def)
  have "status_ok r4 D None s'"
  proof -
    have "unat (of_nat D :: u32) = D" using D by (simp add: unat_of_nat)
    moreover from this have "unat (of_nat D - 1 :: u32) = D - 1" using unat_pred[of "of_nat D"] D by simp
    ultimately have "geometry r4 D s'"
      using g gf D by (simp add: geometry_def layout_simps)
    with al g gf[of 0] gf D show ?thesis by (simp add: status_ok_def layout_simps)
  qed
  moreover have "on_disk r4 D nblk (\<lambda>_ _. replicate BLOCKSIZE 0) None (dblocks D nblk s')"
    using s'(6) parity_col_less[OF D(1), of r4] by (auto simp: on_disk_def Let_def Suc_le_eq const_simps)
  moreover have "unat (cache_stripe D s') = 2 ^ 32 - 1"
    using gf[of "W_cache D"] g(6) by (simp add: unsigned_minus_1_eq_mask mask_eq_exp_minus_1)
  ultimately have "parity_rep r4 D nblk (\<lambda>_ _. replicate BLOCKSIZE 0) None s'"
    using s'(4) columns_zero nb by (simp add: parity_rep_def Let_def)
  moreover have "raid_initialized s' = 1" "max_blocks s' = capacity DS (of_nat D)"
    using g gf[of 0] gf[of 4] by (simp_all add: W_cache_def)
  moreover have "fld (W_disk_state + d) s' = ALIVE" if "d < D" for d
    using g(7)[OF that] gf[of "W_disk_state + d"] that D by (simp add: layout_simps ALIVE_def)
  ultimately show ?thesis using s'(3,7,8,9,10) by (intro exI[of _ s']) simp
qed

text \<open>
  A concrete machine: zeroed disks, the free page at \<open>0x80100000\<close>, and the page table of a
  process at \<open>0x80300000\<close> that maps its page \<open>0x1000\<close> to \<open>0x80200000\<close>.
\<close>

definition boot_mem :: memory where
  "boot_mem = put64 (put64 (put64 (\<lambda>_. 0) 0x80300000 0x200C0401) 0x80301000 0x200C0801) 0x80302008 0x20080017"

definition boot_sys :: "nat \<Rightarrow> (nat \<Rightarrow> nat \<Rightarrow> byte list) rsys" where
  "boot_sys D = \<lparr>raid_metadata = 0, km = \<lparr>freelist = 0x80100000, phys = boot_mem\<rparr>, vd = fresh_vstate D\<rparr>"

lemma boot_sys_page: "fst (kalloc (km (boot_sys D))) = 0x80100000"
  by (simp add: boot_sys_def kalloc_def Let_def)

lemma boot_sys_fresh: "2 \<le> D \<Longrightarrow> D \<le> 6 \<Longrightarrow> 1 \<le> nblk \<Longrightarrow> nblk \<le> 2 ^ 31 \<Longrightarrow> fresh_boot D nblk (boot_sys D)"
  unfolding fresh_boot_def boot_sys_page
  by (auto simp: boot_sys_def fresh_vstate_ok fresh_blocks ram_def const_simps simp del: replicate.simps)

end
