(* ===== verification/Raid_Array.thy ===== *)
theory Raid_Array
  imports Raid_Init
begin

unbundle bit_operations_syntax

declare upt_Suc [simp del]

text \<open>
  The RAID layer as its callers see it: an array of logical blocks.  The interface is the
  locale \<open>raid_array\<close>, with the loops of \<^verbatim>\<open>user/raidtest.c\<close> as its client; RAID 4 and RAID 5
  provide it.  A failed disk leaves an array that can still be read.
\<close>

section \<open>Interface\<close>

text \<open>
  \<open>rep s C\<close>: the array in state \<open>s\<close> holds the blocks \<open>C\<close>.  \<open>buf a s\<close>: the caller may use
  the buffer at \<open>a\<close>; \<open>data a s\<close> is what is in it and \<open>put\<close> fills it.
\<close>

locale readable_array =
  fixes rep :: "'s \<Rightarrow> (nat \<Rightarrow> byte list) \<Rightarrow> bool"
    and valid :: "nat \<Rightarrow> bool"
    and rd :: "u32 \<Rightarrow> u64 \<Rightarrow> 's \<Rightarrow> (int \<times> 's) result"
    and buf :: "u64 \<Rightarrow> 's \<Rightarrow> bool"
    and data :: "u64 \<Rightarrow> 's \<Rightarrow> byte list"
  assumes rd_ok: "rep s C \<Longrightarrow> valid (unat b) \<Longrightarrow> buf a s \<Longrightarrow>
      \<exists>s'. rd b a s = Inr (0, s') \<and> rep s' C \<and> buf a s' \<and> data a s' = C (unat b)"
begin

text \<open>Reading a list of blocks one after the other collects their contents.\<close>

lemma rd_many:
  assumes "rep s C" "buf a s" "\<forall>b\<in>set bs. valid (unat b)"
  shows "\<exists>s'. rfold (\<lambda>b (acc, s). rbind (rd b a s) (\<lambda>(r, s). Inr (acc @ [data a s], s))) bs (xs, s)
           = Inr (xs @ map (\<lambda>b. C (unat b)) bs, s') \<and> rep s' C \<and> buf a s'"
  using assms
proof (induction bs arbitrary: s xs)
  case (Cons b bs)
  obtain s1 where s1: "rd b a s = Inr (0, s1)" "rep s1 C" "buf a s1" "data a s1 = C (unat b)"
    using rd_ok[of s C b a] Cons.prems by auto
  have "\<forall>b\<in>set bs. valid (unat b)" using Cons.prems(3) by simp
  from Cons.IH[OF s1(2,3) this, of "xs @ [C (unat b)]"] s1 show ?case by auto
qed auto

end

locale raid_array = readable_array rep valid rd buf data
  for rep :: "'s \<Rightarrow> (nat \<Rightarrow> byte list) \<Rightarrow> bool" and valid rd buf data +
  fixes wr :: "u32 \<Rightarrow> u64 \<Rightarrow> 's \<Rightarrow> (int \<times> 's) result"
    and put :: "u64 \<Rightarrow> byte list \<Rightarrow> 's \<Rightarrow> 's"
    and len :: nat
  assumes wr_ok: "rep s C \<Longrightarrow> valid (unat b) \<Longrightarrow> buf a s \<Longrightarrow>
      \<exists>s'. wr b a s = Inr (0, s') \<and> rep s' (C(unat b := data a s)) \<and> buf a s'"
    and put_ok: "rep s C \<Longrightarrow> buf a s \<Longrightarrow> length bs = len \<Longrightarrow>
      rep (put a bs s) C \<and> buf a (put a bs s) \<and> data a (put a bs s) = bs"
begin

text \<open>Writing a list of blocks: every block holds what was written to it last.\<close>

lemma wr_many:
  assumes "rep s C" "buf a s" "\<forall>(b, bs)\<in>set ws. valid (unat b) \<and> length bs = len"
  shows "\<exists>s'. rfold (\<lambda>(b, bs) s. rbind (wr b a (put a bs s)) (\<lambda>(r, s). Inr s)) ws s = Inr s' \<and>
     rep s' (fold (\<lambda>(b, bs) C. C(unat b := bs)) ws C) \<and> buf a s'"
  using assms
proof (induction ws arbitrary: s C)
  case (Cons w ws)
  obtain b bs where w: "w = (b, bs)" by (cases w)
  have p: "rep (put a bs s) C" "buf a (put a bs s)" "data a (put a bs s) = bs"
    using put_ok[of s C a bs] Cons.prems w by auto
  obtain s1 where s1: "wr b a (put a bs s) = Inr (0, s1)" "rep s1 (C(unat b := bs))" "buf a s1"
    using wr_ok[of "put a bs s" C b a] p Cons.prems w by auto
  have "\<forall>(b, bs)\<in>set ws. valid (unat b) \<and> length bs = len" using Cons.prems(3) by simp
  from Cons.IH[OF s1(2,3) this] s1(1) show ?case by (simp add: w)
qed simp

end

section \<open>RAID 4 and RAID 5\<close>

definition valid_block :: "nat \<Rightarrow> nat \<Rightarrow> nat \<Rightarrow> bool" where
  "valid_block D nblk b \<longleftrightarrow> stripe_of D b < nblk"

text \<open>\<open>dead\<close> is the dead disk, if there is one, counted from 0.\<close>

definition parity_array ::
    "bool \<Rightarrow> nat \<Rightarrow> nat \<Rightarrow> nat option \<Rightarrow> 'd rsys \<Rightarrow> (nat \<Rightarrow> byte list) \<Rightarrow> bool" where
  "parity_array r4 D nblk dead s C \<longleftrightarrow> (\<exists>L. parity_rep r4 D nblk L dead s \<and>
     (\<forall>b. valid_block D nblk b \<longrightarrow> C b = L (stripe_of D b) (data_col r4 D b)))"

lemma parity_read_ok:
  assumes "parity_array r4 D nblk dead s C" "valid_block D nblk (unat b)" "user_buf a BLOCKSIZE s"
  shows "\<exists>s'. read_parity r4 D b a s = Inr (0, s') \<and> parity_array r4 D nblk dead s' C \<and>
     user_buf a BLOCKSIZE s' \<and> user_data a s' = C (unat b) \<and> frame a BLOCKSIZE s s'"
proof -
  obtain L where L: "parity_rep r4 D nblk L dead s"
     "\<And>b. valid_block D nblk b \<Longrightarrow> C b = L (stripe_of D b) (data_col r4 D b)"
    using assms(1) by (auto simp: parity_array_def)
  obtain s' where s': "read_parity r4 D b a s = Inr (0, s')" "parity_rep r4 D nblk L dead s'"
     "user_data a s' = L (stripe_of D (unat b)) (data_col r4 D (unat b))" "frame a BLOCKSIZE s s'"
    using read_parity_rep[OF L(1) _ assms(3)] assms(2) by (auto simp: valid_block_def)
  have "parity_array r4 D nblk dead s' C" using s'(2) L(2) by (auto simp: parity_array_def)
  moreover have "user_buf a BLOCKSIZE s'" using s'(4) assms(3) by (simp add: frame_def user_buf_def)
  ultimately show ?thesis using s' L(2)[OF assms(2)] by auto
qed

lemma write_column_logical:
  assumes D: "2 \<le> D" and C: "\<And>b. valid_block D nblk b \<Longrightarrow> C b = L (stripe_of D b) (data_col r4 D b)"
    and c: "valid_block D nblk c"
  shows "(C(b := bs)) c = write_column r4 D (stripe_of D b) (data_col r4 D b) bs L (stripe_of D c) (data_col r4 D c)"
proof (cases "c = b")
  case True
  then show ?thesis using data_col_not_parity[OF D, of r4 b] by (simp add: write_column_def Let_def)
next
  case False
  then have "\<not> (stripe_of D c = stripe_of D b \<and> data_col r4 D c = data_col r4 D b)"
    using layout_inj[OF D, of c b r4] by blast
  moreover have "data_col r4 D c \<noteq> parity_col r4 D (stripe_of D c)" by (rule data_col_not_parity[OF D])
  ultimately show ?thesis
    using C[OF c] False by (auto simp: write_column_def Let_def)
qed

lemma data_col_less_D: "2 \<le> D \<Longrightarrow> data_col r4 D b < D"
  using data_col_less[of D r4 b] by (auto simp: data_cols_def split: if_splits)

lemma parity_write_ok:
  assumes "parity_array r4 D nblk dead s C" "valid_block D nblk (unat b)" "user_buf a BLOCKSIZE s"
    and ok: "dead \<noteq> Some (data_col r4 D (unat b)) \<or> unat (cache_stripe D s) \<noteq> stripe_of D (unat b)"
  shows "\<exists>s'. write_parity r4 D b a s = Inr (0, s') \<and> parity_array r4 D nblk dead s' (C(unat b := user_data a s)) \<and>
     user_buf a BLOCKSIZE s' \<and> page_only s s'"
proof -
  obtain L where L: "parity_rep r4 D nblk L dead s"
     "\<And>b. valid_block D nblk b \<Longrightarrow> C b = L (stripe_of D b) (data_col r4 D b)"
    using assms(1) by (auto simp: parity_array_def)
  have D: "2 \<le> D" using parity_rep_D[OF L(1)] by simp
  have v: "stripe_of D (unat b) < nblk" and v1: "1 \<le> stripe_of D (unat b)"
    using assms(2) by (simp_all add: valid_block_def stripe_of_def)
  have cD: "data_col r4 D (unat b) < D" by (rule data_col_less_D[OF D])
  obtain s' where s': "write_parity r4 D b a s = Inr (0, s')" "page_only s s'"
     "parity_rep r4 D nblk (write_column r4 D (stripe_of D (unat b)) (data_col r4 D (unat b)) (user_data a s) L) dead s'"
    using write_parity_rep[OF L(1) v assms(3)] unfolding stored_same[OF L(1) v1 v cD user_data_length ok] by blast
  have "parity_array r4 D nblk dead s' (C(unat b := user_data a s))"
    using s'(3) write_column_logical[where C = C and L = L, OF D L(2)] unfolding parity_array_def by blast
  then show ?thesis using s' page_only_buf(1)[OF s'(2) assms(3)] by blast
qed

lemma parity_put_ok:
  assumes "parity_array r4 D nblk dead s C" "user_buf a BLOCKSIZE s" "length bs = BLOCKSIZE"
  shows "parity_array r4 D nblk dead (user_write a bs s) C \<and> user_buf a BLOCKSIZE (user_write a bs s) \<and>
     user_data a (user_write a bs s) = bs"
  using assms parity_rep_user_write[of r4 D nblk _ dead s a bs] user_write_data[of bs a s]
  by (auto simp: parity_array_def user_buf_def)

interpretation degraded: readable_array "parity_array r4 D nblk dead" "valid_block D nblk" "read_parity r4 D"
    "\<lambda>a. user_buf a BLOCKSIZE" user_data for r4 D nblk dead
  by unfold_locales (use parity_read_ok in blast)

interpretation parity: raid_array "parity_array r4 D nblk None" "valid_block D nblk" "read_parity r4 D"
    "\<lambda>a. user_buf a BLOCKSIZE" user_data "write_parity r4 D" user_write BLOCKSIZE for r4 D nblk
proof unfold_locales
  show "\<exists>s'. write_parity r4 D b a s = Inr (0, s') \<and>
      parity_array r4 D nblk None s' (C(unat b := user_data a s)) \<and> user_buf a BLOCKSIZE s'"
    if "parity_array r4 D nblk None s C" "valid_block D nblk (unat b)" "user_buf a BLOCKSIZE s" for s C b a
    using parity_write_ok[OF that] by auto
qed (use parity_put_ok in blast)

section \<open>Failures\<close>

lemma ram_not_null: "ram a PGSIZE \<Longrightarrow> a \<noteq> 0"
  by (auto simp: ram_def const_simps)

lemma parity_rep_ready: "parity_rep r4 D nblk L dead s \<Longrightarrow> raid_ready D nblk s"
  by (simp add: parity_rep_def)

lemma set_disk_state_ok:
  "raid_ready D nblk s \<Longrightarrow> d < D \<Longrightarrow> set_raid_word W_disk_state (int d) v s = Inr (set_fld (W_disk_state + d) v s)"
  by (subst set_raid_word_fld) (auto simp: raid_ready_def raid_wf_def W_disk_state_def nat_add_distrib)

text \<open>A disk less in the arrays of the invariant: fewer demands on the disks and the slots.\<close>

lemma on_disk_dead: "on_disk r4 D nblk L None B \<Longrightarrow> on_disk r4 D nblk L dead B"
  by (simp add: on_disk_def Let_def)

lemma in_slots_dead: "in_slots r4 D L None st S \<Longrightarrow> in_slots r4 D L dead st S"
  by (simp add: in_slots_def Let_def)

lemma on_disk_cong:
  assumes "\<And>i b. 1 \<le> b \<Longrightarrow> B' i b = B i b"
  shows "on_disk r4 D nblk L dead B' = on_disk r4 D nblk L dead B"
  using assms by (simp add: on_disk_def Let_def cong: conj_cong)

text \<open>What \<^verbatim>\<open>disk_fail_raid\<close> does where no mirror is involved.\<close>

lemma disk_fail_run:
  assumes r: "raid_ready D nblk s" and nb: "1 \<le> nblk" and x: "x < D" "alive s x"
    and ini: "raid_initialized s \<noteq> 0" and ty: "raid_type s \<in> {RAID0, RAID4, RAID5}"
  shows "\<exists>s'. disk_fail_raid D (int x + 1) s = Inr (0, s') \<and> raid_ready D nblk s' \<and> page_only s s' \<and>
     slot s' = slot s \<and>
     (\<forall>i<128. fld i s' = (if i = 5 then num_dead_disks s + 1 else if i = W_disk_state + x then DEAD else fld i s)) \<and>
     dblocks D nblk s' = (\<lambda>i b. if 1 \<le> i \<and> i \<le> D \<and> b = 0 \<and> kept s' (i - 1) then meta_block s'
                               else dblocks D nblk s i b)"
proof -
  have D: "2 \<le> D" "D \<le> 6" using r by (auto simp: raid_ready_def raid_wf_def)
  have m: "raid_metadata s \<noteq> 0" using r by (auto simp: raid_ready_def raid_wf_def dest: ram_not_null)
  define s2 where "s2 = set_fld 5 (num_dead_disks s + 1) (set_fld (W_disk_state + x) DEAD s)"
  have fr: "framed D nblk s s2"
    unfolding s2_def by (rule framed_trans[OF set_fld_framed set_fld_framed]) (use x D in \<open>auto simp: layout_simps\<close>)
  have f2: "fld i s2 = (if i = 5 then num_dead_disks s + 1 else if i = W_disk_state + x then DEAD else fld i s)"
    if "i < 128" for i
    using that x D by (simp add: s2_def fld_set_fld layout_simps)
  obtain v where v: "writeback D s2 = Inr (s2\<lparr>vd := v\<rparr>)" "vio_ok D nblk v"
     "blocks D nblk v = (\<lambda>i b. if 1 \<le> i \<and> i \<le> D \<and> b = 0 \<and> kept s2 (i - 1) then meta_block s2
                               else dblocks D nblk s2 i b)"
    using writeback_ok[of D nblk s2] fr r nb by (auto simp: framed_def)
  have s5: "fld 5 (set_fld (W_disk_state + x) DEAD s) = num_dead_disks s"
    using x D by (simp add: fld_set_fld layout_simps)
  have ty2: "raid_type s2 \<in> {RAID0, RAID4, RAID5}" using ty f2[of 1] by (simp add: layout_simps)
  have run: "disk_fail_raid D (int x + 1) s = Inr (0, s2\<lparr>vd := v\<rparr>)"
    using m ini x ty2 v(1) disk_state_ok[OF r x(1)] set_disk_state_ok[OF r x(1)]
    by (auto simp: disk_fail_raid_def sync_meta_def Let_def s5 s2_def[symmetric] alive_def)
  have "meta_block (s2\<lparr>vd := v\<rparr>) = meta_block s2" "kept (s2\<lparr>vd := v\<rparr>) = kept s2"
    by (simp_all add: meta_block_def kept_def fun_eq_iff)
  moreover have "raid_ready D nblk (s2\<lparr>vd := v\<rparr>)" using fr r v(2) by (simp add: framed_def raid_ready_def)
  ultimately show ?thesis
    using run v(3) fr f2 by (intro exI[of _ "s2\<lparr>vd := v\<rparr>"]) (simp add: framed_def cong: if_cong)
qed

lemma parity_rep_type:
  assumes "parity_rep r4 D nblk L dead s"
  shows "raid_type s \<in> {RAID0, RAID4, RAID5}" "raid_initialized s \<noteq> 0" "d < D \<Longrightarrow> alive s d \<longleftrightarrow> dead \<noteq> Some d"
  using assms by (auto simp: parity_rep_def status_ok_def geometry_def split: if_splits)

lemma parity_fail:
  assumes rep: "parity_rep r4 D nblk L None s" and x: "x < D" and nb: "1 \<le> nblk"
  shows "\<exists>s'. disk_fail_raid D (int x + 1) s = Inr (0, s') \<and> parity_rep r4 D nblk L (Some x) s' \<and>
     page_only s s'"
proof -
  have D: "2 \<le> D" "D \<le> 6" using parity_rep_D[OF rep] by simp_all
  note rep' = rep[unfolded parity_rep_def]
  obtain s' where s': "disk_fail_raid D (int x + 1) s = Inr (0, s')" "raid_ready D nblk s'" "page_only s s'"
     "slot s' = slot s"
     "\<forall>i<128. fld i s' = (if i = 5 then num_dead_disks s + 1 else if i = W_disk_state + x then DEAD else fld i s)"
     "dblocks D nblk s' = (\<lambda>i b. if 1 \<le> i \<and> i \<le> D \<and> b = 0 \<and> kept s' (i - 1) then meta_block s'
                               else dblocks D nblk s i b)"
    using disk_fail_run[OF parity_rep_ready[OF rep] nb x _ parity_rep_type(2,1)[OF rep]]
      parity_rep_type(3)[OF rep x] by blast
  note f2 = s'(5)[rule_format]
  have "status_ok r4 D (Some x) s'"
  proof -
    have "geometry r4 D s' = geometry r4 D s" using x D by (simp add: geometry_def f2 layout_simps)
    moreover have "alive s' d \<longleftrightarrow> d \<noteq> x" if "d < D" for d
      using rep' that x D by (auto simp: status_ok_def alive_def f2 layout_simps)
    ultimately show ?thesis using rep' x D by (auto simp: status_ok_def f2 layout_simps)
  qed
  moreover have "on_disk r4 D nblk L (Some x) (dblocks D nblk s')"
    using rep' on_disk_dead on_disk_cong[of "dblocks D nblk s'" "dblocks D nblk s"] s'(6) by simp
  moreover have "fld (W_cache D) s' = cache_stripe D s" "fld (W_cache D + 1) s' = parity_cached D s"
    using x D by (simp_all add: f2 layout_simps)
  ultimately have "parity_rep r4 D nblk L (Some x) s'"
    using rep' s'(2,4) in_slots_dead unfolding parity_rep_def by (auto simp: Let_def)
  then show ?thesis using s'(1,3) by blast
qed

lemma parity_array_fail:
  assumes "parity_array r4 D nblk None s C" "x < D" "1 \<le> nblk"
  shows "\<exists>s'. disk_fail_raid D (int x + 1) s = Inr (0, s') \<and> parity_array r4 D nblk (Some x) s' C \<and>
     page_only s s'"
proof -
  obtain L where L: "parity_rep r4 D nblk L None s"
     "\<And>b. valid_block D nblk b \<Longrightarrow> C b = L (stripe_of D b) (data_col r4 D b)"
    using assms(1) by (auto simp: parity_array_def)
  from parity_fail[OF L(1) assms(2,3)] L(2) show ?thesis unfolding parity_array_def by blast
qed

section \<open>Entry points\<close>

lemma raid_type_parity:
  "parity_array r4 D nblk dead s C \<Longrightarrow> raid_type s = (if r4 then RAID4 else RAID5)"
  by (auto simp: parity_array_def parity_rep_def status_ok_def geometry_def)

lemma read_raid_dispatch:
  assumes "parity_array r4 D nblk dead s C" "\<not> rw_refused b va s"
  shows "read_raid D pt b va s = read_parity r4 D b (user_paddr pt va s) s"
  using assms(2) unfolding read_raid_def raid_type_parity[OF assms(1)]
  by (simp add: raid_rw_def read_parity_def const_simps)

lemma write_raid_dispatch:
  assumes "parity_array r4 D nblk dead s C" "\<not> rw_refused b va s"
  shows "write_raid D pt b va s = write_parity r4 D b (user_paddr pt va s) s"
  using assms(2) unfolding write_raid_def raid_type_parity[OF assms(1)]
  by (simp add: raid_rw_def write_parity_def const_simps)

text \<open>The array that \<^verbatim>\<open>init_raid\<close> makes on the concrete machine, with its caller's buffer.\<close>

lemma get64_boot:
  assumes "\<forall>x. \<not> within 0x80100000 PGSIZE x \<longrightarrow> m x = boot_mem x"
  shows "get64 m 0x80300000 = 0x200C0401" "get64 m 0x80301000 = 0x200C0801" "get64 m 0x80302008 = 0x20080017"
proof -
  have e: "get64 m a = get64 boot_mem a" if "\<forall>x. within a 8 x \<longrightarrow> \<not> within 0x80100000 PGSIZE x" for a
    using assms that by (intro get64_cong) simp
  have w: "\<forall>x. within a 8 x \<longrightarrow> \<not> within 0x80100000 PGSIZE x" if "0x80101000 \<le> a" "a \<le> 0x80400000" for a :: u64
    using that by (auto simp: within_def PGSIZE_def word_le_nat_alt unat_sub_if' split: if_splits)
  show "get64 m 0x80300000 = 0x200C0401" "get64 m 0x80301000 = 0x200C0801" "get64 m 0x80302008 = 0x20080017"
    unfolding e[OF w[of "0x80300000"], simplified] e[OF w[of "0x80301000"], simplified]
      e[OF w[of "0x80302008"], simplified] boot_mem_def
    by (simp_all add: get64_put64_other)
qed

lemma walk_level_2: "walk_level 2 = walk_level (Suc (Suc 0))"
  by (simp add: numeral_2_eq_2)

lemma boot_user_paddr:
  assumes "\<forall>x. \<not> within 0x80100000 PGSIZE x \<longrightarrow> mem s x = phys (snd (kalloc (km (boot_sys D)))) x"
  shows "user_paddr 0x80300000 0x1000 s = 0x80200000"
proof -
  have "mem s x = boot_mem x" if "\<not> within 0x80100000 PGSIZE x" for x
    using assms that by (simp add: boot_sys_def kalloc_def Let_def mem_fill_def)
  then have g: "get64 (phys (km s)) 0x80300000 = 0x200C0401" "get64 (phys (km s)) 0x80301000 = 0x200C0801"
    "get64 (phys (km s)) 0x80302008 = 0x20080017"
    using get64_boot[of "mem s"] by auto
  have "walkaddr 0x80300000 0x1000 (km s) = 0x80200000"
    by (simp add: walkaddr_def walk_def walk_level_2 pte_addr_def PX_def PTE2PA_def g const_simps Let_def)
  then show ?thesis by (simp add: user_paddr_def OFFSET_def)
qed

lemma boot_user_buf: "raid_metadata s = 0x80100000 \<Longrightarrow> n \<le> PGSIZE \<Longrightarrow> user_buf 0x80200000 n s"
  by (auto simp: user_buf_def ram_def const_simps within_def unat_sub_if' split: if_splits)

lemma booted_rep:
  obtains s where "init_raid 4 134217728 (if r4 then RAID4 else RAID5) (boot_sys 4) = Inr (0, s)"
    "parity_rep r4 4 131072 (\<lambda>_ _. replicate BLOCKSIZE 0) None s" "raid_initialized s = 1"
    "\<And>b. b < 1048572 \<Longrightarrow> \<not> rw_refused b 0x1000 s"
    "user_paddr 0x80300000 0x1000 s = 0x80200000" "user_buf 0x80200000 BLOCKSIZE s"
    "\<forall>i j. 1 \<le> i \<and> i \<le> 4 \<longrightarrow> j < W_cache 4 \<longrightarrow> block_word (dblocks 4 131072 s i 0) j = fld j s"
    "\<forall>d<4. fld (W_disk_state + d) s = ALIVE"
proof -
  obtain s where s: "init_raid 4 134217728 (if r4 then RAID4 else RAID5) (boot_sys 4) = Inr (0, s)"
     "parity_rep r4 4 131072 (\<lambda>_ _. replicate BLOCKSIZE 0) None s"
     "\<forall>i j. 1 \<le> i \<and> i \<le> 4 \<longrightarrow> j < W_cache 4 \<longrightarrow> block_word (dblocks 4 131072 s i 0) j = fld j s"
     "raid_initialized s = 1" "max_blocks s = capacity 134217728 (of_nat 4)"
     "\<forall>d<4. fld (W_disk_state + d) s = ALIVE" "raid_metadata s = 0x80100000"
     "\<forall>x. \<not> within 0x80100000 PGSIZE x \<longrightarrow> mem s x = phys (snd (kalloc (km (boot_sys 4)))) x"
    using init_parity[OF boot_sys_fresh, of 4 131072 134217728 r4] unfolding boot_sys_page by auto
  have u: "user_paddr 0x80300000 0x1000 s = 0x80200000" by (rule boot_user_paddr[OF s(8)])
  have rf: "\<not> rw_refused b 0x1000 s" if "b < 1048572" for b
  proof -
    have "0 \<le> sint b" using that sint_small[of b] by (simp add: word_less_nat_alt)
    moreover have "max_blocks s = 1048572" using s(5) by (simp add: capacity_def const_simps)
    ultimately show ?thesis using that s(4,7) unfolding rw_refused_def by simp
  qed
  have ub: "user_buf 0x80200000 BLOCKSIZE s" by (rule boot_user_buf[OF s(7)]) (simp add: const_simps)
  from that[OF s(1,2,4) rf u ub s(3,6)] show ?thesis .
qed

lemma booted_array:
  obtains s where "init_raid 4 134217728 (if r4 then RAID4 else RAID5) (boot_sys 4) = Inr (0, s)"
    "parity_array r4 4 131072 None s (\<lambda>_. replicate BLOCKSIZE 0)"
    "\<And>b. b < 1048572 \<Longrightarrow> \<not> rw_refused b 0x1000 s"
    "user_paddr 0x80300000 0x1000 s = 0x80200000" "user_buf 0x80200000 BLOCKSIZE s"
  by (rule booted_rep[of r4]) (auto simp: parity_array_def)

section \<open>Properties of RAID 4 and RAID 5\<close>

text \<open>
  C1: \<^verbatim>\<open>read_raid\<close> on a RAID 4 or RAID 5 array, healthy or with one dead disk, returns 0 and
  puts the logical block into the caller's buffer; a block of the dead disk is recovered from
  the others.  The array keeps its contents, and no memory changes but the buffer and the
  page of the RAID layer.
\<close>

theorem read_raid_parity:
  assumes "parity_array r4 D nblk dead s C" "valid_block D nblk (unat b)" "\<not> rw_refused b va s"
    and "user_buf (user_paddr pt va s) BLOCKSIZE s"
  shows "\<exists>s'. read_raid D pt b va s = Inr (0, s') \<and> parity_array r4 D nblk dead s' C \<and>
     user_data (user_paddr pt va s) s' = C (unat b) \<and> frame (user_paddr pt va s) BLOCKSIZE s s'"
  using parity_read_ok[OF assms(1,2,4)] unfolding read_raid_dispatch[OF assms(1,3)] by blast

theorem read_raid_parity_witness:
  "\<exists>s s'. init_raid 4 134217728 RAID5 (boot_sys 4) = Inr (0, s) \<and>
     read_raid 4 0x80300000 17 0x1000 s = Inr (0, s') \<and> user_data 0x80200000 s' = replicate BLOCKSIZE 0"
proof -
  obtain s where s: "init_raid 4 134217728 RAID5 (boot_sys 4) = Inr (0, s)"
    "parity_array False 4 131072 None s (\<lambda>_. replicate BLOCKSIZE 0)" "\<not> rw_refused 17 0x1000 s"
    "user_paddr 0x80300000 0x1000 s = 0x80200000" "user_buf 0x80200000 BLOCKSIZE s"
    by (rule booted_array[of False]) auto
  have "valid_block 4 131072 (unat (17 :: u32))" by (simp add: valid_block_def stripe_of_def)
  from read_raid_parity[OF s(2) this s(3), of "0x80300000"] s show ?thesis by auto
qed

text \<open>
  C2: \<^verbatim>\<open>write_raid\<close> on a RAID 4 or RAID 5 array stores the caller's 512 bytes as the logical
  block and changes no other one, with the parity kept, so that the blocks stay readable
  after a failure; on an array with a dead disk this needs that the block is not on that disk
  with its stripe in the cache already.
\<close>

theorem write_raid_parity:
  assumes "parity_array r4 D nblk dead s C" "valid_block D nblk (unat b)" "\<not> rw_refused b va s"
    and "user_buf (user_paddr pt va s) BLOCKSIZE s"
    and "dead \<noteq> Some (data_col r4 D (unat b)) \<or> unat (cache_stripe D s) \<noteq> stripe_of D (unat b)"
  shows "\<exists>s'. write_raid D pt b va s = Inr (0, s') \<and> page_only s s' \<and>
     parity_array r4 D nblk dead s' (C(unat b := user_data (user_paddr pt va s) s))"
  using parity_write_ok[OF assms(1,2,4,5)] unfolding write_raid_dispatch[OF assms(1,3)] by blast

theorem write_raid_parity_witness:
  "\<exists>s s'. init_raid 4 134217728 RAID4 (boot_sys 4) = Inr (0, s) \<and>
     write_raid 4 0x80300000 17 0x1000 s = Inr (0, s') \<and>
     parity_array True 4 131072 None s' ((\<lambda>_. replicate BLOCKSIZE 0)(17 := user_data 0x80200000 s))"
proof -
  obtain s where s: "init_raid 4 134217728 RAID4 (boot_sys 4) = Inr (0, s)"
    "parity_array True 4 131072 None s (\<lambda>_. replicate BLOCKSIZE 0)" "\<not> rw_refused 17 0x1000 s"
    "user_paddr 0x80300000 0x1000 s = 0x80200000" "user_buf 0x80200000 BLOCKSIZE s"
    by (rule booted_array[of True]) auto
  have "valid_block 4 131072 (unat (17 :: u32))" by (simp add: valid_block_def stripe_of_def)
  from write_raid_parity[OF s(2) this s(3), of "0x80300000"] s show ?thesis by auto
qed

text \<open>
  C3: \<^verbatim>\<open>disk_fail_raid\<close> on a healthy RAID 4 or RAID 5 array loses nothing: it returns 0, and
  every logical block can be read afterwards with the contents it had, whichever disk died.
\<close>

theorem disk_fail_parity:
  assumes "parity_array r4 D nblk None s C" "1 \<le> x" "x \<le> int D" "1 \<le> nblk"
  shows "\<exists>s'. disk_fail_raid D x s = Inr (0, s') \<and> page_only s s' \<and>
     parity_array r4 D nblk (Some (nat x - 1)) s' C \<and>
     (\<forall>b a. valid_block D nblk (unat b) \<longrightarrow> user_buf a BLOCKSIZE s' \<longrightarrow>
        (\<exists>s''. read_parity r4 D b a s' = Inr (0, s'') \<and> user_data a s'' = C (unat b)))"
proof -
  have x: "nat x - 1 < D" "int (nat x - 1) + 1 = x" using assms(2,3) by auto
  obtain s' where s': "disk_fail_raid D x s = Inr (0, s')" "page_only s s'"
     "parity_array r4 D nblk (Some (nat x - 1)) s' C"
    using parity_array_fail[OF assms(1) x(1) assms(4)] unfolding x(2) by blast
  then show ?thesis using parity_read_ok[OF s'(3)] by blast
qed

theorem disk_fail_parity_witness:
  "\<exists>s s'. init_raid 4 134217728 RAID5 (boot_sys 4) = Inr (0, s) \<and> disk_fail_raid 4 3 s = Inr (0, s') \<and>
     parity_array False 4 131072 (Some 2) s' (\<lambda>_. replicate BLOCKSIZE 0)"
proof -
  obtain s where s: "init_raid 4 134217728 RAID5 (boot_sys 4) = Inr (0, s)"
    "parity_array False 4 131072 None s (\<lambda>_. replicate BLOCKSIZE 0)"
    by (rule booted_array[of False]) auto
  from disk_fail_parity[OF s(2), of 3] s(1) show ?thesis by auto
qed

text \<open>
  C4: creating a RAID 4 or RAID 5 array on zeroed disks succeeds and gives a healthy array
  whose logical blocks are all zero and whose metadata is on every disk.
\<close>

theorem init_raid_parity:
  assumes "fresh_boot D nblk s" "nblk \<le> 2 ^ 31"
  shows "\<exists>s'. init_raid D DS (if r4 then RAID4 else RAID5) s = Inr (0, s') \<and>
     parity_array r4 D nblk None s' (\<lambda>_. replicate BLOCKSIZE 0) \<and>
     (\<forall>i j. 1 \<le> i \<and> i \<le> D \<longrightarrow> j < W_cache D \<longrightarrow> block_word (dblocks D nblk s' i 0) j = fld j s')"
  using init_parity[OF assms, of DS r4] unfolding parity_array_def by blast

theorem init_raid_parity_witness:
  "\<exists>s'. init_raid 6 134217728 RAID4 (boot_sys 6) = Inr (0, s') \<and>
     parity_array True 6 131072 None s' (\<lambda>_. replicate BLOCKSIZE 0)"
  using init_raid_parity[OF boot_sys_fresh, of 6 131072 134217728 True] by auto

end
