(* ===== verification/Raid_Scenarios.thy ===== *)
theory Raid_Scenarios
  imports Raid_Array
begin

unbundle bit_operations_syntax

declare upt_Suc [simp del]

text \<open>
  Sequences of operations on a RAID 4 or RAID 5 array: two failures, a restart of the machine,
  the test program \<^verbatim>\<open>user/raidtest.c\<close>, and a write to a dead disk.
\<close>

section \<open>The test program\<close>

text \<open>
  The loops of \<^verbatim>\<open>dwrite\<close> and \<^verbatim>\<open>dread\<close>; the system calls are the arguments, and \<open>a\<close> is the
  buffer.  The result of \<^verbatim>\<open>dread\<close> is the array \<^verbatim>\<open>sums\<close> it prints.
\<close>

definition dwrite ::
    "(u32 \<Rightarrow> u64 \<Rightarrow> 'd rsys \<Rightarrow> (int \<times> 'd rsys) result) \<Rightarrow> u64 \<Rightarrow> nat \<Rightarrow> 'd rsys \<Rightarrow> 'd rsys result" where
  "dwrite wr addr_write bsize s =
     rfold (\<lambda>(j, bs) s. rbind (wr j addr_write (user_write addr_write bs s)) (\<lambda>(r, s). Inr s))
       (map (\<lambda>j. (of_nat j, replicate bsize (of_nat (j + 1)))) [0..<20]) s"

definition dread ::
    "(u32 \<Rightarrow> u64 \<Rightarrow> 'd rsys \<Rightarrow> (int \<times> 'd rsys) result) \<Rightarrow> u64 \<Rightarrow> nat \<Rightarrow> 'd rsys \<Rightarrow> (u32 list \<times> 'd rsys) result" where
  "dread rd addr_read bsize s =
     rfold (\<lambda>j (sums, s). rbind (rd j addr_read s) (\<lambda>(r, s).
         Inr (sums @ [sum_list (map ucast (mem_read (mem s) addr_read bsize))], s)))
       (map of_nat [0..<20]) ([], s)"

text \<open>\<^verbatim>\<open>dread\<close> sums the blocks that the plain loop of the interface collects.\<close>

lemma dread_collect:
  "rfold (\<lambda>b (acc, s). rbind (rd b a s) (\<lambda>(r, s). Inr (acc @ [user_data a s], s))) bs (xs, s) = Inr (ys, s') \<Longrightarrow>
   rfold (\<lambda>j (sums, s). rbind (rd j a s) (\<lambda>(r, s).
         Inr (sums @ [sum_list (map ucast (mem_read (mem s) a BLOCKSIZE))], s))) bs
     (map (\<lambda>bs. sum_list (map ucast bs)) xs, s) = Inr (map (\<lambda>bs. sum_list (map ucast bs) :: u32) ys, s')"
proof (induction bs arbitrary: xs s)
  case (Cons b bs)
  show ?case
  proof (cases "rd b a s")
    case (Inr x)
    obtain r s1 where x: "x = (r, s1)" by (cases x)
    with Inr Cons.prems Cons.IH[of "xs @ [user_data a s1]" s1] show ?thesis
      by (simp add: user_data_def)
  qed (use Cons.prems in simp)
qed simp

lemma valid_small: "valid_block D nblk m \<Longrightarrow> b \<le> m \<Longrightarrow> valid_block D nblk b"
  using div_le_mono[of b m "D - 1"] by (simp add: valid_block_def stripe_of_def)

lemma block_sum: "j < 20 \<Longrightarrow> sum_list (map ucast (replicate BLOCKSIZE (of_nat (j + 1) :: byte))) = (512 * of_nat (j + 1) :: u32)"
proof -
  assume "j < 20"
  then have "unat (ucast (of_nat (j + 1) :: byte) :: u32) = unat (of_nat (j + 1) :: u32)"
    unfolding unsigned_ucast_eq unat_of_nat by (simp add: take_bit_nat_eq_self)
  then have "(ucast (of_nat (j + 1) :: byte) :: u32) = of_nat (j + 1)" by (simp only: word_unat_eq_iff)
  then show ?thesis unfolding map_replicate by (simp add: sum_list_replicate BLOCKSIZE_def)
qed

lemma dread_sums:
  assumes "parity_array r4 D nblk dead s C" "valid_block D nblk 19" "user_buf a BLOCKSIZE s"
  shows "\<exists>s'. dread (read_parity r4 D) a BLOCKSIZE s = Inr (map (\<lambda>j. sum_list (map ucast (C j))) [0..<20], s') \<and>
     parity_array r4 D nblk dead s' C \<and> user_buf a BLOCKSIZE s'"
proof -
  have v: "\<forall>b\<in>set (map of_nat [0..<20] :: u32 list). valid_block D nblk (unat b)"
    using valid_small[OF assms(2)] by (auto simp: unat_of_nat)
  have e: "map (\<lambda>b. C (unat b)) (map of_nat [0..<20] :: u32 list) = map C [0..<20]"
    by (simp add: unat_of_nat)
  obtain s' where s': "rfold (\<lambda>b (acc, s). rbind (read_parity r4 D b a s) (\<lambda>(r, s). Inr (acc @ [user_data a s], s)))
       (map of_nat [0..<20]) ([], s) = Inr (map C [0..<20], s')"
     "parity_array r4 D nblk dead s' C" "user_buf a BLOCKSIZE s'"
    using degraded.rd_many[OF assms(1,3) v, of "[]"] unfolding e append_Nil by blast
  from dread_collect[where rd = "read_parity r4 D", OF s'(1)] s'(2,3) show ?thesis unfolding dread_def by (simp add: comp_def)
qed

lemma fold_blocks:
  "\<forall>j\<in>set xs. j < 2 ^ 32 \<Longrightarrow>
   fold (\<lambda>(b, bs) C. C(unat b := bs)) (map (\<lambda>j. (of_nat j :: u32, f j)) xs) C = (\<lambda>i. if i \<in> set xs then f i else C i)"
  by (induction xs arbitrary: C) (auto simp: unat_of_nat fun_eq_iff)

lemma dwrite_blocks:
  assumes "parity_array r4 D nblk None s C" "valid_block D nblk 19" "user_buf a BLOCKSIZE s"
  shows "\<exists>s' C'. dwrite (write_parity r4 D) a BLOCKSIZE s = Inr s' \<and> parity_array r4 D nblk None s' C' \<and>
     user_buf a BLOCKSIZE s' \<and> (\<forall>j<20. C' j = replicate BLOCKSIZE (of_nat (j + 1)))"
proof -
  let ?ws = "map (\<lambda>j. (of_nat j :: u32, replicate BLOCKSIZE (of_nat (j + 1) :: byte))) [0..<20]"
  have v: "\<forall>(b, bs)\<in>set ?ws. valid_block D nblk (unat b) \<and> length bs = BLOCKSIZE"
    using valid_small[OF assms(2)] by (auto simp: unat_of_nat)
  have "fold (\<lambda>(b, bs) C. C(unat b := bs)) ?ws C j = replicate BLOCKSIZE (of_nat (j + 1))" if "j < 20" for j
    using that by (subst fold_blocks) auto
  then show ?thesis using parity.wr_many[OF assms(1,3) v] unfolding dwrite_def by blast
qed

text \<open>
  C5: the first two rounds of \<^verbatim>\<open>user/raidtest.c\<close> on RAID 5: after \<^verbatim>\<open>dwrite\<close>, \<^verbatim>\<open>dread\<close> prints
  512 times 1, 2, up to 20, and it prints the same after \<^verbatim>\<open>disk_fail_raid(2)\<close>.
\<close>

theorem raidtest_rounds:
  assumes "parity_array False D nblk None s C" "valid_block D nblk 19" "user_buf a BLOCKSIZE s"
  shows "\<exists>s1 s2 s3 s4. dwrite (write_raid5 D) a BLOCKSIZE s = Inr s1 \<and>
     dread (read_raid5 D) a BLOCKSIZE s1 = Inr (map (\<lambda>j. 512 * of_nat (j + 1)) [0..<20], s2) \<and>
     disk_fail_raid D 2 s2 = Inr (0, s3) \<and>
     dread (read_raid5 D) a BLOCKSIZE s3 = Inr (map (\<lambda>j. 512 * of_nat (j + 1)) [0..<20], s4)"
proof -
  have rw: "read_raid5 D = read_parity False D" "write_raid5 D = write_parity False D"
    by (simp_all add: read_parity_def write_parity_def)
  have D: "1 < D" using assms(1) by (auto simp: parity_array_def dest!: parity_rep_D)
  have nb: "1 \<le> nblk" using assms(2) by (simp add: valid_block_def)
  obtain s1 C' where s1: "dwrite (write_parity False D) a BLOCKSIZE s = Inr s1" "parity_array False D nblk None s1 C'"
     "user_buf a BLOCKSIZE s1" "\<forall>j<20. C' j = replicate BLOCKSIZE (of_nat (j + 1))"
    using dwrite_blocks[OF assms] by blast
  have sums: "map (\<lambda>j. sum_list (map ucast (C' j))) [0..<20] = map (\<lambda>j. 512 * of_nat (j + 1) :: u32) [0..<20]"
    using s1(4) block_sum by simp
  obtain s2 where s2: "dread (read_parity False D) a BLOCKSIZE s1 = Inr (map (\<lambda>j. 512 * of_nat (j + 1)) [0..<20], s2)"
     "parity_array False D nblk None s2 C'" "user_buf a BLOCKSIZE s2"
    using dread_sums[OF s1(2) assms(2) s1(3)] unfolding sums by blast
  obtain s3 where s3: "disk_fail_raid D 2 s2 = Inr (0, s3)" "parity_array False D nblk (Some 1) s3 C'" "page_only s2 s3"
    using parity_array_fail[OF s2(2) D nb] by auto
  obtain s4 where "dread (read_parity False D) a BLOCKSIZE s3 = Inr (map (\<lambda>j. 512 * of_nat (j + 1)) [0..<20], s4)"
    using dread_sums[OF s3(2) assms(2) page_only_buf(1)[OF s3(3) s2(3)]] unfolding sums by blast
  with s1(1) s2(1) s3(1) show ?thesis unfolding rw by blast
qed

theorem raidtest_rounds_witness:
  "\<exists>s s1 s2. init_raid 4 134217728 RAID5 (boot_sys 4) = Inr (0, s) \<and>
     dwrite (write_raid5 4) 0x80200000 BLOCKSIZE s = Inr s1 \<and>
     dread (read_raid5 4) 0x80200000 BLOCKSIZE s1 = Inr (map (\<lambda>j. 512 * of_nat (j + 1)) [0..<20], s2)"
proof -
  obtain s where s: "init_raid 4 134217728 RAID5 (boot_sys 4) = Inr (0, s)"
    "parity_array False 4 131072 None s (\<lambda>_. replicate BLOCKSIZE 0)" "user_buf 0x80200000 BLOCKSIZE s"
    by (rule booted_array[of False]) auto
  have "valid_block 4 131072 19" by (simp add: valid_block_def stripe_of_def)
  from raidtest_rounds[OF s(2) this s(3)] s(1) show ?thesis by blast
qed

section \<open>Two failures\<close>

lemma too_many_dead:
  assumes "max_dead_disks s \<le> num_dead_disks s"
  shows "read_parity r4 D b a s = Inr (-1, s)" "write_parity r4 D b a s = Inr (-1, s)"
  using assms
  by (simp_all add: read_parity_def write_parity_def read_raid4_def read_raid5_def write_raid4_def write_raid5_def)

text \<open>
  C7: when a second disk of a RAID 4 or RAID 5 array fails, the array stops: \<^verbatim>\<open>read_raid\<close> and
  \<^verbatim>\<open>write_raid\<close> return -1 for every block and change neither the disks nor the memory.
\<close>

theorem second_failure:
  assumes "parity_array r4 D nblk (Some x) s C" "y < D" "y \<noteq> x" "1 \<le> nblk"
  shows "\<exists>s'. disk_fail_raid D (int y + 1) s = Inr (0, s') \<and>
     (\<forall>b va pt. read_raid D pt b va s' = Inr (-1, s') \<and> write_raid D pt b va s' = Inr (-1, s'))"
proof -
  obtain L where rep: "parity_rep r4 D nblk L (Some x) s" using assms(1) by (auto simp: parity_array_def)
  have D: "D \<le> 6" using parity_rep_D[OF rep] by simp
  obtain s' where s': "disk_fail_raid D (int y + 1) s = Inr (0, s')"
     "\<forall>i<128. fld i s' = (if i = 5 then num_dead_disks s + 1 else if i = W_disk_state + y then DEAD else fld i s)"
    using disk_fail_run[OF parity_rep_ready[OF rep] assms(4,2) _ parity_rep_type(2,1)[OF rep]]
      parity_rep_type(3)[OF rep assms(2)] assms(3) by blast
  have "num_dead_disks s = 1" "max_dead_disks s = 2" using rep by (simp_all add: parity_rep_def status_ok_def)
  then have d: "max_dead_disks s' \<le> num_dead_disks s'" using s'(2) assms(2) D by (simp add: layout_simps)
  have ty: "raid_type s' = (if r4 then RAID4 else RAID5)"
    using s'(2)[rule_format, of 1] raid_type_parity[OF assms(1)] by (simp add: layout_simps)
  have "read_raid D pt b va s' = Inr (-1, s') \<and> write_raid D pt b va s' = Inr (-1, s')" for b va pt
    using too_many_dead[OF d, of r4 D] unfolding read_raid_def write_raid_def ty
    by (cases r4) (simp_all add: raid_rw_def read_parity_def write_parity_def const_simps)
  with s'(1) show ?thesis by blast
qed

theorem second_failure_witness:
  "\<exists>s s1 s2. init_raid 4 134217728 RAID4 (boot_sys 4) = Inr (0, s) \<and> disk_fail_raid 4 2 s = Inr (0, s1) \<and>
     disk_fail_raid 4 4 s1 = Inr (0, s2) \<and> read_raid 4 0x80300000 0 0x1000 s2 = Inr (-1, s2)"
proof -
  obtain s where s: "init_raid 4 134217728 RAID4 (boot_sys 4) = Inr (0, s)"
    "parity_array True 4 131072 None s (\<lambda>_. replicate BLOCKSIZE 0)"
    by (rule booted_array[of True]) auto
  obtain s1 where s1: "disk_fail_raid 4 2 s = Inr (0, s1)" "parity_array True 4 131072 (Some 1) s1 (\<lambda>_. replicate BLOCKSIZE 0)"
    using parity_array_fail[OF s(2), of 1] by auto
  from second_failure[OF s1(2), of 3] s(1) s1(1) show ?thesis by auto
qed

section \<open>Writing to a dead disk\<close>

text \<open>
  C9: a write to a block of the dead disk whose stripe is in the cache already does not store
  the caller's bytes: what is read back is their sum with the stale slot of the cache and the
  old contents of the block, byte by byte.  \<^verbatim>\<open>write_raid4\<close> and \<^verbatim>\<open>write_raid5\<close> recover the old
  contents only on the path that loads the stripe.
\<close>

theorem write_dead_cached:
  assumes "parity_rep r4 D nblk L (Some k) s" "k = data_col r4 D (unat b)" "st = stripe_of D (unat b)"
    and "unat (cache_stripe D s) = st" "st < nblk" "user_buf a BLOCKSIZE s"
  shows "\<exists>s' s''. write_parity r4 D b a s = Inr (0, s') \<and> read_parity r4 D b a s' = Inr (0, s'') \<and>
     (\<forall>i<BLOCKSIZE. user_data a s'' ! i = user_data a s ! i XOR slot s k ! i XOR L st k ! i)"
proof -
  have D: "2 \<le> D" using parity_rep_D[OF assms(1)] by simp
  have st: "stripe_of D (unat b) < nblk" using assms(3,5) by simp
  let ?L = "write_column r4 D st k (stored D L st k (user_data a s) s) L"
  obtain s' where s': "write_parity r4 D b a s = Inr (0, s')" "page_only s s'" "parity_rep r4 D nblk ?L (Some k) s'"
    using write_parity_rep[OF assms(1) st assms(6)] assms(2,3) by blast
  obtain s'' where s'': "read_parity r4 D b a s' = Inr (0, s'')" "user_data a s'' = ?L st k"
    using read_parity_rep[OF s'(3) st page_only_buf(1)[OF s'(2) assms(6)]] assms(2,3) by blast
  have "k \<noteq> parity_col r4 D st" unfolding assms(2,3) by (rule data_col_not_parity[OF D])
  then have "?L st k = merged L st k (user_data a s) s"
    using assms(4) by (simp add: write_column_def Let_def stored_def)
  with s'(1) s'' show ?thesis by (intro exI[of _ s'] exI[of _ s'']) (simp add: merged_def)
qed

text \<open>On the concrete machine: blocks 0 and 1 of RAID 4 are in the same stripe, disk 1 is dead.\<close>

theorem write_dead_cached_witness:
  "\<exists>s s0 s1 s' s''. init_raid 4 134217728 RAID4 (boot_sys 4) = Inr (0, s) \<and> disk_fail_raid 4 1 s = Inr (0, s0) \<and>
     read_raid4 4 1 0x80200000 s0 = Inr (0, s1) \<and> write_raid4 4 0 0x80200000 s1 = Inr (0, s') \<and>
     read_raid4 4 0 0x80200000 s' = Inr (0, s'') \<and>
     (\<forall>i<BLOCKSIZE. user_data 0x80200000 s'' ! i = user_data 0x80200000 s1 ! i XOR slot s1 0 ! i)"
proof -
  have rw: "read_raid4 4 = read_parity True 4" "write_raid4 4 = write_parity True 4"
    by (simp_all add: read_parity_def write_parity_def fun_eq_iff)
  obtain s where s: "init_raid 4 134217728 RAID4 (boot_sys 4) = Inr (0, s)"
    "parity_rep True 4 131072 (\<lambda>_ _. replicate BLOCKSIZE 0) None s" "user_buf 0x80200000 BLOCKSIZE s"
    by (rule booted_rep[of True]) auto
  obtain s0 where s0: "disk_fail_raid 4 1 s = Inr (0, s0)"
     "parity_rep True 4 131072 (\<lambda>_ _. replicate BLOCKSIZE 0) (Some 0) s0" "page_only s s0"
    using parity_fail[OF s(2), of 0] by auto
  have n: "stripe_of 4 (unat (1 :: u32)) = 1" "stripe_of 4 (unat (0 :: u32)) = 1" "data_col True 4 (unat (0 :: u32)) = 0"
    by (simp_all add: stripe_of_def data_col_def)
  obtain s1 where s1: "read_parity True 4 1 0x80200000 s0 = Inr (0, s1)"
     "parity_rep True 4 131072 (\<lambda>_ _. replicate BLOCKSIZE 0) (Some 0) s1" "frame 0x80200000 BLOCKSIZE s0 s1"
     "unat (cache_stripe 4 s1) = 1"
    using read_parity_rep[OF s0(2), of 1 "0x80200000"] page_only_buf(1)[OF s0(3) s(3)] unfolding n by auto
  have "user_buf 0x80200000 BLOCKSIZE s1"
    using s1(3) page_only_buf(1)[OF s0(3) s(3)] by (simp add: frame_def user_buf_def)
  from write_dead_cached[OF s1(2) n(3)[symmetric] n(2)[symmetric] s1(4) _ this] s(1) s0(1) s1(1)
  show ?thesis unfolding rw by fastforce
qed

section \<open>Restart\<close>

text \<open>The metadata on the first disk is that in memory.\<close>

definition synced :: "nat \<Rightarrow> nat \<Rightarrow> 'd rsys \<Rightarrow> bool" where
  "synced D nblk s \<longleftrightarrow> (\<forall>j<W_cache D. block_word (dblocks D nblk s 1 0) j = fld j s)"

text \<open>After a restart the memory is new, with a page to allocate, and the disks are as they were.\<close>

definition restarted :: "nat \<Rightarrow> nat \<Rightarrow> 'd rsys \<Rightarrow> 'd rsys \<Rightarrow> bool" where
  "restarted D nblk s t \<longleftrightarrow> raid_metadata t = 0 \<and> vio_ok D nblk (vd t) \<and> dblocks D nblk t = dblocks D nblk s \<and>
     fst (kalloc (km t)) \<noteq> 0 \<and> ram (fst (kalloc (km t))) PGSIZE"

definition restart :: "'d rsys \<Rightarrow> 'd rsys" where
  "restart s = s\<lparr>raid_metadata := 0, km := \<lparr>freelist = 0x80100000, phys = (\<lambda>_. 0)\<rparr>\<rparr>"

lemma restart_ok: "parity_array r4 D nblk dead s C \<Longrightarrow> restarted D nblk s (restart s)"
  by (auto simp: restarted_def restart_def parity_array_def parity_rep_def raid_ready_def kalloc_def ram_def
      const_simps Let_def)

lemma booted_synced:
  obtains s where "init_raid 4 134217728 (if r4 then RAID4 else RAID5) (boot_sys 4) = Inr (0, s)"
    "parity_array r4 4 131072 None s (\<lambda>_. replicate BLOCKSIZE 0)" "kept s 0" "synced 4 131072 s"
proof (rule booted_rep[of r4])
  fix s
  assume s: "init_raid 4 134217728 (if r4 then RAID4 else RAID5) (boot_sys 4) = Inr (0, s)"
    "parity_rep r4 4 131072 (\<lambda>_ _. replicate BLOCKSIZE 0) None s"
    "\<forall>i j. 1 \<le> i \<and> i \<le> 4 \<longrightarrow> j < W_cache 4 \<longrightarrow> block_word (dblocks 4 131072 s i 0) j = fld j s"
    "\<forall>d<4. fld (W_disk_state + d) s = ALIVE"
  have "kept s 0" using s(4)[rule_format, of 0] by (simp add: kept_def)
  moreover have "synced 4 131072 s" using s(3) by (simp add: synced_def)
  moreover have "parity_array r4 4 131072 None s (\<lambda>_. replicate BLOCKSIZE 0)"
    using s(2) by (auto simp: parity_array_def)
  ultimately show thesis using s(1) that by blast
qed

lemma fetch_restarted:
  assumes t: "restarted D nblk s t" and D: "2 \<le> D" "D \<le> 6" and nb: "1 \<le> nblk"
    and w8: "block_word (dblocks D nblk s 1 0) 8 \<noteq> DEAD"
  shows "\<exists>s'. fetch D t = Inr s' \<and> raid_ready D nblk s' \<and> dblocks D nblk s' = dblocks D nblk s \<and>
     (\<forall>i<W_cache D. fld i s' = block_word (dblocks D nblk s 1 0) i) \<and> cache_stripe D s' = -1"
proof -
  obtain a k where k: "kalloc (km t) = (a, k)" by (cases "kalloc (km t)")
  obtain s' where s': "fetch D t = Inr s'" "raid_ready D nblk s'" "dblocks D nblk s' = dblocks D nblk t"
     "\<forall>i<W_cache D + 2. fld i s' = (if i < W_cache D then block_word (dblocks D nblk t 1 0) i else -1)"
    using fetch_ok[OF D _ nb _ k] t w8 by (auto simp: restarted_def k)
  then show ?thesis using t by (intro exI[of _ s']) (simp add: restarted_def)
qed

lemma restart_rep:
  assumes rep: "parity_rep r4 D nblk L dead s" and nb: "1 \<le> nblk" and sy: "synced D nblk s"
    and al: "dead \<noteq> Some 1" and t: "restarted D nblk s t"
  shows "\<exists>s'. fetch D t = Inr s' \<and> parity_rep r4 D nblk L dead s'"
proof -
  note rep' = rep[unfolded parity_rep_def]
  have D: "2 \<le> D" "D \<le> 6" using parity_rep_D[OF rep] by simp_all
  have "fld 8 s \<noteq> DEAD" using parity_rep_type(3)[OF rep, of 1] al D by (simp add: alive_def layout_simps)
  then have "block_word (dblocks D nblk s 1 0) 8 \<noteq> DEAD" using sy by (simp add: synced_def layout_simps)
  from fetch_restarted[OF t D nb this] sy obtain s' where s': "fetch D t = Inr s'" "raid_ready D nblk s'"
     "dblocks D nblk s' = dblocks D nblk s" "\<forall>i<W_cache D. fld i s' = fld i s" "cache_stripe D s' = -1"
    by (auto simp: synced_def)
  have "geometry r4 D s' = geometry r4 D s" using s'(4) D by (simp add: geometry_def layout_simps)
  moreover have "alive s' d = alive s d" if "d < D" for d using s'(4) that by (simp add: alive_def layout_simps)
  ultimately have "status_ok r4 D dead s'" using rep' s'(4) by (simp add: status_ok_def layout_simps)
  moreover have "\<not> unat (cache_stripe D s') < nblk"
    using s'(5) parity_rep_fields(2)[OF rep] by (simp add: unsigned_minus_1_eq_mask mask_eq_exp_minus_1)
  ultimately have "parity_rep r4 D nblk L dead s'" using s'(2,3) rep' by (simp add: parity_rep_def Let_def)
  with s'(1) show ?thesis by blast
qed

lemma fail_synced:
  assumes rep: "parity_rep r4 D nblk L None s" and x: "x < D" and nb: "1 \<le> nblk"
    and run: "disk_fail_raid D (int x + 1) s = Inr (0, s1)" and kp: "kept s 0"
  shows "x \<noteq> 0 \<Longrightarrow> synced D nblk s1" and "x = 0 \<Longrightarrow> dblocks D nblk s1 1 0 = dblocks D nblk s 1 0"
proof -
  have D: "2 \<le> D" "D \<le> 6" using parity_rep_D[OF rep] by simp_all
  have f: "\<forall>i<128. fld i s1 = (if i = 5 then num_dead_disks s + 1 else if i = W_disk_state + x then DEAD else fld i s)"
    and b: "dblocks D nblk s1 = (\<lambda>i b. if 1 \<le> i \<and> i \<le> D \<and> b = 0 \<and> kept s1 (i - 1) then meta_block s1
                               else dblocks D nblk s i b)"
    using disk_fail_run[OF parity_rep_ready[OF rep] nb x _ parity_rep_type(2,1)[OF rep]]
      parity_rep_type(3)[OF rep x] run by auto
  have W: "W_cache D < 128" using D by (simp add: layout_simps)
  show "synced D nblk s1" if "x \<noteq> 0"
  proof -
    have "kept s1 0" using f kp that D by (simp add: kept_def layout_simps)
    then have "dblocks D nblk s1 1 0 = meta_block s1" using b D by simp
    then show ?thesis using W by (simp add: synced_def block_word_meta)
  qed
  show "dblocks D nblk s1 1 0 = dblocks D nblk s 1 0" if "x = 0"
  proof -
    have "\<not> kept s1 0" using f that D by (simp add: kept_def layout_simps const_simps)
    then show ?thesis using b by simp
  qed
qed



text \<open>
  C10: the failure of the first disk does not survive a restart: its block with the metadata is
  not written any more but is the one \<^verbatim>\<open>fetch\<close> takes, because \<^verbatim>\<open>fetch\<close> looks at the state of
  disk \<open>i + 1\<close> after reading disk \<open>i\<close>.  The disk counts as alive again.
\<close>

theorem restart_forgets_first_disk:
  assumes "parity_array r4 D nblk None s C" "1 \<le> nblk" "kept s 0" "synced D nblk s"
    and "disk_fail_raid D 1 s = Inr (0, s1)" "restarted D nblk s1 t"
  shows "\<not> alive s1 0 \<and> num_dead_disks s1 = 1 \<and>
     (\<exists>s'. fetch D t = Inr s' \<and> alive s' 0 \<and> num_dead_disks s' = 0)"
proof -
  obtain L where L: "parity_rep r4 D nblk L None s" using assms(1) by (auto simp: parity_array_def)
  have D: "2 \<le> D" "D \<le> 6" using parity_rep_D[OF L] by simp_all
  have run: "disk_fail_raid D (int 0 + 1) s = Inr (0, s1)" using assms(5) by simp
  have b: "dblocks D nblk s1 1 0 = dblocks D nblk s 1 0" using fail_synced(2)[OF L _ assms(2) run assms(3)] D by simp
  then have w: "block_word (dblocks D nblk s1 1 0) j = fld j s" if "j < W_cache D" for j
    using assms(4) that by (simp add: synced_def)
  have a: "fld (W_disk_state + d) s \<noteq> DEAD" if "d < D" for d
    using parity_rep_type(3)[OF L that] by (simp add: alive_def)
  have w8: "block_word (dblocks D nblk s1 1 0) 8 \<noteq> DEAD"
    using w[of 8] a[of 1] D by (simp add: layout_simps)
  have rep1: "parity_rep r4 D nblk L (Some 0) s1" using parity_fail[OF L, of 0] assms(2) run D by auto
  have "\<not> alive s1 0" "num_dead_disks s1 = 1"
    using rep1 parity_rep_type(3)[OF rep1, of 0] D by (auto simp: parity_rep_def status_ok_def)
  moreover obtain s' where s': "fetch D t = Inr s'" "\<forall>i<W_cache D. fld i s' = block_word (dblocks D nblk s1 1 0) i"
    using fetch_restarted[OF assms(6) D assms(2) w8] by blast
  moreover have "num_dead_disks s = 0" using L by (simp add: parity_rep_def status_ok_def)
  ultimately show ?thesis using w a[of 0] D by (simp add: alive_def layout_simps)
qed

theorem restart_forgets_first_disk_witness:
  "\<exists>s s1 s'. init_raid 4 134217728 RAID5 (boot_sys 4) = Inr (0, s) \<and> disk_fail_raid 4 1 s = Inr (0, s1) \<and>
     \<not> alive s1 0 \<and> fetch 4 (restart s1) = Inr s' \<and> alive s' 0"
proof -
  obtain s where s: "init_raid 4 134217728 RAID5 (boot_sys 4) = Inr (0, s)"
    "parity_array False 4 131072 None s (\<lambda>_. replicate BLOCKSIZE 0)" "kept s 0" "synced 4 131072 s"
    by (rule booted_synced[of False]) auto
  obtain s1 where s1: "disk_fail_raid 4 1 s = Inr (0, s1)" "parity_array False 4 131072 (Some 0) s1 (\<lambda>_. replicate BLOCKSIZE 0)"
    using parity_array_fail[OF s(2), of 0] by auto
  from restart_forgets_first_disk[OF s(2) _ s(3,4), of s1 "restart s1"] restart_ok[OF s1(2)] s(1) s1(1)
  show ?thesis by auto
qed

end
