(* ===== verification/Raid_Mirror.thy ===== *)
theory Raid_Mirror
  imports Raid_Array
begin

unbundle bit_operations_syntax

declare upt_Suc [simp del]

text \<open>
  RAID 1 and RAID 0+1: pairs of disks with the same blocks.  \<open>prim\<close> and \<open>cop\<close> are the disks of
  a pair as \<^verbatim>\<open>data_disks\<close> and \<^verbatim>\<open>copy_disks\<close> name them.  A pair that has lost its copy has -1
  there, and the functions then look up \<^verbatim>\<open>disk_state[-2]\<close>, which is the word
  \<^verbatim>\<open>num_dead_disks\<close>: it happens to read as \<^verbatim>\<open>DEAD\<close> when exactly one disk is dead.  The
  invariant says so.
\<close>

section \<open>Blocks of 1024 bytes and the caller\<close>

definition user_block :: "u64 \<Rightarrow> 'd rsys \<Rightarrow> byte list" where
  "user_block a s = mem_read (mem s) a BSIZE"

lemma user_block_length [simp]: "length (user_block a s) = BSIZE"
  by (simp add: user_block_def)

lemma user_block_write: "length bs = BSIZE \<Longrightarrow> user_block a (user_write a bs s) = bs"
  using mem_read_write_same[of bs "mem s" a] by (simp add: user_block_def user_write_def BSIZE_def)

lemma read_to_user:
  assumes r: "raid_ready D nblk s" and d: "1 \<le> d" "d \<le> D" and st: "st < nblk" and u: "user_buf a BSIZE s"
  shows "\<exists>v. read_block_to (int d) (int st) a s = Inr (user_write a (dblocks D nblk s d st) (s\<lparr>vd := v\<rparr>)) \<and>
     vio_ok D nblk v \<and> blocks D nblk v = dblocks D nblk s"
proof -
  have v: "vio_ok D nblk (vd s)" using r by (simp add: raid_ready_def)
  obtain w where w: "read_block (int d) (int st) (vd s) = Inr (dblocks D nblk s d st, w)" "vio_ok D nblk w"
     "blocks D nblk w = dblocks D nblk s"
    using vio.rd_ok[OF v d st] by blast
  have "length (dblocks D nblk s d st) = BSIZE" by (rule vio.blk_len[OF v d st])
  then show ?thesis
    using w u by (intro exI[of _ w]) (simp add: read_block_to_def store_def user_buf_def user_write_def)
qed

lemma write_from_user:
  assumes r: "raid_ready D nblk s" and d: "1 \<le> d" "d \<le> D" and st: "st < nblk" and u: "user_buf a BSIZE s"
  shows "\<exists>v. write_block_from (int d) (int st) a s = Inr (s\<lparr>vd := v\<rparr>) \<and>
     vio_ok D nblk v \<and> blocks D nblk v = upd2 (dblocks D nblk s) d st (user_block a s)"
proof -
  have v: "vio_ok D nblk (vd s)" using r by (simp add: raid_ready_def)
  obtain w where w: "write_block (int d) (int st) (user_block a s) (vd s) = Inr w" "vio_ok D nblk w"
     "blocks D nblk w = upd2 (dblocks D nblk s) d st (user_block a s)"
    using vio.wr_ok[OF v d st, of "user_block a s"] by auto
  then show ?thesis
    using u by (intro exI[of _ w]) (simp add: write_block_from_def load_def user_buf_def user_block_def)
qed

section \<open>Invariant\<close>

abbreviation prim :: "nat \<Rightarrow> 'd rsys \<Rightarrow> nat \<Rightarrow> nat" where
  "prim D s i \<equiv> unat (fld (W_data_disks D + i) s)"

abbreviation cop :: "nat \<Rightarrow> 'd rsys \<Rightarrow> nat \<Rightarrow> nat" where
  "cop D s i \<equiv> unat (fld (W_copy_disks D + i) s)"

definition lost :: nat where
  "lost = 2 ^ 32 - 1"

definition pair_ok :: "nat \<Rightarrow> 'd rsys \<Rightarrow> nat \<Rightarrow> bool" where
  "pair_ok D s i \<longleftrightarrow> 1 \<le> prim D s i \<and> prim D s i \<le> D \<and> alive s (prim D s i - 1) \<and>
     (if cop D s i = lost then num_dead_disks s = 1
      else 1 \<le> cop D s i \<and> cop D s i \<le> D \<and> alive s (cop D s i - 1) \<and> cop D s i \<noteq> prim D s i)"

definition mirror_fields :: "nat \<Rightarrow> 'd rsys \<Rightarrow> bool" where
  "mirror_fields D s \<longleftrightarrow> raid_initialized s \<noteq> 0 \<and> (raid_type s = RAID1 \<or> raid_type s = RAID0_1) \<and>
     unat (num_of_disks s) = D div 2 \<and> (\<forall>i<D div 2. pair_ok D s i) \<and>
     (\<forall>i<D div 2. \<forall>j<D div 2. i \<noteq> j \<longrightarrow> prim D s i \<noteq> prim D s j \<and> prim D s i \<noteq> cop D s j \<and>
        (cop D s i = cop D s j \<longrightarrow> cop D s i = lost))"

definition mirror_valid :: "nat \<Rightarrow> nat \<Rightarrow> nat \<Rightarrow> bool" where
  "mirror_valid D nblk b \<longleftrightarrow> b div (D div 2) + 1 < nblk"

definition mirror_array :: "nat \<Rightarrow> nat \<Rightarrow> 'd rsys \<Rightarrow> (nat \<Rightarrow> byte list) \<Rightarrow> bool" where
  "mirror_array D nblk s C \<longleftrightarrow> raid_ready D nblk s \<and> mirror_fields D s \<and>
     (\<forall>b. mirror_valid D nblk b \<longrightarrow>
        (let i = b mod (D div 2); st = b div (D div 2) + 1 in
         dblocks D nblk s (prim D s i) st = C b \<and>
         (cop D s i \<noteq> lost \<longrightarrow> dblocks D nblk s (cop D s i) st = C b)))"

lemma mirror_D: "mirror_array D nblk s C \<Longrightarrow> 2 \<le> D \<and> D \<le> 6"
  by (simp add: mirror_array_def raid_ready_def raid_wf_def)

lemma mirror_fields_vd [simp]: "mirror_fields D (s\<lparr>vd := v\<rparr>) = mirror_fields D s"
proof -
  have "alive (s\<lparr>vd := v\<rparr>) d = alive s d" for d by (simp add: alive_def)
  then have "pair_ok D (s\<lparr>vd := v\<rparr>) i = pair_ok D s i" for i by (simp add: pair_ok_def)
  then show ?thesis by (simp add: mirror_fields_def)
qed

lemma mirror_fields_cong:
  assumes "\<And>i. i < 128 \<Longrightarrow> fld i s' = fld i s" "D \<le> 6"
  shows "mirror_fields D s' = mirror_fields D s"
proof -
  have w: "fld (W_data_disks D + i) s' = fld (W_data_disks D + i) s" "fld (W_copy_disks D + i) s' = fld (W_copy_disks D + i) s"
    if "i < D div 2" for i
    using assms that by (simp_all add: layout_simps)
  have a: "alive s' d = alive s d" if "d < D" for d
    using assms that by (simp add: alive_def layout_simps)
  have "pair_ok D s' i = pair_ok D s i" if "i < D div 2" for i
    using a[of "prim D s i - 1"] a[of "cop D s i - 1"] assms(1)[of 5] w[OF that]
    by (auto simp: pair_ok_def Suc_le_eq)
  then show ?thesis using w assms(1) by (simp add: mirror_fields_def)
qed

text \<open>The disks of the pair of a block, and what the words of the structure say of them.\<close>

lemma mirror_index:
  assumes "mirror_array D nblk s C" "mirror_valid D nblk (unat b)"
  defines "n \<equiv> D div 2" and "i \<equiv> unat b mod (D div 2)" and "st \<equiv> unat b div (D div 2) + 1"
  shows "num_of_disks s \<noteq> 0" "i < n" "st < nblk" "st < 2 ^ 31"
    "sint (b mod num_of_disks s) = int i" "sint (b div num_of_disks s + 1) = int st"
    "data_disks D (int i) s = Inr (fld (W_data_disks D + i) s)"
    "copy_disks D (int i) s = Inr (fld (W_copy_disks D + i) s)"
    "pair_ok D s i"
proof -
  have D: "2 \<le> D" "D \<le> 6" using mirror_D[OF assms(1)] by simp_all
  have r: "raid_ready D nblk s" "mirror_fields D s" using assms(1) by (simp_all add: mirror_array_def)
  have n: "unat (num_of_disks s) = n" using r(2) by (simp add: mirror_fields_def n_def)
  show "num_of_disks s \<noteq> 0" using n D by (auto simp: n_def)
  have "0 < n" using D by (simp add: n_def)
  then show i: "i < n" by (simp add: i_def n_def)
  then show "pair_ok D s i" using r(2) by (simp add: mirror_fields_def n_def)
  show st: "st < nblk" using assms(2) by (simp add: mirror_valid_def st_def)
  then show st31: "st < 2 ^ 31" using r(1) by (simp add: raid_ready_def vio_ok_def)
  have "unat (b mod num_of_disks s) = i" using n by (simp add: unat_mod_distrib i_def n_def)
  then show "sint (b mod num_of_disks s) = int i" using sint_small[of "b mod num_of_disks s"] i D by (simp add: n_def)
  have "unat (b div num_of_disks s + 1) = st"
    using unat_div_plus1[of b "num_of_disks s"] st31 n by (simp add: st_def n_def)
  then show "sint (b div num_of_disks s + 1) = int st" using sint_small[of "b div num_of_disks s + 1"] st31 by simp
  have ram: "ram (raid_metadata s) PGSIZE" using r(1) by (simp add: raid_ready_def raid_wf_def)
  show "data_disks D (int i) s = Inr (fld (W_data_disks D + i) s)" "copy_disks D (int i) s = Inr (fld (W_copy_disks D + i) s)"
    using raid_word_fld[OF ram, of "W_data_disks D" "int i"] raid_word_fld[OF ram, of "W_copy_disks D" "int i"] i D
    by (simp_all add: layout_simps n_def nat_add_distrib)
qed

lemma disk_state_of:
  fixes w :: u32
  assumes "raid_ready D nblk s" "1 \<le> unat w" "unat w \<le> D"
  shows "disk_state (sint w - 1) s = Inr (fld (W_disk_state + (unat w - 1)) s)" "sint w = int (unat w)"
proof -
  have "D \<le> 6" using assms(1) by (simp add: raid_ready_def raid_wf_def)
  then show si: "sint w = int (unat w)" using assms by (intro sint_small) simp
  then have e: "sint w - 1 = int (unat w - 1)" using assms(2) by simp
  show "disk_state (sint w - 1) s = Inr (fld (W_disk_state + (unat w - 1)) s)"
    unfolding e by (rule disk_state_ok[OF assms(1)]) (use assms in simp)
qed

text \<open>\<^verbatim>\<open>disk_state[-2]\<close> is \<^verbatim>\<open>num_dead_disks\<close>.\<close>

lemma disk_state_lost:
  assumes "raid_ready D nblk s" "unat (w :: u32) = lost"
  shows "disk_state (sint w - 1) s = Inr (num_dead_disks s)"
proof -
  have "w = -1" using assms(2) by (simp add: word_unat_eq_iff lost_def unsigned_minus_1_eq_mask mask_eq_exp_minus_1)
  moreover have "ram (raid_metadata s) PGSIZE" using assms(1) by (simp add: raid_ready_def raid_wf_def)
  ultimately show ?thesis using raid_word_fld[of s W_disk_state "-2"] by (simp add: layout_simps)
qed

section \<open>Reading and writing\<close>

lemma mirror_array_user_write:
  assumes "mirror_array D nblk s C" "user_buf a (length bs) s"
  shows "mirror_array D nblk (user_write a bs s) C"
proof -
  have D: "D \<le> 6" using mirror_D[OF assms(1)] by simp
  have f: "fld i (user_write a bs s) = fld i s" if "i < 128" for i by (rule user_write_views(1)[OF assms(2) that])
  have "prim D (user_write a bs s) i = prim D s i" "cop D (user_write a bs s) i = cop D s i" if "i < D div 2" for i
    using f that D by (simp_all add: layout_simps)
  moreover have "b mod (D div 2) < D div 2" for b using mirror_D[OF assms(1)] by simp
  ultimately show ?thesis
    using assms(1) user_write_views(3)[OF assms(2)] mirror_fields_cong[of "user_write a bs s" s D] f D
    by (simp add: mirror_array_def Let_def)
qed

lemma mirror_array_vd:
  "mirror_array D nblk s C \<Longrightarrow> vio_ok D nblk v \<Longrightarrow> blocks D nblk v = dblocks D nblk s \<Longrightarrow> mirror_array D nblk (s\<lparr>vd := v\<rparr>) C"
  by (simp add: mirror_array_def raid_ready_def)

lemma mirror_read_ok:
  assumes ma: "mirror_array D nblk s C" and v: "mirror_valid D nblk (unat b)" and u: "user_buf a BSIZE s"
  shows "\<exists>s'. read_raid1 D b a s = Inr (0, s') \<and> mirror_array D nblk s' C \<and> user_buf a BSIZE s' \<and>
     user_block a s' = C (unat b) \<and> frame a BSIZE s s'"
proof -
  let ?i = "unat b mod (D div 2)" and ?st = "unat b div (D div 2) + 1"
  note ix = mirror_index[OF ma v]
  have r: "raid_ready D nblk s" using ma by (simp add: mirror_array_def)
  have p: "1 \<le> prim D s ?i" "prim D s ?i \<le> D" "alive s (prim D s ?i - 1)" using ix(9) by (simp_all add: pair_ok_def)
  have c: "dblocks D nblk s (prim D s ?i) ?st = C (unat b)" using ma v by (simp add: mirror_array_def Let_def)
  obtain w where w: "read_block_to (int (prim D s ?i)) (int ?st) a s = Inr (user_write a (C (unat b)) (s\<lparr>vd := w\<rparr>))"
     "vio_ok D nblk w" "blocks D nblk w = dblocks D nblk s"
    using read_to_user[OF r p(1,2) ix(3) u] unfolding c by blast
  have vv: "vio_ok D nblk (vd s)" using r by (simp add: raid_ready_def)
  have len: "length (C (unat b)) = BSIZE" using vio.blk_len[OF vv p(1,2) ix(3)] unfolding c .
  have u1: "user_buf a (length (C (unat b))) (s\<lparr>vd := w\<rparr>)" using u len by (simp add: user_buf_def)
  let ?s' = "user_write a (C (unat b)) (s\<lparr>vd := w\<rparr>)"
  have "read_raid1 D b a s = Inr (0, ?s')"
    using ix p(3) disk_state_of[OF r p(1,2)] w(1) unfolding read_raid1_def Let_def by (simp add: alive_def)
  moreover have "mirror_array D nblk ?s' C"
    by (rule mirror_array_user_write[OF mirror_array_vd[OF ma w(2,3)] u1])
  moreover have "frame a BSIZE s ?s'" using user_write_frame[of a "C (unat b)" "s\<lparr>vd := w\<rparr>"] len by (simp add: frame_def)
  ultimately show ?thesis using user_block_write[OF len] u by (auto simp: user_buf_def)
qed

text \<open>Blocks of other pairs, and other blocks of the pair, are not on the disks and rows written.\<close>

lemma mirror_distinct:
  assumes "mirror_fields D s" "i < D div 2" "j < D div 2" "i \<noteq> j"
  shows "prim D s i \<noteq> prim D s j" "prim D s i \<noteq> cop D s j" "cop D s i = cop D s j \<Longrightarrow> cop D s i = lost"
  using assms by (simp_all add: mirror_fields_def)

lemma mirror_array_write:
  assumes ma: "mirror_array D nblk s C" and v: "mirror_valid D nblk c" and vw: "vio_ok D nblk w"
    and bl: "blocks D nblk w = (\<lambda>d st. if st = c div (D div 2) + 1 \<and>
         (d = prim D s (c mod (D div 2)) \<or> d = cop D s (c mod (D div 2)) \<and> d \<noteq> lost) then bs else dblocks D nblk s d st)"
  shows "mirror_array D nblk (s\<lparr>vd := w\<rparr>) (C(c := bs))"
proof -
  let ?n = "D div 2" and ?i = "c mod (D div 2)" and ?t = "s\<lparr>vd := w\<rparr>"
  have n: "0 < ?n" using mirror_D[OF ma] by simp
  have mf: "mirror_fields D s" using ma by (simp add: mirror_array_def)
  have "dblocks D nblk ?t (prim D s (b mod ?n)) (b div ?n + 1) = (C(c := bs)) b \<and>
      (cop D s (b mod ?n) \<noteq> lost \<longrightarrow> dblocks D nblk ?t (cop D s (b mod ?n)) (b div ?n + 1) = (C(c := bs)) b)"
    if b: "mirror_valid D nblk b" for b
  proof (cases "b = c")
    case True
    then show ?thesis by (simp add: bl)
  next
    case False
    have old: "dblocks D nblk s (prim D s (b mod ?n)) (b div ?n + 1) = C b"
      "cop D s (b mod ?n) \<noteq> lost \<Longrightarrow> dblocks D nblk s (cop D s (b mod ?n)) (b div ?n + 1) = C b"
      using ma b by (simp_all add: mirror_array_def Let_def)
    have lt: "b mod ?n < ?n" "c mod ?n < ?n" using n by simp_all
    have "b div ?n \<noteq> c div ?n \<or> b mod ?n \<noteq> c mod ?n" using False by (metis div_mult_mod_eq)
    then show ?thesis
    proof
      assume "b mod ?n \<noteq> c mod ?n"
      note d = mirror_distinct[OF mf lt this] mirror_distinct[OF mf lt(2,1) this[symmetric]]
      show ?thesis using old False d by (auto simp: bl)
    qed (use old False in \<open>auto simp: bl\<close>)
  qed
  moreover have "raid_ready D nblk ?t" using ma vw by (simp add: mirror_array_def raid_ready_def)
  moreover have "mirror_fields D ?t" using mf by simp
  ultimately show ?thesis by (simp add: mirror_array_def Let_def)
qed

lemma mirror_write_ok:
  assumes ma: "mirror_array D nblk s C" and v: "mirror_valid D nblk (unat b)" and u: "user_buf a BSIZE s"
  shows "\<exists>w. write_raid1 D b a s = Inr (0, s\<lparr>vd := w\<rparr>) \<and>
     mirror_array D nblk (s\<lparr>vd := w\<rparr>) (C(unat b := user_block a s))"
proof -
  let ?i = "unat b mod (D div 2)" and ?st = "unat b div (D div 2) + 1"
  note ix = mirror_index[OF ma v]
  have r: "raid_ready D nblk s" using ma by (simp add: mirror_array_def)
  have p: "1 \<le> prim D s ?i" "prim D s ?i \<le> D" "alive s (prim D s ?i - 1)" using ix(9) by (simp_all add: pair_ok_def)
  obtain w where w: "write_block_from (int (prim D s ?i)) (int ?st) a s = Inr (s\<lparr>vd := w\<rparr>)"
     "vio_ok D nblk w" "blocks D nblk w = upd2 (dblocks D nblk s) (prim D s ?i) ?st (user_block a s)"
    using write_from_user[OF r p(1,2) ix(3) u] by blast
  have r1: "raid_ready D nblk (s\<lparr>vd := w\<rparr>)" using r w(2) by (simp add: raid_ready_def)
  show ?thesis
  proof (cases "cop D s ?i = lost")
    case True
    have nd: "num_dead_disks s = DEAD" using ix(9) True by (simp add: pair_ok_def DEAD_def)
    have "write_raid1 D b a s = Inr (0, s\<lparr>vd := w\<rparr>)"
      using ix p(3) disk_state_of[OF r p(1,2)] w(1) disk_state_lost[OF r1, of "fld (W_copy_disks D + ?i) s"] True nd
      unfolding write_raid1_def Let_def by (simp add: alive_def)
    moreover have "mirror_array D nblk (s\<lparr>vd := w\<rparr>) (C(unat b := user_block a s))"
      by (rule mirror_array_write[OF ma v w(2)]) (use w(3) True in \<open>auto simp: upd2_apply fun_eq_iff\<close>)
    ultimately show ?thesis by blast
  next
    case False
    then have c: "1 \<le> cop D s ?i" "cop D s ?i \<le> D" "alive s (cop D s ?i - 1)"
      using ix(9) by (simp_all add: pair_ok_def)
    have u1: "user_buf a BSIZE (s\<lparr>vd := w\<rparr>)" "user_block a (s\<lparr>vd := w\<rparr>) = user_block a s"
      using u by (simp_all add: user_buf_def user_block_def)
    obtain w' where w': "write_block_from (int (cop D s ?i)) (int ?st) a (s\<lparr>vd := w\<rparr>) = Inr (s\<lparr>vd := w'\<rparr>)"
       "vio_ok D nblk w'" "blocks D nblk w' = upd2 (blocks D nblk w) (cop D s ?i) ?st (user_block a s)"
      using write_from_user[OF r1 c(1,2) ix(3) u1(1)] unfolding u1(2) by auto
    have "write_raid1 D b a s = Inr (0, s\<lparr>vd := w'\<rparr>)"
      using ix p(3) disk_state_of[OF r p(1,2)] w(1) disk_state_of[OF r1 c(1,2)] c(3) w'(1)
      unfolding write_raid1_def Let_def by (simp add: alive_def)
    moreover have "mirror_array D nblk (s\<lparr>vd := w'\<rparr>) (C(unat b := user_block a s))"
      by (rule mirror_array_write[OF ma v w'(2)]) (use w(3) w'(3) False in \<open>auto simp: upd2_apply fun_eq_iff\<close>)
    ultimately show ?thesis by blast
  qed
qed

interpretation mirror: raid_array "mirror_array D nblk" "mirror_valid D nblk" "read_raid1 D"
    "\<lambda>a. user_buf a BSIZE" user_block "write_raid1 D" user_write BSIZE for D nblk
proof unfold_locales
  show "\<exists>s'. read_raid1 D b a s = Inr (0, s') \<and> mirror_array D nblk s' C \<and> user_buf a BSIZE s' \<and>
      user_block a s' = C (unat b)"
    if "mirror_array D nblk s C" "mirror_valid D nblk (unat b)" "user_buf a BSIZE s" for s C b a
    using mirror_read_ok[OF that] by blast
  show "\<exists>s'. write_raid1 D b a s = Inr (0, s') \<and> mirror_array D nblk s' (C(unat b := user_block a s)) \<and>
      user_buf a BSIZE s'"
    if "mirror_array D nblk s C" "mirror_valid D nblk (unat b)" "user_buf a BSIZE s" for s C b a
    using mirror_write_ok[OF that] that(3) by (auto simp: user_buf_def)
  show "mirror_array D nblk (user_write a bs s) C \<and> user_buf a BSIZE (user_write a bs s) \<and>
      user_block a (user_write a bs s) = bs"
    if "mirror_array D nblk s C" "user_buf a BSIZE s" "length bs = BSIZE" for s C a bs
    using mirror_array_user_write[OF that(1), of a bs] that user_block_write by (simp add: user_buf_def)
qed

section \<open>Creation\<close>

definition as_created :: "nat \<Rightarrow> 'd rsys \<Rightarrow> bool" where
  "as_created D s \<longleftrightarrow> num_dead_disks s = 0 \<and> reserve_disk D s = -1 \<and>
     (\<forall>i<D div 2. prim D s i = i + 1 \<and> cop D s i = i + 1 + D div 2) \<and> (\<forall>d<D. fld (W_disk_state + d) s = ALIVE)"

text \<open>The words that are set, in their order.\<close>

definition mirror_words :: "nat \<Rightarrow> nat \<Rightarrow> u32 \<Rightarrow> (nat \<times> u32) list" where
  "mirror_words D DS raid =
     (let n = of_nat (D div 2); reserve = (if D mod 2 = 0 then -1 else of_nat D) in
      [(0, 1), (1, raid), (3, of_nat BLOCKSIZE), (2, of_nat D), (5, 0), (W_reserve_disk D, -1),
       (4, capacity DS (of_nat D))] @ (if raid = RAID0_1 then [(W_stripe_cursor D, -1)] else []) @
      [(2, n), (W_reserve_disk D, reserve), (6, n + 1 + (if reserve \<noteq> -1 then 1 else 0))] @
         concat (map (\<lambda>i. [(W_data_disks D + i, of_nat (i + 1)),
                           (W_copy_disks D + i, of_nat (i + 1 + D div 2))]) [0..<D div 2]) @
         [(4, capacity DS n)])"

lemma set_flds_append: "set_flds (xs @ ys) s = set_flds ys (set_flds xs s)"
  by (simp add: set_flds_def)

lemma init_fields_mirror:
  assumes "raid = RAID1 \<or> raid = RAID0_1"
  shows "init_fields D DS raid s = set_flds (mirror_words D DS raid) s"
proof -
  have n: "RAID1 \<noteq> RAID0_1" by (simp add: const_simps)
  from assms show ?thesis
    unfolding init_fields_def init_type_def init_mirror_def mirror_words_def Let_def set_flds_append
    by (elim disjE; simp only: n if_False if_True refl set_flds_simps not_False_eq_True append_Nil)
qed

lemma mirror_words_bound: "D \<le> 6 \<Longrightarrow> \<forall>(j, v)\<in>set (mirror_words D DS raid). j < 128"
  by (auto simp: mirror_words_def Let_def layout_simps)

lemma map_of_pairs:
  assumes "A + n \<le> B" "m \<le> n"
  shows "map_of (rev (concat (map (\<lambda>i. [(A + i, f i), (B + i, g i)]) [0..<m]))) j =
     (if A \<le> j \<and> j < A + m then Some (f (j - A)) else if B \<le> j \<and> j < B + m then Some (g (j - B)) else None)"
  using assms(2)
proof (induction m)
  case (Suc m)
  then show ?case using assms(1) by (auto simp: upt_Suc)
qed simp

lemma mirror_words_small:
  fixes D DS :: nat and raid :: u32
  assumes D: "even D" "2 \<le> D"
  defines "M \<equiv> map_of (rev (mirror_words D DS raid))"
  shows "M 0 = Some 1" "M 1 = Some raid" "M 2 = Some (of_nat (D div 2))" "M 5 = Some 0"
    "M (W_reserve_disk D) = Some (-1)" "M 4 = Some (capacity DS (of_nat (D div 2)))"
    "i < D div 2 \<Longrightarrow> M (W_data_disks D + i) = Some (of_nat (i + 1))"
    "i < D div 2 \<Longrightarrow> M (W_copy_disks D + i) = Some (of_nat (i + 1 + D div 2))"
    "d < D \<Longrightarrow> M (W_disk_state + d) = None"
proof -
  have e: "D mod 2 = 0" using D(1) by presburger
  have b: "W_data_disks D + D div 2 \<le> W_copy_disks D" by (simp add: layout_simps)
  note M = M_def mirror_words_def Let_def rev_append map_of_append map_add_def map_of_pairs[OF b order_refl] if_P[OF e]
  show "M 0 = Some 1" "M 1 = Some raid" "M 2 = Some (of_nat (D div 2))" "M 5 = Some 0"
    "M (W_reserve_disk D) = Some (-1)" "M 4 = Some (capacity DS (of_nat (D div 2)))" unfolding M by (simp_all add: layout_simps)
  show "M (W_data_disks D + i) = Some (of_nat (i + 1))" "M (W_copy_disks D + i) = Some (of_nat (i + 1 + D div 2))"
    if "i < D div 2" using that unfolding M by (simp_all add: layout_simps)
  show "M (W_disk_state + d) = None" if "d < D" using that unfolding M by (simp add: layout_simps)
qed

lemma unat_small32: "n < 2 ^ 32 \<Longrightarrow> unat (of_nat n :: u32) = n"
  by (simp only: unat_of_nat) simp

lemma created_fields:
  assumes D: "even D" "2 \<le> D" "D \<le> 6" and ty: "raid = RAID1 \<or> raid = RAID0_1"
    and z: "\<forall>j<W_cache D + 2. fld j s1 = (if j < W_cache D then 0 else -1)"
    and f: "\<forall>j<W_cache D + 2. fld j s = fld j (init_fields D DS raid s1)"
  shows "as_created D s" "raid_initialized s = 1" "raid_type s = raid" "unat (num_of_disks s) = D div 2"
    "max_blocks s = capacity DS (of_nat (D div 2))"
proof -
  have g: "fld j s = (case map_of (rev (mirror_words D DS raid)) j of None \<Rightarrow> 0 | Some v \<Rightarrow> v)" if "j < W_cache D" for j
  proof -
    have "j < 128" using that D by (simp add: layout_simps)
    then show ?thesis
      using fld_set_flds[OF mirror_words_bound[OF D(3)], of j DS raid s1] that f z
      by (simp add: init_fields_mirror[OF ty] split: option.split)
  qed
  note w = mirror_words_small[OF D(1,2), where DS = DS and raid = raid]
  show "raid_initialized s = 1" "raid_type s = raid" "unat (num_of_disks s) = D div 2"
    "max_blocks s = capacity DS (of_nat (D div 2))"
    using g[of 0] g[of 1] g[of 2] g[of 4] w(1-3,6) D by (simp_all add: layout_simps unat_of_nat)
  have "prim D s i = i + 1 \<and> cop D s i = i + 1 + D div 2" if i: "i < D div 2" for i
  proof -
    have "W_data_disks D + i < W_cache D" "W_copy_disks D + i < W_cache D" using i by (auto simp: layout_simps)
    then have "fld (W_data_disks D + i) s = of_nat (i + 1)" "fld (W_copy_disks D + i) s = of_nat (i + 1 + D div 2)"
      using g w(7,8) i by (simp_all add: layout_simps)
    then show ?thesis using unat_small32[of "i + 1"] unat_small32[of "i + 1 + D div 2"] i D by simp
  qed
  moreover have "num_dead_disks s = 0" "reserve_disk D s = -1"
    using g[of 5] g[of "W_reserve_disk D"] w(4,5) by (simp_all add: layout_simps)
  moreover have "fld (W_disk_state + d) s = ALIVE" if "d < D" for d
    using g[of "W_disk_state + d"] w(9) that by (simp add: ALIVE_def layout_simps)
  ultimately show "as_created D s" by (simp add: as_created_def)
qed

lemma created_mirror_fields:
  assumes c: "as_created D s" and D: "even D" "2 \<le> D" "D \<le> 6"
    and f: "raid_initialized s = 1" "raid_type s = RAID1 \<or> raid_type s = RAID0_1" "unat (num_of_disks s) = D div 2"
  shows "mirror_fields D s"
proof -
  have p: "prim D s i = i + 1" "cop D s i = i + 1 + D div 2" if "i < D div 2" for i
    using c that by (simp_all add: as_created_def)
  have a: "alive s d" if "d < D" for d using c that by (simp add: as_created_def alive_def const_simps)
  have "pair_ok D s i" if i: "i < D div 2" for i
  proof -
    have "i + D div 2 < D" "i < D" "D div 2 \<noteq> 0" using i D by presburger+
    then show ?thesis using p[OF i] a D by (simp add: pair_ok_def lost_def)
  qed
  then show ?thesis using f p D by (auto simp: mirror_fields_def)
qed

lemma init_mirror_array:
  fixes s :: "'d rsys"
  assumes fb: "fresh_boot D nblk s" and ev: "even D" and ty: "raid = RAID1 \<or> raid = RAID0_1"
  shows "\<exists>s'. init_raid D DS raid s = Inr (0, s') \<and> mirror_array D nblk s' (\<lambda>_. replicate BSIZE 0) \<and> as_created D s' \<and>
     raid_metadata s' = fst (kalloc (km s)) \<and> raid_initialized s' = 1 \<and> max_blocks s' = capacity DS (of_nat (D div 2)) \<and>
     (\<forall>x. \<not> within (fst (kalloc (km s))) PGSIZE x \<longrightarrow> mem s' x = phys (snd (kalloc (km s))) x)"
proof -
  have D: "2 \<le> D" "D \<le> 6" using fb by (simp_all add: fresh_boot_def)
  obtain s1 s' :: "'d rsys" where s': "\<forall>j<W_cache D + 2. fld j s1 = (if j < W_cache D then 0 else -1)"
     "init_raid D DS raid s = Inr (0, s')" "raid_ready D nblk s'" "raid_metadata s' = fst (kalloc (km s))"
     "\<forall>j<W_cache D + 2. fld j s' = fld j (init_fields D DS raid s1)"
     "\<forall>i b. 1 \<le> i \<and> i \<le> D \<and> 1 \<le> b \<and> b < nblk \<longrightarrow> dblocks D nblk s' i b = replicate BSIZE 0"
     "\<forall>x. \<not> within (fst (kalloc (km s))) PGSIZE x \<longrightarrow> mem s' x = phys (snd (kalloc (km s))) x"
    using init_raid_fresh[OF fb, of DS raid] by blast
  note c = created_fields[OF ev D ty s'(1,5)]
  have mf: "mirror_fields D s'" using created_mirror_fields[OF c(1) ev D c(2) _ c(4)] c(3) ty by simp
  have "dblocks D nblk s' (prim D s' (b mod (D div 2))) (b div (D div 2) + 1) = replicate BSIZE 0 \<and>
    (cop D s' (b mod (D div 2)) \<noteq> lost \<longrightarrow>
     dblocks D nblk s' (cop D s' (b mod (D div 2))) (b div (D div 2) + 1) = replicate BSIZE 0)"
    if "mirror_valid D nblk b" for b
  proof -
    have "b mod (D div 2) < D div 2" using D by simp
    then have "pair_ok D s' (b mod (D div 2))" using mf by (simp add: mirror_fields_def)
    then show ?thesis using s'(6) that by (auto simp: pair_ok_def mirror_valid_def)
  qed
  then have "mirror_array D nblk s' (\<lambda>_. replicate BSIZE 0)" using s'(3) mf by (simp add: mirror_array_def Let_def)
  then show ?thesis using s'(2,4,7) c(1,2,5) by blast
qed

section \<open>Failure of one disk\<close>

lemma find_last_word_ok:
  assumes ram: "ram (raid_metadata s) PGSIZE" and b: "base + unat (num_of_disks s) \<le> 1024"
  shows "find_last_word base v s = Inr (fold (\<lambda>i r. if fld (base + i) s = v then int i else r) [0..<unat (num_of_disks s)] (-1))"
proof -
  have "rfold (\<lambda>i r. rbind (raid_word base (int i) s) (\<lambda>w. Inr (if w = v then int i else r))) [0..<m] r0 =
      Inr (fold (\<lambda>i r. if fld (base + i) s = v then int i else r) [0..<m] r0)" if "m \<le> unat (num_of_disks s)" for m r0
    using that
  proof (induction m)
    case (Suc m)
    have "raid_word base (int m) s = Inr (fld (base + m) s)"
      using raid_word_fld[OF ram, of base "int m"] Suc.prems b by (simp add: nat_add_distrib)
    moreover have "[0..<Suc m] = [0..<m] @ [m]" by (simp add: upt_Suc)
    ultimately show ?case using Suc by (simp add: rfold_append)
  qed simp
  then show ?thesis by (simp add: find_last_word_def)
qed

lemma fold_last_none: "\<forall>i\<in>set xs. \<not> P i \<Longrightarrow> fold (\<lambda>i r. if P i then int i else r) xs r = r"
  by (induction xs arbitrary: r) auto

lemma fold_last_unique:
  "i0 \<in> set xs \<Longrightarrow> (\<forall>i\<in>set xs. P i \<longleftrightarrow> i = i0) \<Longrightarrow> fold (\<lambda>i r. if P i then int i else r) xs r = int i0"
proof (induction xs arbitrary: r)
  case (Cons x xs)
  show ?case
  proof (cases "i0 \<in> set xs")
    case False
    with Cons.prems have "x = i0" "\<forall>i\<in>set xs. \<not> P i" by auto
    with Cons.prems fold_last_none[of xs P] show ?thesis by simp
  qed (use Cons in simp)
qed simp

text \<open>The words after the failure of disk \<open>x + 1\<close> of an array as it was created.\<close>

definition failed_words :: "nat \<Rightarrow> nat \<Rightarrow> (nat \<times> u32) list" where
  "failed_words D x = [(W_disk_state + x, DEAD), (5, 1)] @
     (if x < D div 2 then [(W_data_disks D + x, of_nat (x + 1 + D div 2)), (W_copy_disks D + x, -1)]
      else [(W_copy_disks D + (x - D div 2), -1)])"

lemma mirror_fail_run:
  assumes ma: "mirror_array D nblk s C" and c: "as_created D s" and ev: "even D" and x: "x < D"
  shows "disk_fail_raid D (int x + 1) s = sync_meta D (set_flds (failed_words D x) s)"
proof -
  let ?n = "D div 2"
  have D: "2 \<le> D" "D \<le> 6" using mirror_D[OF ma] by simp_all
  have r: "raid_ready D nblk s" and mf: "mirror_fields D s" using ma by (simp_all add: mirror_array_def)
  have m: "raid_metadata s \<noteq> 0" "ram (raid_metadata s) PGSIZE"
    using r by (auto simp: raid_ready_def raid_wf_def dest: ram_not_null)
  have p: "prim D s i = i + 1" "cop D s i = i + 1 + ?n" if "i < ?n" for i using c that by (simp_all add: as_created_def)
  define s2 where "s2 = set_fld 5 (num_dead_disks s + 1) (set_fld (W_disk_state + x) DEAD s)"
  have ini: "raid_initialized s \<noteq> 0" using mf by (simp add: mirror_fields_def)
  have s5: "fld 5 (set_fld (W_disk_state + x) DEAD s) = num_dead_disks s" "num_dead_disks s = 0"
    using x D c by (simp_all add: fld_set_fld layout_simps as_created_def)
  have f2: "fld i s2 = (if i = 5 then 1 else if i = W_disk_state + x then DEAD else fld i s)" if "i < 128" for i
    using that x D s5(2) by (simp add: s2_def fld_set_fld layout_simps)
  have ram2: "ram (raid_metadata s2) PGSIZE" using m(2) by (simp add: s2_def)
  have ty: "raid_type s2 \<noteq> RAID0" "raid_type s2 \<noteq> RAID4" "raid_type s2 \<noteq> RAID5" "reserve_disk D s2 = -1"
    "unat (num_of_disks s2) = ?n"
    using mf c f2 D x by (auto simp: mirror_fields_def as_created_def const_simps layout_simps)
  have dw: "prim D s2 i = i + 1" "cop D s2 i = i + 1 + ?n" if "i < ?n" for i
    using f2 p[OF that] that D x by (simp_all add: layout_simps)
  have ux: "unat (of_int (int x + 1) :: u32) = x + 1" using unat_small32[of "x + 1"] x D by (simp add: add.commute)
  have weq: "fld (base + i) s2 = of_int (int x + 1) \<longleftrightarrow> unat (fld (base + i) s2) = x + 1" for base i
    using ux by (simp add: word_unat_eq_iff)
  have data: "find_last_word (W_data_disks D) (of_int (int x + 1)) s2 = Inr (if x < ?n then int x else -1)"
  proof -
    have e: "fold (\<lambda>i r. if fld (W_data_disks D + i) s2 = of_int (int x + 1) then int i else r) [0..<?n] (-1) =
        (if x < ?n then int x else -1)"
      unfolding weq using dw by (auto intro!: fold_last_unique fold_last_none)
    have "W_data_disks D + ?n \<le> 1024" using D by (simp add: layout_simps)
    then show ?thesis by (rule find_last_word_ok[OF ram2, of _ "of_int (int x + 1)", unfolded ty(5), of "W_data_disks D", unfolded e])
  qed
  have copy: "find_last_word (W_copy_disks D) (of_int (int x + 1)) s2 = Inr (int (x - ?n))" if "\<not> x < ?n"
  proof -
    have l: "x - ?n < ?n" using that x ev by presburger
    have e: "fold (\<lambda>i r. if fld (W_copy_disks D + i) s2 = of_int (int x + 1) then int i else r) [0..<?n] (-1) = int (x - ?n)"
      unfolding weq using dw that l by (intro fold_last_unique) auto
    have "W_copy_disks D + ?n \<le> 1024" using D by (simp add: layout_simps)
    then show ?thesis by (rule find_last_word_ok[OF ram2, of _ "of_int (int x + 1)", unfolded ty(5), of "W_copy_disks D", unfolded e])
  qed
  have al: "fld (W_disk_state + x) s \<noteq> DEAD" using c x by (simp add: as_created_def const_simps)
  have w: "set_raid_word base (int k) v t = Inr (set_fld (base + k) v t)"
    if "ram (raid_metadata t) PGSIZE" "base + k < 128" for base k v and t :: "'a rsys"
    using set_raid_word_fld[OF that(1), of base "int k"] that(2) by (simp add: nat_add_distrib)
  have body: "disk_fail_raid D (int x + 1) s =
      rbind (find_last_word (W_data_disks D) (of_int (int x + 1)) s2) (\<lambda>primary.
           if primary \<noteq> -1
           then rbind (copy_disks D primary s2) (\<lambda>c.
                rbind (set_raid_word (W_data_disks D) primary c s2) (\<lambda>s.
                rbind (set_raid_word (W_copy_disks D) primary (-1) s) (sync_meta D)))
           else rbind (find_last_word (W_copy_disks D) (of_int (int x + 1)) s2) (\<lambda>copy.
                rbind (set_raid_word (W_copy_disks D) copy (-1) s2) (sync_meta D)))"
    using m(1) ini x al disk_state_ok[OF r x] set_disk_state_ok[OF r x] ty
    by (simp add: disk_fail_raid_def Let_def s5(1) s2_def[symmetric] cong: if_cong)
  have s2: "s2 = set_flds [(W_disk_state + x, DEAD), (5, 1)] s" using s5(2) by (simp add: s2_def)
  show ?thesis
  proof (cases "x < ?n")
    case True
    have "raid_word (W_copy_disks D) (int x) s2 = Inr (fld (W_copy_disks D + x) s2)"
      using raid_word_fld[OF ram2, of "W_copy_disks D" "int x"] True D by (simp add: nat_add_distrib layout_simps)
    moreover have "fld (W_copy_disks D + x) s2 = of_nat (x + 1 + ?n)"
      using dw(2)[OF True] unat_small32[of "x + 1 + ?n"] True D by (simp add: word_unat_eq_iff)
    moreover have "W_data_disks D + x < 128" "W_copy_disks D + x < 128" using True D by (simp_all add: layout_simps)
    ultimately show ?thesis
      using True ram2 w[OF ram2, of "W_data_disks D" x] w[of "set_fld (W_data_disks D + x) v s2" for v]
      unfolding body data by (simp add: failed_words_def s2[symmetric] set_flds_append del: set_flds_simps) (simp add: s2)
  next
    case False
    then have "x - ?n < ?n" using x ev by presburger
    then have "W_copy_disks D + (x - ?n) < 128" using D by (simp add: layout_simps)
    then show ?thesis
      using False ram2 w[OF ram2, of "W_copy_disks D" "x - ?n"] copy[OF False]
      unfolding body data by (simp add: failed_words_def s2)
  qed
qed

lemma failed_words_lookup:
  assumes "x < D" "2 \<le> D" "D \<le> 6" "even D" and j: "j < 128"
  shows "fld j (set_flds (failed_words D x) s) =
     (if j = W_disk_state + x then DEAD else if j = 5 then 1
      else if x < D div 2 \<and> j = W_data_disks D + x then of_nat (x + 1 + D div 2)
      else if x < D div 2 \<and> j = W_copy_disks D + x \<or> \<not> x < D div 2 \<and> j = W_copy_disks D + (x - D div 2) then -1
      else fld j s)"
proof -
  have "x - D div 2 < D div 2 \<or> x < D div 2" using assms(1,4) by presburger
  then show ?thesis using assms by (auto simp: failed_words_def fld_set_fld layout_simps)
qed

lemma failed_words_framed:
  assumes "x < D" "2 \<le> D" "D \<le> 6" "even D"
  shows "framed D nblk s (set_flds (failed_words D x) s)"
proof -
  have "x - D div 2 < D div 2 \<or> x < D div 2" using assms(1,4) by presburger
  then show ?thesis using assms by (intro set_flds_framed) (auto simp: failed_words_def layout_simps)
qed

lemma mirror_array_fail:
  assumes ma: "mirror_array D nblk s C" and c: "as_created D s" and ev: "even D" and x: "x < D" and nb: "1 \<le> nblk"
  shows "\<exists>s'. disk_fail_raid D (int x + 1) s = Inr (0, s') \<and> mirror_array D nblk s' C \<and> page_only s s' \<and> \<not> alive s' x \<and>
     (\<forall>i<D div 2. cop D s' i = (if i = x \<or> i + D div 2 = x then lost else i + 1 + D div 2))"
proof -
  let ?n = "D div 2" and ?s2 = "set_flds (failed_words D x) s"
  have D: "2 \<le> D" "D \<le> 6" using mirror_D[OF ma] by simp_all
  have r: "raid_ready D nblk s" and mf: "mirror_fields D s" using ma by (simp_all add: mirror_array_def)
  have fr: "framed D nblk s ?s2" by (rule failed_words_framed[OF x D ev])
  note f2 = failed_words_lookup[OF x D ev, where s = s]
  obtain v where v: "writeback D ?s2 = Inr (?s2\<lparr>vd := v\<rparr>)" "vio_ok D nblk v"
     "blocks D nblk v = (\<lambda>i b. if 1 \<le> i \<and> i \<le> D \<and> b = 0 \<and> kept ?s2 (i - 1) then meta_block ?s2
                               else dblocks D nblk ?s2 i b)"
    using writeback_ok[of D nblk ?s2] fr r nb by (auto simp: framed_def)
  let ?t = "?s2\<lparr>vd := v\<rparr>"
  have bl: "dblocks D nblk ?t d (Suc k) = dblocks D nblk s d (Suc k)" for d k using v(3) fr by (simp add: framed_def)
  have run: "disk_fail_raid D (int x + 1) s = Inr (0, ?t)"
    unfolding mirror_fail_run[OF ma c ev x] sync_meta_def using v(1) by simp
  have p: "prim D s i = i + 1" "cop D s i = i + 1 + ?n" if "i < ?n" for i using c that by (simp_all add: as_created_def)
  have pt: "prim D ?t i = (if i = x then x + 1 + ?n else i + 1)"
    "cop D ?t i = (if i = x \<or> i + ?n = x then lost else i + 1 + ?n)" if i: "i < ?n" for i
  proof -
    have l: "unat (-1 :: u32) = lost" by (simp add: lost_def unsigned_minus_1_eq_mask mask_eq_exp_minus_1)
    have "unat (of_nat (x + 1 + ?n) :: u32) = x + 1 + ?n" by (rule unat_small32) (use x D in simp)
    then show "prim D ?t i = (if i = x then x + 1 + ?n else i + 1)"
      using f2[of "W_data_disks D + i"] i p[OF i] D x by (auto simp: layout_simps)
    show "cop D ?t i = (if i = x \<or> i + ?n = x then lost else i + 1 + ?n)"
      using f2[of "W_copy_disks D + i"] i p[OF i] l D x by (auto simp: layout_simps)
  qed
  have al: "alive ?t d \<longleftrightarrow> d \<noteq> x" if "d < D" for d
    using f2[of "W_disk_state + d"] c that x D by (auto simp: alive_def layout_simps as_created_def const_simps)
  have nd: "num_dead_disks ?t = 1" using f2[of 5] by (simp add: layout_simps)
  have pok: "pair_ok D ?t i" if i: "i < ?n" for i
  proof -
    have b: "i + ?n < D" "i < D" "?n \<noteq> 0" using i ev D by presburger+
    show ?thesis
      unfolding pair_ok_def pt[OF i] using b al[of "i + ?n"] al[of i] nd D x by (auto simp: lost_def)
  qed
  have fs: "raid_initialized ?t = raid_initialized s" "raid_type ?t = raid_type s" "num_of_disks ?t = num_of_disks s"
    using f2[of 0] f2[of 1] f2[of 2] by (simp_all add: layout_simps)
  have "mirror_fields D ?t"
    using mf pok pt D x unfolding mirror_fields_def fs by (auto simp: lost_def)
  moreover have "raid_ready D nblk ?t" using fr r v(2) by (simp add: framed_def raid_ready_def)
  moreover have "dblocks D nblk ?t (prim D ?t (b mod ?n)) (Suc (b div ?n)) = C b \<and>
      (cop D ?t (b mod ?n) \<noteq> lost \<longrightarrow> dblocks D nblk ?t (cop D ?t (b mod ?n)) (Suc (b div ?n)) = C b)"
    if b: "mirror_valid D nblk b" for b
  proof -
    have i: "b mod ?n < ?n" using D by simp
    have h: "dblocks D nblk s (prim D s (b mod ?n)) (b div ?n + 1) = C b"
      "cop D s (b mod ?n) \<noteq> lost \<Longrightarrow> dblocks D nblk s (cop D s (b mod ?n)) (b div ?n + 1) = C b"
      using ma b by (simp_all add: mirror_array_def Let_def)
    have "b mod ?n + 1 + ?n < 8" using i D by linarith
    then have nl: "b mod ?n + 1 + ?n \<noteq> lost" by (simp add: lost_def)
    have "dblocks D nblk s (b mod ?n + 1) (Suc (b div ?n)) = C b" "dblocks D nblk s (b mod ?n + 1 + ?n) (Suc (b div ?n)) = C b"
      using h[unfolded p[OF i]] nl by simp_all
    then show ?thesis unfolding pt[OF i] bl by auto
  qed
  ultimately have "mirror_array D nblk ?t C" by (simp add: mirror_array_def Let_def)
  then show ?thesis using run fr al[OF x] pt(2) by (intro exI[of _ ?t]) (simp add: framed_def)
qed

section \<open>Properties\<close>

lemma mirror_dispatch:
  assumes "mirror_array D nblk s C" "\<not> rw_refused b va s"
  shows "read_raid D pt b va s = read_raid1 D b (user_paddr pt va s) s"
    "write_raid D pt b va s = write_raid1 D b (user_paddr pt va s) s"
proof -
  have "raid_type s = RAID1 \<or> raid_type s = RAID0_1" using assms(1) by (simp add: mirror_array_def mirror_fields_def)
  then show "read_raid D pt b va s = read_raid1 D b (user_paddr pt va s) s"
    "write_raid D pt b va s = write_raid1 D b (user_paddr pt va s) s"
    unfolding read_raid_def write_raid_def using assms(2)
    by (elim disjE; simp only: raid_rw_def; simp add: const_simps read_raid01_def write_raid01_def)+
qed

text \<open>The mirrored array on the concrete machine.\<close>

lemma booted_mirror:
  obtains s where "init_raid 4 134217728 RAID1 (boot_sys 4) = Inr (0, s)"
    "mirror_array 4 131072 s (\<lambda>_. replicate BSIZE 0)" "as_created 4 s"
    "\<And>b. b < 524286 \<Longrightarrow> \<not> rw_refused b 0x1000 s"
    "user_paddr 0x80300000 0x1000 s = 0x80200000" "user_buf 0x80200000 BSIZE s"
proof -
  obtain s where s: "init_raid 4 134217728 RAID1 (boot_sys 4) = Inr (0, s)"
    "mirror_array 4 131072 s (\<lambda>_. replicate BSIZE 0)" "as_created 4 s" "raid_metadata s = 0x80100000"
    "raid_initialized s = 1" "max_blocks s = capacity 134217728 (of_nat (4 div 2))"
    "\<forall>x. \<not> within 0x80100000 PGSIZE x \<longrightarrow> mem s x = phys (snd (kalloc (km (boot_sys 4)))) x"
    using init_mirror_array[OF boot_sys_fresh, of 4 131072 RAID1 134217728] unfolding boot_sys_page by auto
  have rf: "\<not> rw_refused b 0x1000 s" if "b < 524286" for b
  proof -
    have "0 \<le> sint b" using that sint_small[of b] by (simp add: word_less_nat_alt)
    moreover have "max_blocks s = 524286" using s(6) by (simp add: capacity_def const_simps)
    ultimately show ?thesis using that s(4,5) unfolding rw_refused_def by simp
  qed
  have "user_buf 0x80200000 BSIZE s" by (rule boot_user_buf[OF s(4)]) (simp add: const_simps)
  from that[OF s(1,2,3) rf boot_user_paddr[OF s(7)] this] show ?thesis .
qed

text \<open>
  C16: RAID 1 and RAID 0+1 implement an array of 1024-byte blocks: \<^verbatim>\<open>write_raid\<close> stores the
  caller's block and no other, and a \<^verbatim>\<open>read_raid\<close> of the same block afterwards gives the bytes
  back; also when one disk is dead.
\<close>

theorem mirror_write_read:
  assumes "mirror_array D nblk s C" "mirror_valid D nblk (unat b)" "\<not> rw_refused b va s"
    and "user_buf (user_paddr pt va s) BSIZE s"
  shows "\<exists>s' s''. write_raid D pt b va s = Inr (0, s') \<and>
     mirror_array D nblk s' (C(unat b := user_block (user_paddr pt va s) s)) \<and>
     read_raid D pt b va s' = Inr (0, s'') \<and>
     user_block (user_paddr pt va s) s'' = user_block (user_paddr pt va s) s"
proof -
  let ?a = "user_paddr pt va s"
  obtain w where w: "write_raid1 D b ?a s = Inr (0, s\<lparr>vd := w\<rparr>)"
     "mirror_array D nblk (s\<lparr>vd := w\<rparr>) (C(unat b := user_block ?a s))"
    using mirror_write_ok[OF assms(1,2,4)] by blast
  have nr: "\<not> rw_refused b va (s\<lparr>vd := w\<rparr>)" using assms(3) by (simp add: rw_refused_def)
  have a: "user_paddr pt va (s\<lparr>vd := w\<rparr>) = ?a" by (simp add: user_paddr_def)
  have u: "user_buf ?a BSIZE (s\<lparr>vd := w\<rparr>)" using assms(4) by (simp add: user_buf_def)
  obtain s'' where s'': "read_raid1 D b ?a (s\<lparr>vd := w\<rparr>) = Inr (0, s'')" "user_block ?a s'' = user_block ?a s"
    using mirror_read_ok[OF w(2) assms(2) u] by auto
  show ?thesis
    using w s'' mirror_dispatch(1)[OF w(2) nr, of pt, unfolded a] mirror_dispatch(2)[OF assms(1,3), of pt] by auto
qed

theorem mirror_write_read_witness:
  "\<exists>s s' s''. init_raid 4 134217728 RAID1 (boot_sys 4) = Inr (0, s) \<and>
     write_raid 4 0x80300000 9 0x1000 s = Inr (0, s') \<and> read_raid 4 0x80300000 9 0x1000 s' = Inr (0, s'') \<and>
     user_block 0x80200000 s'' = user_block 0x80200000 s"
proof -
  obtain s where s: "init_raid 4 134217728 RAID1 (boot_sys 4) = Inr (0, s)"
    "mirror_array 4 131072 s (\<lambda>_. replicate BSIZE 0)" "\<not> rw_refused 9 0x1000 s"
    "user_paddr 0x80300000 0x1000 s = 0x80200000" "user_buf 0x80200000 BSIZE s"
    by (rule booted_mirror) auto
  have "mirror_valid 4 131072 (unat (9 :: u32))" by (simp add: mirror_valid_def)
  from mirror_write_read[OF s(2) this s(3), of "0x80300000"] s show ?thesis by auto
qed

text \<open>
  C17: a mirrored array with an even number of disks survives the failure of any one disk:
  \<^verbatim>\<open>disk_fail_raid\<close> returns 0 and every block reads back with its contents.
\<close>

theorem mirror_single_failure:
  assumes "mirror_array D nblk s C" "as_created D s" "even D" "1 \<le> x" "x \<le> int D" "1 \<le> nblk"
  shows "\<exists>s'. disk_fail_raid D x s = Inr (0, s') \<and> mirror_array D nblk s' C \<and> \<not> alive s' (nat x - 1) \<and>
     (\<forall>b a. mirror_valid D nblk (unat b) \<longrightarrow> user_buf a BSIZE s' \<longrightarrow>
        (\<exists>s''. read_raid1 D b a s' = Inr (0, s'') \<and> user_block a s'' = C (unat b)))"
proof -
  have x: "nat x - 1 < D" "int (nat x - 1) + 1 = x" using assms(4,5) by auto
  obtain s' where s': "disk_fail_raid D x s = Inr (0, s')" "mirror_array D nblk s' C" "\<not> alive s' (nat x - 1)"
    using mirror_array_fail[OF assms(1,2,3) x(1) assms(6)] unfolding x(2) by blast
  then show ?thesis using mirror_read_ok[OF s'(2)] by blast
qed

theorem mirror_single_failure_witness:
  "\<exists>s s'. init_raid 4 134217728 RAID1 (boot_sys 4) = Inr (0, s) \<and> disk_fail_raid 4 1 s = Inr (0, s') \<and>
     mirror_array 4 131072 s' (\<lambda>_. replicate BSIZE 0)"
proof -
  obtain s where s: "init_raid 4 134217728 RAID1 (boot_sys 4) = Inr (0, s)"
    "mirror_array 4 131072 s (\<lambda>_. replicate BSIZE 0)" "as_created 4 s"
    by (rule booted_mirror) auto
  from mirror_single_failure[OF s(2,3), of 1] s(1) show ?thesis by auto
qed



end
