(* ===== verification/Raid_Striped.thy ===== *)
theory Raid_Striped
  imports Raid_Mirror
begin

unbundle bit_operations_syntax

text \<open>
  RAID 0: block \<open>b\<close> is on disk \<open>b mod D + 1\<close>, in row \<open>b div D + 1\<close>.  \<^verbatim>\<open>read_raid0\<close> looks at the
  state of the disk, \<^verbatim>\<open>write_raid0\<close> at the word with the index of the row.
\<close>

definition striped_valid :: "nat \<Rightarrow> nat \<Rightarrow> nat \<Rightarrow> bool" where
  "striped_valid D nblk b \<longleftrightarrow> b div D + 1 < nblk"

definition striped_array :: "nat \<Rightarrow> nat \<Rightarrow> 'd rsys \<Rightarrow> (nat \<Rightarrow> byte list) \<Rightarrow> bool" where
  "striped_array D nblk s C \<longleftrightarrow> raid_ready D nblk s \<and> raid_initialized s \<noteq> 0 \<and> raid_type s = RAID0 \<and>
     unat (num_of_disks s) = D \<and>
     (\<forall>b. striped_valid D nblk b \<longrightarrow> dblocks D nblk s (b mod D + 1) (b div D + 1) = C b)"

lemma striped_D: "striped_array D nblk s C \<Longrightarrow> 2 \<le> D \<and> D \<le> 6"
  by (simp add: striped_array_def raid_ready_def raid_wf_def)

lemma striped_index:
  assumes "striped_array D nblk s C" "striped_valid D nblk (unat b)"
  defines "i \<equiv> unat b mod D" and "st \<equiv> unat b div D + 1"
  shows "num_of_disks s \<noteq> 0" "i < D" "st < nblk" "st < 2 ^ 31"
    "sint (b mod num_of_disks s + 1) = int (i + 1)" "sint (b div num_of_disks s + 1) = int st"
proof -
  have D: "2 \<le> D" "D \<le> 6" using striped_D[OF assms(1)] by simp_all
  have n: "unat (num_of_disks s) = D" using assms(1) by (simp add: striped_array_def)
  show "num_of_disks s \<noteq> 0" using n D by auto
  show i: "i < D" using D by (simp add: i_def)
  show st: "st < nblk" using assms(2) by (simp add: striped_valid_def st_def)
  then show st31: "st < 2 ^ 31" using assms(1) by (simp add: striped_array_def raid_ready_def vio_ok_def)
  have "unat (b mod num_of_disks s + 1) = i + 1" using unat_mod_plus1[of "num_of_disks s" b] n D by (simp add: i_def)
  then show "sint (b mod num_of_disks s + 1) = int (i + 1)"
    using sint_small[of "b mod num_of_disks s + 1"] i D by simp
  have "unat (b div num_of_disks s + 1) = st"
    using unat_div_plus1[of b "num_of_disks s"] st31 n by (simp add: st_def)
  then show "sint (b div num_of_disks s + 1) = int st" using sint_small[of "b div num_of_disks s + 1"] st31 by simp
qed

lemma striped_vd:
  assumes "striped_array D nblk s C" "vio_ok D nblk w"
    and "\<forall>b. striped_valid D nblk b \<longrightarrow> blocks D nblk w (b mod D + 1) (b div D + 1) = C' b"
  shows "striped_array D nblk (s\<lparr>vd := w\<rparr>) C'"
  using assms by (simp add: striped_array_def raid_ready_def)

lemma striped_user_write:
  assumes "striped_array D nblk s C" "user_buf a (length bs) s"
  shows "striped_array D nblk (user_write a bs s) C"
  using assms user_write_views(1,3)[OF assms(2)] by (simp add: striped_array_def)

section \<open>Creation\<close>

lemma init_striped:
  fixes s :: "'d rsys"
  assumes fb: "fresh_boot D nblk s"
  shows "\<exists>s'. init_raid D DS RAID0 s = Inr (0, s') \<and> striped_array D nblk s' (\<lambda>_. replicate BSIZE 0) \<and>
     raid_metadata s' = fst (kalloc (km s)) \<and> (\<forall>d<D. alive s' d)"
proof -
  have D: "2 \<le> D" "D \<le> 6" using fb by (simp_all add: fresh_boot_def)
  obtain s1 s' :: "'d rsys" where s': "\<forall>j<W_cache D + 2. fld j s1 = (if j < W_cache D then 0 else -1)"
     "init_raid D DS RAID0 s = Inr (0, s')" "raid_ready D nblk s'" "raid_metadata s' = fst (kalloc (km s))"
     "\<forall>j<W_cache D + 2. fld j s' = fld j (init_fields D DS RAID0 s1)"
     "\<forall>i b. 1 \<le> i \<and> i \<le> D \<and> 1 \<le> b \<and> b < nblk \<longrightarrow> dblocks D nblk s' i b = replicate BSIZE 0"
    using init_raid_fresh[OF fb, of DS RAID0] by blast
  have ty: "RAID0 \<noteq> RAID0_1" "RAID0 \<noteq> RAID1" "RAID0 \<noteq> RAID4" "RAID0 \<noteq> RAID5" by (simp_all add: const_simps)
  have "raid_initialized s' = 1" "raid_type s' = RAID0" "num_of_disks s' = of_nat D"
    using s'(5) D ty by (simp_all add: init_fields_def init_type_def fld_set_fld layout_simps)
  moreover have "alive s' d" if "d < D" for d
    using s'(1,5) D ty that by (simp add: init_fields_def init_type_def fld_set_fld layout_simps alive_def DEAD_def)
  moreover have "dblocks D nblk s' (b mod D + 1) (b div D + 1) = replicate BSIZE 0" if "striped_valid D nblk b" for b
  proof -
    have "b mod D < D" using D by simp
    then show ?thesis using s'(6) that by (simp add: striped_valid_def Suc_le_eq)
  qed
  ultimately show ?thesis
    using s'(2-4) unat_small32[of D] D by (intro exI[of _ s']) (simp add: striped_array_def)
qed

lemma booted_striped:
  obtains s where "init_raid 4 134217728 RAID0 (boot_sys 4) = Inr (0, s)"
    "striped_array 4 131072 s (\<lambda>_. replicate BSIZE 0)" "\<forall>d<4. alive s d" "user_buf 0x80200000 BSIZE s"
proof -
  obtain s where s: "init_raid 4 134217728 RAID0 (boot_sys 4) = Inr (0, s)"
    "striped_array 4 131072 s (\<lambda>_. replicate BSIZE 0)" "raid_metadata s = 0x80100000" "\<forall>d<4. alive s d"
    using init_striped[OF boot_sys_fresh, of 4 131072 134217728] unfolding boot_sys_page by auto
  have "user_buf 0x80200000 BSIZE s" by (rule boot_user_buf[OF s(3)]) (simp add: const_simps)
  from that[OF s(1,2,4) this] show ?thesis .
qed

lemma striped_fail:
  assumes "striped_array D nblk s C" "x < D" "alive s x" "1 \<le> nblk"
  shows "\<exists>s'. disk_fail_raid D (int x + 1) s = Inr (0, s') \<and> striped_array D nblk s' C \<and> page_only s s' \<and>
     (\<forall>d<D. alive s' d \<longleftrightarrow> alive s d \<and> d \<noteq> x)"
proof -
  have D: "2 \<le> D" "D \<le> 6" using striped_D[OF assms(1)] by simp_all
  obtain s' where s': "disk_fail_raid D (int x + 1) s = Inr (0, s')" "raid_ready D nblk s'" "page_only s s'"
     "\<forall>i<128. fld i s' = (if i = 5 then num_dead_disks s + 1 else if i = W_disk_state + x then DEAD else fld i s)"
     "dblocks D nblk s' = (\<lambda>i b. if 1 \<le> i \<and> i \<le> D \<and> b = 0 \<and> kept s' (i - 1) then meta_block s'
                               else dblocks D nblk s i b)"
    using disk_fail_run[OF _ assms(4,2,3)] assms(1) by (auto simp: striped_array_def)
  have "striped_array D nblk s' C"
    using assms(1,2) s'(2,4,5) by (simp add: striped_array_def layout_simps)
  moreover have "alive s' d \<longleftrightarrow> alive s d \<and> d \<noteq> x" if "d < D" for d
    using s'(4) that D assms(2) by (simp add: alive_def layout_simps)
  ultimately show ?thesis using s'(1,3) by blast
qed

section \<open>Reading and writing\<close>

text \<open>
  C25: \<^verbatim>\<open>read_raid0\<close> gives the block when its disk is alive, and returns -1 and changes nothing
  when it is dead.
\<close>

theorem read_raid0_ok:
  assumes "striped_array D nblk s C" "striped_valid D nblk (unat b)" "user_buf a BSIZE s"
  shows "if alive s (unat b mod D)
     then \<exists>s'. read_raid0 b a s = Inr (0, s') \<and> striped_array D nblk s' C \<and> user_block a s' = C (unat b) \<and> frame a BSIZE s s'
     else read_raid0 b a s = Inr (-1, s)"
proof -
  let ?i = "unat b mod D" and ?st = "unat b div D + 1"
  note ix = striped_index[OF assms(1,2)]
  have r: "raid_ready D nblk s" using assms(1) by (simp add: striped_array_def)
  have e: "int (?i + 1) - 1 = int ?i" by simp
  have state: "disk_state (sint (b mod num_of_disks s + 1) - 1) s = Inr (fld (W_disk_state + ?i) s)"
    unfolding ix(5) e by (rule disk_state_ok[OF r ix(2)])
  have c: "dblocks D nblk s (?i + 1) ?st = C (unat b)" using assms(1,2) by (simp add: striped_array_def)
  have d: "1 \<le> ?i + 1" "?i + 1 \<le> D" using ix(2) by simp_all
  obtain w where w: "read_block_to (int (?i + 1)) (int ?st) a s = Inr (user_write a (C (unat b)) (s\<lparr>vd := w\<rparr>))"
     "vio_ok D nblk w" "blocks D nblk w = dblocks D nblk s"
    using read_to_user[OF r d ix(3) assms(3)] unfolding c by blast
  have vv: "vio_ok D nblk (vd s)" using r by (simp add: raid_ready_def)
  have len: "length (C (unat b)) = BSIZE" using vio.blk_len[OF vv d ix(3)] unfolding c .
  have u1: "user_buf a (length (C (unat b))) (s\<lparr>vd := w\<rparr>)" using assms(3) len by (simp add: user_buf_def)
  let ?s' = "user_write a (C (unat b)) (s\<lparr>vd := w\<rparr>)"
  have "striped_array D nblk (s\<lparr>vd := w\<rparr>) C"
    by (rule striped_vd[OF assms(1) w(2)]) (use assms(1) w(3) in \<open>simp add: striped_array_def\<close>)
  then have "striped_array D nblk ?s' C" by (rule striped_user_write[OF _ u1])
  moreover have "frame a BSIZE s ?s'" using user_write_frame[of a "C (unat b)" "s\<lparr>vd := w\<rparr>"] len by (simp add: frame_def)
  ultimately show ?thesis
    using ix(1) state w(1) user_block_write[OF len, of a "s\<lparr>vd := w\<rparr>"] unfolding read_raid0_def Let_def
    by (simp add: ix(5,6) alive_def)
qed

theorem read_raid0_ok_witness:
  "\<exists>s s'. init_raid 4 134217728 RAID0 (boot_sys 4) = Inr (0, s) \<and> read_raid0 7 0x80200000 s = Inr (0, s') \<and>
     user_block 0x80200000 s' = replicate BSIZE 0"
proof -
  obtain s where s: "init_raid 4 134217728 RAID0 (boot_sys 4) = Inr (0, s)"
    "striped_array 4 131072 s (\<lambda>_. replicate BSIZE 0)" "\<forall>d<4. alive s d" "user_buf 0x80200000 BSIZE s"
    by (rule booted_striped)
  have "striped_valid 4 131072 (unat (7 :: u32))" by (simp add: striped_valid_def)
  from read_raid0_ok[OF s(2) this s(4)] s(1,3) show ?thesis by auto
qed

text \<open>
  C26: \<^verbatim>\<open>write_raid0\<close> stores the caller's block and no other when it writes, but whether it
  writes is decided by the state of the disk with the number of the row: a block in one of the
  first \<open>D\<close> rows is refused exactly when disk \<open>row\<close> is dead, whatever disk the block is on.
\<close>

theorem write_raid0_row_state:
  assumes "striped_array D nblk s C" "striped_valid D nblk (unat b)" "user_buf a BSIZE s" "unat b div D < D"
  shows "if alive s (unat b div D)
     then \<exists>s'. write_raid0 b a s = Inr (0, s') \<and> striped_array D nblk s' (C(unat b := user_block a s))
     else write_raid0 b a s = Inr (-1, s)"
proof -
  let ?i = "unat b mod D" and ?st = "unat b div D + 1"
  note ix = striped_index[OF assms(1,2)]
  have r: "raid_ready D nblk s" using assms(1) by (simp add: striped_array_def)
  have e: "int ?st - 1 = int (unat b div D)" by simp
  have state: "disk_state (sint (b div num_of_disks s + 1) - 1) s = Inr (fld (W_disk_state + unat b div D) s)"
    unfolding ix(6) e by (rule disk_state_ok[OF r assms(4)])
  have d: "1 \<le> ?i + 1" "?i + 1 \<le> D" using ix(2) by simp_all
  obtain w where w: "write_block_from (int (?i + 1)) (int ?st) a s = Inr (s\<lparr>vd := w\<rparr>)"
     "vio_ok D nblk w" "blocks D nblk w = upd2 (dblocks D nblk s) (?i + 1) ?st (user_block a s)"
    using write_from_user[OF r d ix(3) assms(3)] by blast
  have "striped_array D nblk (s\<lparr>vd := w\<rparr>) (C(unat b := user_block a s))"
  proof (rule striped_vd[OF assms(1) w(2)], intro allI impI)
    fix c
    assume c: "striped_valid D nblk c"
    have "c = unat b \<longleftrightarrow> c mod D = ?i \<and> c div D = unat b div D" by (metis div_mult_mod_eq)
    then show "blocks D nblk w (c mod D + 1) (c div D + 1) = (C(unat b := user_block a s)) c"
      using assms(1) c w(3) by (auto simp: striped_array_def upd2_apply)
  qed
  then show ?thesis
    using ix(1) state w(1) unfolding write_raid0_def Let_def by (simp add: ix(5,6) alive_def)
qed

text \<open>
  With disk 2 dead, block 1, which is on it, is written to it and 0 returned, and block 4 on
  the healthy disk 1 is refused.
\<close>

theorem write_raid0_row_state_witness:
  "\<exists>s s1 s2. init_raid 4 134217728 RAID0 (boot_sys 4) = Inr (0, s) \<and> disk_fail_raid 4 2 s = Inr (0, s1) \<and>
     \<not> alive s1 1 \<and> alive s1 0 \<and> write_raid0 1 0x80200000 s1 = Inr (0, s2) \<and>
     write_raid0 4 0x80200000 s1 = Inr (-1, s1)"
proof -
  obtain s where s: "init_raid 4 134217728 RAID0 (boot_sys 4) = Inr (0, s)"
    "striped_array 4 131072 s (\<lambda>_. replicate BSIZE 0)" "\<forall>d<4. alive s d" "user_buf 0x80200000 BSIZE s"
    by (rule booted_striped)
  obtain s1 where s1: "disk_fail_raid 4 2 s = Inr (0, s1)" "striped_array 4 131072 s1 (\<lambda>_. replicate BSIZE 0)"
     "page_only s s1" "\<forall>d<4. alive s1 d \<longleftrightarrow> alive s d \<and> d \<noteq> 1"
    using striped_fail[OF s(2), of 1] s(3) by auto
  have v: "striped_valid 4 131072 (unat (1 :: u32))" "striped_valid 4 131072 (unat (4 :: u32))"
    by (simp_all add: striped_valid_def)
  have a: "alive s1 0" "\<not> alive s1 1" using s1(4)[rule_format, of 0] s1(4)[rule_format, of 1] s(3) by simp_all
  note u = page_only_buf(1)[OF s1(3) s(4)]
  from write_raid0_row_state[OF s1(2) v(1) u] write_raid0_row_state[OF s1(2) v(2) u] a s(1) s1(1)
  show ?thesis by auto
qed

end
