(* ===== verification/CString.thy ===== *)
theory CString
  imports Prelude
begin

unbundle bit_operations_syntax

text \<open>
  \<^verbatim>\<open>kernel/string.c\<close> and the string functions of \<^verbatim>\<open>user/ulib.c\<close>, on byte-addressed memory.
  \<^verbatim>\<open>char\<close> is unsigned on this machine.  A loop that is bounded by a count recurses on the count;
  a loop that runs to the end of a string may not end, and is a partial function.
\<close>

section \<open>Blocks of memory\<close>

text \<open>The counter of \<^verbatim>\<open>memset\<close> is signed, the bound is not: the index is the sign-extended counter.\<close>

function memset_loop :: "u64 \<Rightarrow> byte \<Rightarrow> u32 \<Rightarrow> u32 \<Rightarrow> memory \<Rightarrow> memory" where
  "memset_loop dst c n i m =
     (if i < n then memset_loop dst c n (i + 1) (m(dst + scast i := c)) else m)"
  by pat_completeness auto

termination memset_loop
proof (relation "measure (\<lambda>(dst, c, n, i, m). unat n - unat i)")
  show "((dst, c, n, i + 1, m(dst + scast i := c)), dst, c, n, i, m) \<in> measure (\<lambda>(dst, c, n, i, m). unat n - unat i)"
    if "i < n" for dst c and n i :: u32 and m
  proof -
    have "unat i < unat n" using that by (simp add: word_less_nat_alt)
    moreover from this have "unat (i + 1) = unat i + 1"
      using unsigned_less[of n, where 'a = nat] by (simp add: unat_word_ariths)
    ultimately show ?thesis by simp
  qed
qed simp

declare memset_loop.simps [simp del]

definition memset :: "u64 \<Rightarrow> u32 \<Rightarrow> u32 \<Rightarrow> memory \<Rightarrow> memory" where
  "memset dst c n m = memset_loop dst (ucast c) n 0 m"

fun memcmp_loop :: "nat \<Rightarrow> u64 \<Rightarrow> u64 \<Rightarrow> memory \<Rightarrow> int" where
  "memcmp_loop 0 s1 s2 m = 0"
| "memcmp_loop (Suc n) s1 s2 m =
     (if m s1 \<noteq> m s2 then uint (m s1) - uint (m s2) else memcmp_loop n (s1 + 1) (s2 + 1) m)"

definition memcmp :: "u64 \<Rightarrow> u64 \<Rightarrow> u32 \<Rightarrow> memory \<Rightarrow> int" where
  "memcmp v1 v2 n m = memcmp_loop (unat n) v1 v2 m"

text \<open>The two loops of \<^verbatim>\<open>memmove\<close>: upwards, and downwards from the ends.\<close>

fun copy_up :: "nat \<Rightarrow> u64 \<Rightarrow> u64 \<Rightarrow> memory \<Rightarrow> memory" where
  "copy_up 0 d s m = m"
| "copy_up (Suc n) d s m = copy_up n (d + 1) (s + 1) (m(d := m s))"

fun copy_down :: "nat \<Rightarrow> u64 \<Rightarrow> u64 \<Rightarrow> memory \<Rightarrow> memory" where
  "copy_down 0 d s m = m"
| "copy_down (Suc n) d s m = copy_down n (d - 1) (s - 1) (m(d - 1 := m (s - 1)))"

definition memmove :: "u64 \<Rightarrow> u64 \<Rightarrow> u32 \<Rightarrow> memory \<Rightarrow> memory" where
  "memmove dst src n m =
     (if n = 0 then m
      else if src < dst \<and> dst < src + ucast n
      then copy_down (unat n) (dst + ucast n) (src + ucast n) m
      else copy_up (unat n) dst src m)"

definition memcpy :: "u64 \<Rightarrow> u64 \<Rightarrow> u32 \<Rightarrow> memory \<Rightarrow> memory" where
  "memcpy dst src n m = memmove dst src n m"

text \<open>The version of the user library has a signed count and another test.\<close>

definition user_memmove :: "u64 \<Rightarrow> u64 \<Rightarrow> u32 \<Rightarrow> memory \<Rightarrow> memory" where
  "user_memmove vdst vsrc n m =
     (if vdst < vsrc then copy_up (nat (sint n)) vdst vsrc m
      else copy_down (nat (sint n)) (vdst + scast n) (vsrc + scast n) m)"

section \<open>Strings with a bound\<close>

fun strncmp_loop :: "nat \<Rightarrow> u64 \<Rightarrow> u64 \<Rightarrow> memory \<Rightarrow> int" where
  "strncmp_loop 0 p q m = 0"
| "strncmp_loop (Suc n) p q m =
     (if m p \<noteq> 0 \<and> m p = m q then strncmp_loop n (p + 1) (q + 1) m else uint (m p) - uint (m q))"

definition strncmp :: "u64 \<Rightarrow> u64 \<Rightarrow> u32 \<Rightarrow> memory \<Rightarrow> int" where
  "strncmp p q n m = strncmp_loop (unat n) p q m"

fun pad_loop :: "nat \<Rightarrow> u64 \<Rightarrow> memory \<Rightarrow> memory" where
  "pad_loop 0 s m = m"
| "pad_loop (Suc n) s m = pad_loop n (s + 1) (m(s := 0))"

fun strncpy_loop :: "nat \<Rightarrow> u64 \<Rightarrow> u64 \<Rightarrow> memory \<Rightarrow> memory" where
  "strncpy_loop 0 s t m = m"
| "strncpy_loop (Suc n) s t m =
     (let m' = m(s := m t) in if m t \<noteq> 0 then strncpy_loop n (s + 1) (t + 1) m' else pad_loop n (s + 1) m')"

definition strncpy :: "u64 \<Rightarrow> u64 \<Rightarrow> int \<Rightarrow> memory \<Rightarrow> memory" where
  "strncpy s t n m = strncpy_loop (nat n) s t m"

text \<open>The loop of \<^verbatim>\<open>safestrcpy\<close>, with the terminator it writes where it stops.\<close>

fun safestrcpy_loop :: "nat \<Rightarrow> u64 \<Rightarrow> u64 \<Rightarrow> memory \<Rightarrow> memory" where
  "safestrcpy_loop 0 s t m = m(s := 0)"
| "safestrcpy_loop (Suc n) s t m =
     (let m' = m(s := m t) in if m t \<noteq> 0 then safestrcpy_loop n (s + 1) (t + 1) m' else m'(s + 1 := 0))"

definition safestrcpy :: "u64 \<Rightarrow> u64 \<Rightarrow> int \<Rightarrow> memory \<Rightarrow> memory" where
  "safestrcpy s t n m = (if n \<le> 0 then m else safestrcpy_loop (nat (n - 1)) s t m)"

section \<open>Strings without a bound\<close>

partial_function (option) strlen_from :: "u64 \<Rightarrow> u32 \<Rightarrow> memory \<Rightarrow> u32 option" where
  "strlen_from s n m = (if m (s + scast n) = 0 then Some n else strlen_from s (n + 1) m)"

definition strlen :: "u64 \<Rightarrow> memory \<Rightarrow> u32 option" where
  "strlen s m = strlen_from s 0 m"

partial_function (option) strcpy :: "u64 \<Rightarrow> u64 \<Rightarrow> memory \<Rightarrow> memory option" where
  "strcpy s t m = (let m' = m(s := m t) in if m t = 0 then Some m' else strcpy (s + 1) (t + 1) m')"

partial_function (option) strcmp :: "u64 \<Rightarrow> u64 \<Rightarrow> memory \<Rightarrow> int option" where
  "strcmp p q m = (if m p \<noteq> 0 \<and> m p = m q then strcmp (p + 1) (q + 1) m else Some (uint (m p) - uint (m q)))"

partial_function (option) strchr :: "u64 \<Rightarrow> byte \<Rightarrow> memory \<Rightarrow> u64 option" where
  "strchr s c m = (if m s = 0 then Some 0 else if m s = c then Some s else strchr (s + 1) c m)"

text \<open>The first loop of \<^verbatim>\<open>strcat\<close> and \<^verbatim>\<open>itoa\<close>: the address of the terminator.\<close>

partial_function (option) find_end :: "u64 \<Rightarrow> memory \<Rightarrow> u64 option" where
  "find_end s m = (if m s = 0 then Some s else find_end (s + 1) m)"

partial_function (option) strcat_copy :: "u64 \<Rightarrow> u64 \<Rightarrow> memory \<Rightarrow> memory option" where
  "strcat_copy os s2 m =
     (if m s2 = 0 then Some (m(os := 0)) else strcat_copy (os + 1) (s2 + 1) (m(os := m s2)))"

definition strcat :: "u64 \<Rightarrow> u64 \<Rightarrow> memory \<Rightarrow> memory option" where
  "strcat s1 s2 m = (case find_end s1 m of None \<Rightarrow> None | Some os \<Rightarrow> strcat_copy os s2 m)"

section \<open>Numbers\<close>

definition digits :: "byte list" where
  "digits = [48, 49, 50, 51, 52, 53, 54, 55, 56, 57, 97, 98, 99, 100, 101, 102, 0]"

text \<open>C division and remainder truncate towards zero.\<close>

definition cdiv :: "int \<Rightarrow> int \<Rightarrow> int" where
  "cdiv a b = sgn a * sgn b * (\<bar>a\<bar> div \<bar>b\<bar>)"

definition cmod :: "int \<Rightarrow> int \<Rightarrow> int" where
  "cmod a b = a - cdiv a b * b"

text \<open>
  The digits of \<^verbatim>\<open>itoa\<close>, least significant first, in a buffer of 16 bytes; a digit outside the
  table and a seventeenth digit are out of bounds.
\<close>

function itoa_digits :: "int \<Rightarrow> int \<Rightarrow> byte list \<Rightarrow> byte list result" where
  "itoa_digits xx base buf =
     (if base = 0 then Inl DivByZero
      else if 16 \<le> length buf then Inl OutOfBounds
      else let d = cmod xx base in
        if d < 0 \<or> int (length digits) \<le> d then Inl OutOfBounds
        else let buf' = buf @ [digits ! nat d]; q = cdiv xx base in
          if q \<noteq> 0 then itoa_digits q base buf' else Inr buf')"
  by pat_completeness auto

termination itoa_digits
  by (relation "measure (\<lambda>(xx, base, buf). 16 - length buf)") auto

declare itoa_digits.simps [simp del]

definition itoa :: "int \<Rightarrow> int \<Rightarrow> u64 \<Rightarrow> memory \<Rightarrow> memory option result" where
  "itoa xx base addr m =
     rbind (itoa_digits xx base []) (\<lambda>buf. Inr (case find_end addr m of
       None \<Rightarrow> None
     | Some r \<Rightarrow> Some (mem_write m r (rev buf @ [0]))))"

text \<open>\<^verbatim>\<open>atoi\<close> with the wrap-around of \<^verbatim>\<open>int\<close>.\<close>

partial_function (option) atoi_from :: "u64 \<Rightarrow> u32 \<Rightarrow> memory \<Rightarrow> u32 option" where
  "atoi_from s n m = (if 48 \<le> m s \<and> m s \<le> 57 then atoi_from (s + 1) (n * 10 + ucast (m s) - 48) m else Some n)"

definition atoi :: "u64 \<Rightarrow> memory \<Rightarrow> u32 option" where
  "atoi s m = atoi_from s 0 m"

section \<open>Lines\<close>

text \<open>\<^verbatim>\<open>gets\<close>: \<open>rd\<close> reads one byte from standard input, \<open>None\<close> at the end or on an error.\<close>

fun gets_loop :: "('w \<Rightarrow> byte option \<times> 'w) \<Rightarrow> nat \<Rightarrow> u64 \<Rightarrow> memory \<Rightarrow> 'w \<Rightarrow> u64 \<times> memory \<times> 'w" where
  "gets_loop rd 0 p m w = (p, m, w)"
| "gets_loop rd (Suc k) p m w =
     (case rd w of
        (None, w') \<Rightarrow> (p, m, w')
      | (Some c, w') \<Rightarrow> if c = 10 \<or> c = 13 then (p + 1, m(p := c), w') else gets_loop rd k (p + 1) (m(p := c)) w')"

definition gets :: "('w \<Rightarrow> byte option \<times> 'w) \<Rightarrow> u64 \<Rightarrow> int \<Rightarrow> memory \<Rightarrow> 'w \<Rightarrow> memory \<times> 'w" where
  "gets rd buf mx m w = (case gets_loop rd (nat (mx - 1)) buf m w of (p, m', w') \<Rightarrow> (m'(p := 0), w'))"

section \<open>Lemmas\<close>

lemma unat_Suc32: "i < n \<Longrightarrow> unat ((i :: u32) + 1) = unat i + 1"
proof -
  assume "i < n"
  then have "unat i < unat n" by (simp add: word_less_nat_alt)
  then show ?thesis using unsigned_less[of n, where 'a = nat] by (simp add: unat_word_ariths)
qed

lemma mem_fill_0 [simp]: "mem_fill m a c 0 = m"
  by (simp add: mem_fill_def within_def)

lemma mem_fill_write: "mem_fill m a c n = mem_write m a (replicate n c)"
  by (auto simp: mem_fill_def mem_write_def within_def fun_eq_iff)

lemma memset_loop_fill:
  "i \<le> n \<Longrightarrow> unat n \<le> 2 ^ 31 \<Longrightarrow> memset_loop dst c n i m = mem_fill m (dst + of_nat (unat i)) c (unat n - unat i)"
proof (induction dst c n i m rule: memset_loop.induct)
  case (1 dst c n i m)
  show ?case
  proof (cases "i < n")
    case True
    then have lt: "unat i < unat n" by (simp add: word_less_nat_alt)
    note u = unat_Suc32[OF True]
    have le: "i + 1 \<le> n" using lt u by (simp add: word_le_nat_alt)
    have si: "(scast i :: u64) = of_nat (unat i)" using lt 1(3) by (intro scast_small) simp
    have k: "unat n - unat i = Suc (unat n - unat (i + 1))" using lt u by simp
    have "memset_loop dst c n i m = memset_loop dst c n (i + 1) (m(dst + scast i := c))"
      using True by (subst memset_loop.simps) simp
    also have "\<dots> = mem_fill (m(dst + scast i := c)) (dst + of_nat (unat (i + 1))) c (unat n - unat (i + 1))"
      by (rule 1(1)[OF True le 1(3)])
    also have "\<dots> = mem_fill m (dst + of_nat (unat i)) c (unat n - unat i)"
    proof -
      have a: "dst + of_nat (unat i + 1) = dst + of_nat (unat i) + 1" by simp
      have l: "Suc (length (replicate (unat n - (unat i + 1)) c)) \<le> 2 ^ 64"
        using unsigned_less[of n, where 'a = nat] by simp
      show ?thesis unfolding mem_fill_write k u si a replicate_Suc mem_write_Cons[OF l] ..
    qed
    finally show ?thesis .
  next
    case False
    then have "i = n" using 1(2) by simp
    then show ?thesis by (subst memset_loop.simps) simp
  qed
qed

lemma copy_up_write:
  "n \<le> 2 ^ 64 \<Longrightarrow> unat (d - s) = 0 \<or> n \<le> unat (d - s) \<Longrightarrow> copy_up n d s m = mem_write m d (mem_read m s n)"
proof (induction n arbitrary: d s m)
  case (Suc n)
  have ne: "d \<noteq> s + 1 + of_nat i" if "i < n" for i
  proof
    assume "d = s + 1 + of_nat i"
    then have "d - s = of_nat (Suc i)" by (simp add: algebra_simps)
    moreover have "unat (of_nat (Suc i) :: u64) = Suc i" by (rule unat_of_nat64) (use that Suc.prems in simp)
    ultimately have "unat (d - s) = Suc i" by (simp only:)
    with Suc.prems(2) that show False by simp
  qed
  then have r: "mem_read (m(d := m s)) (s + 1) n = mem_read m (s + 1) n" by (intro nth_equalityI) auto
  have "copy_up (Suc n) d s m = mem_write (m(d := m s)) (d + 1) (mem_read (m(d := m s)) (s + 1) n)"
    unfolding copy_up.simps by (rule Suc.IH) (use Suc.prems in auto)
  also have "\<dots> = mem_write m d (mem_read m s (Suc n))"
    unfolding r mem_read_Suc using Suc.prems(1) by (subst mem_write_Cons) simp_all
  finally show ?case .
qed (simp add: mem_read_def)

lemma copy_down_write:
  "n \<le> 2 ^ 64 \<Longrightarrow> unat (s - d) = 0 \<or> n \<le> unat (s - d) \<Longrightarrow>
   copy_down n (d + of_nat n) (s + of_nat n) m = mem_write m d (mem_read m s n)"
proof (induction n arbitrary: m)
  case (Suc n)
  let ?m = "m(d + of_nat n := m (s + of_nat n))"
  have ne: "d + of_nat n \<noteq> s + of_nat i" if "i < n" for i
  proof
    assume e: "d + of_nat n = s + of_nat i"
    have "s - d = of_nat n - of_nat i" using e by (simp add: algebra_simps)
    also have "\<dots> = of_nat (n - i)" using that by simp
    finally have "unat (s - d) = unat (of_nat (n - i) :: u64)" by (simp only:)
    also have "\<dots> = n - i" by (rule unat_of_nat64) (use that Suc.prems in simp)
    finally show False using Suc.prems(2) that by simp
  qed
  have a: "d + of_nat (Suc n) - 1 = d + of_nat n" "s + of_nat (Suc n) - 1 = s + of_nat n" by simp_all
  have r: "mem_read ?m s n = mem_read m s n" by (intro nth_equalityI) (simp_all add: ne[symmetric])
  have "copy_down (Suc n) (d + of_nat (Suc n)) (s + of_nat (Suc n)) m = copy_down n (d + of_nat n) (s + of_nat n) ?m"
    unfolding copy_down.simps a ..
  also have "\<dots> = mem_write ?m d (mem_read ?m s n)" by (rule Suc.IH) (use Suc.prems in auto)
  also have "\<dots> = mem_write ?m d (mem_read m s n)" by (simp only: r)
  also have "\<dots> = mem_write m d (mem_read m s (Suc n))"
    unfolding mem_read_snoc using Suc.prems(1) by (subst mem_write_snoc) simp_all
  finally show ?case .
qed (simp add: mem_read_def)

lemma unat_ucast64: "unat (ucast (n :: u32) :: u64) = unat n"
  using unsigned_less[of n, where 'a = nat] by (simp add: unsigned_ucast_eq take_bit_nat_eq_self)

text \<open>When copying upwards or downwards is right, by the order of the two blocks.\<close>

lemma up_ok:
  fixes src dst :: u64
  assumes "unat src + n \<le> 2 ^ 64" "dst \<le> src \<or> unat src + n \<le> unat dst"
  shows "unat (dst - src) = 0 \<or> n \<le> unat (dst - src)"
  using assms unsigned_less[of src, where 'a = nat]
  by (auto simp: word_le_nat_alt unat_sub_if')

lemma down_ok:
  fixes src dst :: u64
  assumes "unat dst + n \<le> 2 ^ 64" "src \<le> dst"
  shows "unat (src - dst) = 0 \<or> n \<le> unat (src - dst)"
  by (rule up_ok) (use assms in auto)

lemma memmove_write:
  assumes "unat src + unat n \<le> 2 ^ 64" "unat dst + unat n \<le> 2 ^ 64"
  shows "memmove dst src n m = mem_write m dst (mem_read m src (unat n))"
proof -
  have n: "unat n \<le> 2 ^ 64" "ucast n = (of_nat (unat n) :: u64)"
    using unsigned_less[of n, where 'a = nat] by simp_all
  show ?thesis
  proof (cases "n \<noteq> 0 \<and> src < dst \<and> dst < src + ucast n")
    case True
    then have "memmove dst src n m = copy_down (unat n) (dst + of_nat (unat n)) (src + of_nat (unat n)) m"
      unfolding memmove_def n(2) by simp
    also have "\<dots> = mem_write m dst (mem_read m src (unat n))"
      by (rule copy_down_write[OF n(1) down_ok[OF assms(2)]]) (use True in \<open>simp add: less_imp_le\<close>)
    finally show ?thesis .
  next
    case False
    have "dst \<le> src \<or> unat src + unat n \<le> unat dst"
    proof (cases "src < dst \<and> n \<noteq> 0")
      case True
      with False have "src + ucast n \<le> dst" by auto
      then have "(unat src + unat n) mod 2 ^ 64 \<le> unat dst"
        by (simp add: word_le_nat_alt unat_word_ariths unat_ucast64)
      moreover have "unat src + unat n = 2 ^ 64 \<or> unat src + unat n < 2 ^ 64" using assms(1) by auto
      moreover have "0 < unat n" using True by (simp add: unat_gt_0)
      ultimately show ?thesis using True assms by (auto simp: word_less_nat_alt)
    next
      case no: False
      show ?thesis
      proof (cases "src < dst")
        case True
        with no show ?thesis by (simp add: word_less_nat_alt less_imp_le)
      qed (simp add: not_less)
    qed
    note up = copy_up_write[OF n(1) up_ok[OF assms(1) this], of m]
    show ?thesis
    proof (cases "n = 0")
      case True
      then show ?thesis by (simp add: memmove_def mem_read_def)
    next
      case nz: False
      then have "\<not> (src < dst \<and> dst < src + ucast n)" using False by blast
      then have "memmove dst src n m = copy_up (unat n) dst src m" unfolding memmove_def by (simp only: nz if_False)
      with up show ?thesis by (simp only:)
    qed
  qed
qed

text \<open>
  C18: \<^verbatim>\<open>memmove\<close> copies the \<open>n\<close> bytes at the source to the destination and changes nothing
  else, also when the two overlap: the result is that of reading all the bytes first.
\<close>

theorem memmove_copies:
  assumes "unat src + unat n \<le> 2 ^ 64" "unat dst + unat n \<le> 2 ^ 64"
  shows "memmove dst src n m = mem_write m dst (mem_read m src (unat n))"
  using memmove_write[OF assms] .

theorem memmove_copies_witness:
  "memmove 0x1002 0x1000 5 ucast = mem_write ucast 0x1002 (mem_read ucast 0x1000 5)"
  using memmove_copies[of "0x1000" 5 "0x1002" ucast] by simp

text \<open>
  C19: the \<^verbatim>\<open>memmove\<close> of the user library, which decides on the direction in another way, does
  the same as that of the kernel for every count that is not negative.
\<close>

theorem user_memmove_same:
  assumes "unat src + unat n \<le> 2 ^ 64" "unat dst + unat n \<le> 2 ^ 64" "0 \<le> sint n"
  shows "user_memmove dst src n m = memmove dst src n m"
proof -
  have n: "unat n \<le> 2 ^ 64" "nat (sint n) = unat n" "(scast n :: u64) = of_nat (unat n)"
  proof -
    have i: "sint n = int (unat n)" "unat n < 2 ^ 31" using sint_nonneg[OF assms(3)] by simp_all
    then show "unat n \<le> 2 ^ 64" "nat (sint n) = unat n" "(scast n :: u64) = of_nat (unat n)"
      by (simp_all add: scast_small)
  qed
  have "user_memmove dst src n m = mem_write m dst (mem_read m src (unat n))"
  proof (cases "dst < src")
    case True
    then show ?thesis
      unfolding user_memmove_def n if_P[OF True] by (intro copy_up_write[OF n(1) up_ok[OF assms(1)]]) (simp add: True less_imp_le)
  next
    case False
    then show ?thesis
      unfolding user_memmove_def n if_not_P[OF False] by (intro copy_down_write[OF n(1) down_ok[OF assms(2)]]) simp
  qed
  then show ?thesis by (simp only: memmove_write[OF assms(1,2)])
qed

theorem user_memmove_same_witness: "user_memmove 0x1002 0x1000 5 ucast = memmove 0x1002 0x1000 5 ucast"
  using user_memmove_same[of "0x1000" 5 "0x1002" ucast] by simp

subsection \<open>Bounded copies\<close>

lemma within_Suc: "within a (Suc n) x \<longleftrightarrow> x = a \<or> within (a + 1) n x \<and> x \<noteq> a"
proof (cases "x = a")
  case False
  then have "x - a \<noteq> 0" by simp
  then have "0 < unat (x - a)" "unat (x - a - 1) = unat (x - a) - 1" by (simp_all add: unat_gt_0 unat_minus_one)
  then have "unat (x - a) = Suc (unat (x - a - 1))" by simp
  then show ?thesis using False by (simp add: within_def algebra_simps)
qed simp

definition apart :: "nat \<Rightarrow> u64 \<Rightarrow> u64 \<Rightarrow> bool" where
  "apart n s t \<longleftrightarrow> (\<forall>i<n. \<forall>j<n. s + of_nat i \<noteq> t + of_nat j)"

lemma apart_Suc: "apart (Suc n) s t \<Longrightarrow> apart n (s + 1) (t + 1)"
  unfolding apart_def
proof (intro allI impI)
  fix i j
  assume a: "\<forall>i<Suc n. \<forall>j<Suc n. s + of_nat i \<noteq> t + of_nat j" "i < n" "j < n"
  from a(1)[rule_format, of "Suc i" "Suc j"] a(2,3) show "s + 1 + of_nat i \<noteq> t + 1 + of_nat j"
    by (simp add: ac_simps)
qed

lemma safestrcpy_loop_outside: "\<not> within s (Suc n) x \<Longrightarrow> safestrcpy_loop n s t m x = m x"
proof (induction n arbitrary: s t m)
  case (Suc n)
  then have x: "x \<noteq> s" "\<not> within (s + 1) (Suc n) x" "x \<noteq> s + 1" by (auto simp: within_Suc[of s] simp del: within_Suc)
  show ?case using x Suc.IH[OF x(2)] by (simp add: Let_def)
qed (simp add: within_Suc)

lemma not_in_rest: "Suc n < 2 ^ 64 \<Longrightarrow> \<not> within (s + 1) (Suc n) (s :: u64)"
proof -
  assume n: "Suc n < 2 ^ 64"
  have "s - (s + 1) = -1" by simp
  then have "unat (s - (s + 1)) = 2 ^ 64 - 1" by (simp add: unsigned_minus_1_eq_mask mask_eq_exp_minus_1)
  with n show ?thesis by (simp add: within_def)
qed

lemma safestrcpy_loop_copy:
  assumes "Suc n < 2 ^ 64"
  shows "\<exists>k\<le>n. safestrcpy_loop n s t m (s + of_nat k) = 0 \<and> (apart (Suc n) s t \<longrightarrow>
     (\<forall>i<k. safestrcpy_loop n s t m (s + of_nat i) = m (t + of_nat i) \<and> m (t + of_nat i) \<noteq> 0) \<and>
     (k < n \<longrightarrow> m (t + of_nat k) = 0))"
  using assms
proof (induction n arbitrary: s t m)
  case (Suc n)
  let ?m = "m(s := m t)"
  show ?case
  proof (cases "m t = 0")
    case True
    have "s + 1 \<noteq> s" by simp
    with True show ?thesis by (intro exI[of _ 0]) (simp add: Let_def)
  next
    case False
    let ?M = "safestrcpy_loop n (s + 1) (t + 1) ?m"
    obtain k where k: "k \<le> n" "?M (s + 1 + of_nat k) = 0" "apart (Suc n) (s + 1) (t + 1) \<longrightarrow>
       (\<forall>i<k. ?M (s + 1 + of_nat i) = ?m (t + 1 + of_nat i) \<and> ?m (t + 1 + of_nat i) \<noteq> 0) \<and>
       (k < n \<longrightarrow> ?m (t + 1 + of_nat k) = 0)"
      using Suc.IH[of "s + 1" "t + 1" ?m] Suc.prems by fastforce
    have M: "safestrcpy_loop (Suc n) s t m = ?M" using False by (simp add: Let_def)
    have Ms: "?M s = m t"
      using safestrcpy_loop_outside[OF not_in_rest, of n s "t + 1" ?m] Suc.prems by simp
    show ?thesis unfolding M
    proof (intro exI[of _ "Suc k"] conjI impI allI)
      show "Suc k \<le> Suc n" using k(1) by simp
      show "?M (s + of_nat (Suc k)) = 0" using k(2) by (simp add: ac_simps)
      assume ap: "apart (Suc (Suc n)) s t"
      have ne: "t + 1 + of_nat i \<noteq> s" if "i \<le> n" for i
        using ap[unfolded apart_def, rule_format, of 0 "Suc i"] that by (simp add: ac_simps)
      note k3 = k(3)[rule_format, OF apart_Suc[OF ap]]
      show "?M (s + of_nat i) = m (t + of_nat i)" if "i < Suc k" for i
        using that Ms k3 ne k(1) by (cases i) (auto simp: ac_simps)
      show "m (t + of_nat i) \<noteq> 0" if "i < Suc k" for i
        using that False k3 ne k(1) by (cases i) (auto simp: ac_simps)
      show "m (t + of_nat (Suc k)) = 0" if "Suc k < Suc n"
        using that k3 ne[of k] by (auto simp: ac_simps)
    qed
  qed
qed simp

text \<open>
  C20: \<^verbatim>\<open>safestrcpy\<close> with a positive size writes only the first \<open>n\<close> bytes of the destination and
  leaves a string in them: there is a terminator at some \<open>k < n\<close>.  When source and
  destination are apart, the bytes before it are those of the source, and the string is cut
  only when the buffer is full.
\<close>

theorem safestrcpy_terminates:
  assumes "0 < n" "n < 2 ^ 31"
  shows "(\<forall>x. \<not> within s (nat n) x \<longrightarrow> safestrcpy s t n m x = m x) \<and>
     (\<exists>k<nat n. safestrcpy s t n m (s + of_nat k) = 0 \<and> (apart (nat n) s t \<longrightarrow>
       (\<forall>i<k. safestrcpy s t n m (s + of_nat i) = m (t + of_nat i) \<and> m (t + of_nat i) \<noteq> 0) \<and>
       (k < nat n - 1 \<longrightarrow> m (t + of_nat k) = 0)))"
proof -
  define j where "j = nat (n - 1)"
  have j: "nat n = Suc j" "safestrcpy s t n m = safestrcpy_loop j s t m" "Suc j < 2 ^ 64"
    using assms by (simp_all add: j_def safestrcpy_def)
  have "j < 2 ^ 64 - 1" "Suc j - 1 = j" using j(3) by simp_all
  show ?thesis
    unfolding j(1,2) \<open>Suc j - 1 = j\<close> less_Suc_eq_le
    using safestrcpy_loop_outside[of s j _ t m] safestrcpy_loop_copy[OF j(3), of s t m] by blast
qed

theorem safestrcpy_terminates_witness: "\<exists>k<16. safestrcpy 0x2000 0x1000 16 ucast (0x2000 + of_nat k) = 0"
  using safestrcpy_terminates[of 16 "0x2000" "0x1000" ucast] by auto

subsection \<open>Numbers\<close>

text \<open>The decimal digits of a number, most significant first.\<close>

fun decimal :: "nat \<Rightarrow> byte list" where
  "decimal x = (if x < 10 then [48 + of_nat x] else decimal (x div 10) @ [48 + of_nat (x mod 10)])"

declare decimal.simps [simp del]

lemma digits_nth: "d < 10 \<Longrightarrow> digits ! d = 48 + of_nat d"
proof -
  assume "d < 10"
  then have "d = 0 \<or> d = 1 \<or> d = 2 \<or> d = 3 \<or> d = 4 \<or> d = 5 \<or> d = 6 \<or> d = 7 \<or> d = 8 \<or> d = 9" by presburger
  then show ?thesis by (elim disjE) (simp_all add: digits_def)
qed

lemma cdiv_nat: "cdiv (int x) 10 = int (x div 10)" "cmod (int x) 10 = int (x mod 10)"
proof -
  show q: "cdiv (int x) 10 = int (x div 10)" by (cases x) (simp_all add: cdiv_def zdiv_int)
  show "cmod (int x) 10 = int (x mod 10)"
    unfolding cmod_def q using div_mult_mod_eq[of x 10] by linarith
qed

lemma itoa_digits_decimal:
  "length buf + length (decimal x) \<le> 16 \<Longrightarrow> itoa_digits (int x) 10 buf = Inr (buf @ rev (decimal x))"
proof (induction x arbitrary: buf rule: decimal.induct)
  case (1 x)
  have len: "0 < length (decimal x)" by (subst decimal.simps) simp
  have d: "nat (int (x mod 10)) = x mod 10" "int (x mod 10) < 17" "length digits = 17"
    by (simp_all add: digits_def)
  note it = itoa_digits.simps[of "int x" 10 buf]
  show ?case
  proof (cases "x < 10")
    case True
    then show ?thesis
      using 1(2) len d unfolding it cdiv_nat Let_def by (simp add: digits_nth decimal.simps[of x])
  next
    case False
    have "length (buf @ [48 + of_nat (x mod 10)]) + length (decimal (x div 10)) \<le> 16"
      using 1(2) False by (simp add: decimal.simps[of x])
    moreover have "int (x div 10) \<noteq> 0" using False by (simp add: div_eq_0_iff flip: of_nat_0)
    ultimately show ?thesis
      using 1(1)[OF False] False 1(2) len d unfolding it cdiv_nat Let_def
      by (simp add: digits_nth decimal.simps[of x] del: of_nat_eq_0_iff)
  qed
qed

lemma length_decimal: "x < 10 ^ k \<Longrightarrow> 0 < k \<Longrightarrow> length (decimal x) \<le> k"
proof (induction k arbitrary: x)
  case (Suc k)
  show ?case
  proof (cases "x < 10")
    case True
    then show ?thesis by (simp add: decimal.simps[of x])
  next
    case False
    then have "x div 10 < 10 ^ k" "0 < k" using Suc.prems by (cases k; simp add: div_less_iff_less_mult)+
    then show ?thesis using Suc.IH[of "x div 10"] False by (simp add: decimal.simps[of x])
  qed
qed simp

lemma decimal_digits: "d \<in> set (decimal x) \<Longrightarrow> 48 \<le> d \<and> d \<le> 57"
proof (induction x rule: decimal.induct)
  case (1 x)
  have "48 \<le> (48 + of_nat k :: byte) \<and> (48 + of_nat k :: byte) \<le> 57" if "k < 10" for k
    using that by (simp add: word_le_nat_alt unat_word_ariths unat_of_nat)
  with 1 show ?case by (cases "x < 10") (auto simp: decimal.simps[of x])
qed

lemma decimal_value: "foldl (\<lambda>n d. n * 10 + ucast d - 48) (0 :: u32) (decimal x) = of_nat x"
proof (induction x rule: decimal.induct)
  case (1 x)
  have u: "(ucast (48 + of_nat k :: byte) :: u32) = 48 + of_nat k" if "k < 10" for k
    using that by (simp add: word_unat_eq_iff unsigned_ucast_eq unat_word_ariths unat_of_nat take_bit_nat_eq_self)
  show ?case
  proof (cases "x < 10")
    case False
    have "(of_nat (x div 10) :: u32) * 10 + of_nat (x mod 10) = of_nat (x div 10 * 10 + x mod 10)"
      by (simp only: of_nat_add of_nat_mult of_nat_numeral)
    also have "\<dots> = of_nat x" by (simp only: div_mult_mod_eq)
    finally have "(of_nat (x div 10) :: u32) * 10 + of_nat (x mod 10) = of_nat x" .
    with 1 False u[of "x mod 10"] show ?thesis by (simp add: decimal.simps[of x])
  qed (use u in \<open>simp add: decimal.simps[of x]\<close>)
qed

lemma atoi_from_digits:
  assumes "\<forall>d\<in>set ds. 48 \<le> d \<and> d \<le> 57" "mem_read m s (length ds) = ds" "m (s + of_nat (length ds)) = 0"
  shows "atoi_from s n m = Some (foldl (\<lambda>n d. n * 10 + ucast d - 48) n ds)"
  using assms
proof (induction ds arbitrary: s n)
  case Nil
  then show ?case by (subst atoi_from.simps) simp
next
  case (Cons d ds)
  from Cons.prems(2) have "m s = d" "mem_read m (s + 1) (length ds) = ds" by (simp_all add: mem_read_Suc)
  with Cons show ?case by (subst atoi_from.simps) (simp add: ac_simps)
qed

text \<open>
  C21: \<^verbatim>\<open>itoa\<close> to base 10 of a number that is not negative succeeds, and \<^verbatim>\<open>atoi\<close> reads the number
  back from what it wrote.
\<close>

theorem itoa_atoi:
  assumes "0 \<le> x" "x < 2 ^ 31" "m a = 0"
  shows "\<exists>m'. itoa x 10 a m = Inr (Some m') \<and> atoi a m' = Some (of_int x)"
proof -
  define k where "k = nat x"
  have k: "x = int k" "k < 10 ^ 10" using assms by (simp_all add: k_def)
  have len: "length (decimal k) \<le> 10" by (rule length_decimal[OF k(2)]) simp
  let ?m = "mem_write m a (decimal k @ [0])"
  have e: "find_end a m = Some a" using assms(3) by (subst find_end.simps) simp
  have it: "itoa x 10 a m = Inr (Some ?m)"
    using itoa_digits_decimal[of "[]" k] len e by (simp add: itoa_def k(1))
  have r: "mem_read ?m a (length (decimal k @ [0])) = decimal k @ [0]"
    by (rule mem_read_write_same) (use len in simp)
  then have rd: "mem_read ?m a (length (decimal k)) = decimal k" "?m (a + of_nat (length (decimal k))) = 0"
    by (simp_all add: mem_read_snoc)
  have "atoi a ?m = Some (of_nat k)"
    unfolding atoi_def using atoi_from_digits[OF _ rd, of 0] decimal_digits decimal_value by simp
  with it k(1) show ?thesis by auto
qed

theorem itoa_atoi_witness: "\<exists>m'. itoa 1048572 10 0x1000 (\<lambda>_. 0) = Inr (Some m') \<and> atoi 0x1000 m' = Some 1048572"
  using itoa_atoi[of 1048572 "\<lambda>_. 0" "0x1000"] by simp

section \<open>Comparison of strings\<close>

definition same_string :: "memory \<Rightarrow> u64 \<Rightarrow> u64 \<Rightarrow> bool" where
  "same_string m p q \<longleftrightarrow> (\<exists>n. (\<forall>i \<le> n. m (p + of_nat i) = m (q + of_nat i)) \<and> (\<forall>i < n. m (p + of_nat i) \<noteq> 0) \<and> m (p + of_nat n) = 0)"

lemma ex_nat_Suc: "(\<exists>n. R n) \<longleftrightarrow> R 0 \<or> (\<exists>n. R (Suc n))"
  by (metis not0_implies_Suc)

lemma all_le_Suc: "(\<forall>i \<le> Suc n. R i) \<longleftrightarrow> R 0 \<and> (\<forall>i \<le> n. R (Suc i))"
  using All_less_Suc2[of "Suc n" R] by (simp only: less_Suc_eq_le)

lemma same_string_step: "same_string m p q \<longleftrightarrow> m p = m q \<and> (m p = 0 \<or> same_string m (p + 1) (q + 1))"
proof -
  have sh: "a + of_nat (Suc i) = a + 1 + of_nat i" "a + of_nat 0 = a" for a :: u64 and i by (simp_all add: add.assoc)
  have "same_string m p q \<longleftrightarrow> (m p = m q \<and> m p = 0) \<or> (m p = m q \<and> m p \<noteq> 0 \<and> same_string m (p + 1) (q + 1))"
    unfolding same_string_def
    by (subst ex_nat_Suc) (simp only: all_le_Suc All_less_Suc2 sh le_0_eq not_less_zero simp_thms, blast)
  then show ?thesis by blast
qed

text \<open>
  C35: \<^verbatim>\<open>strcmp\<close> returns whenever its first string is terminated, whatever the second one is, and it
  returns zero exactly when the two strings agree up to and with the first terminator.
\<close>

theorem strcmp_returns:
  assumes "m (p + of_nat k) = 0"
  shows "\<exists>r. strcmp p q m = Some r \<and> (r = 0 \<longleftrightarrow> same_string m p q)"
  using assms
proof (induction k arbitrary: p q)
  case 0
  have "strcmp p q m = Some (uint (m p) - uint (m q))" by (subst strcmp.simps) (use 0 in simp)
  then show ?case using 0 same_string_step[of m p q] by (auto simp: unsigned_eq_0_iff)
next
  case (Suc k)
  show ?case
  proof (cases "m p \<noteq> 0 \<and> m p = m q")
    case True
    have s: "strcmp p q m = strcmp (p + 1) (q + 1) m" by (subst strcmp.simps) (rule if_P[OF True])
    have "m (p + 1 + of_nat k) = 0" using Suc.prems by (simp add: add.assoc)
    from Suc.IH[OF this, of "q + 1"] show ?thesis unfolding s using True same_string_step[of m p q] by blast
  next
    case False
    have s: "strcmp p q m = Some (uint (m p) - uint (m q))" by (subst strcmp.simps) (rule if_not_P[OF False])
    have "uint (m p) - uint (m q) = 0 \<longleftrightarrow> m p = m q" by (simp add: word_uint_eq_iff)
    then show ?thesis using s False same_string_step[of m p q] by blast
  qed
qed

text \<open>A terminated string and another one that goes on where it ends.\<close>

theorem strcmp_returns_witness:
  "\<exists>r. strcmp 0x1000 0x2000 (\<lambda>a. if a = 0x1002 then 0 else 7) = Some r \<and> r \<noteq> 0"
proof -
  let ?m = "\<lambda>a :: u64. if a = 0x1002 then 0 else (7 :: byte)"
  obtain r where r: "strcmp 0x1000 0x2000 ?m = Some r" "r = 0 \<longleftrightarrow> same_string ?m 0x1000 0x2000"
    using strcmp_returns[of ?m "0x1000" 2 "0x2000"] by auto
  have "\<not> same_string ?m 0x1000 0x2000"
    by (subst same_string_step, simp, subst same_string_step, simp, subst same_string_step, simp)
  then show ?thesis using r by blast
qed

end
