(* ===== verification/Locks.thy ===== *)
theory Locks
  imports Prelude
begin

text \<open>
  \<^verbatim>\<open>kernel/spinlock.c\<close> and \<^verbatim>\<open>kernel/sleeplock.c\<close>.  The two halves of \<^verbatim>\<open>acquire\<close> and of
  \<^verbatim>\<open>release\<close> around the atomic swap of \<^verbatim>\<open>lk->locked\<close> are functions of their own, and the whole
  of \<^verbatim>\<open>acquire\<close> and \<^verbatim>\<open>release\<close> on one CPU is their sequence.  Several CPUs are a step relation
  over those halves.  A CPU is a number, \<^verbatim>\<open>lk->cpu\<close> is the number of a CPU or nothing.  The
  names of the locks, which only serve debugging, are left out.
\<close>

section \<open>Spin locks\<close>

record spinlock =
  lk_locked :: bool
  lk_cpu :: "nat option"

text \<open>The fields of \<^verbatim>\<open>struct cpu\<close> the locks use, with the interrupt enable bit of \<^verbatim>\<open>sstatus\<close>.\<close>

record cpu =
  noff :: int
  intena :: bool
  intr :: bool

definition initlock :: spinlock where
  "initlock = \<lparr>lk_locked = False, lk_cpu = None\<rparr>"

definition holding :: "nat \<Rightarrow> spinlock \<Rightarrow> bool" where
  "holding me lk \<longleftrightarrow> lk_locked lk \<and> lk_cpu lk = Some me"

definition push_off :: "cpu \<Rightarrow> cpu" where
  "push_off c = (let c1 = c\<lparr>intr := False\<rparr>;
                     c2 = (if noff c1 = 0 then c1\<lparr>intena := intr c\<rparr> else c1)
                 in c2\<lparr>noff := noff c2 + 1\<rparr>)"

definition pop_off :: "cpu \<Rightarrow> cpu result" where
  "pop_off c =
     (if intr c then Inl (Panic ''pop_off - interruptible'')
      else if noff c < 1 then Inl (Panic ''pop_off'')
      else let c1 = c\<lparr>noff := noff c - 1\<rparr>
           in Inr (if noff c1 = 0 \<and> intena c1 then c1\<lparr>intr := True\<rparr> else c1))"

text \<open>\<^verbatim>\<open>acquire\<close> up to the loop, one swap of the loop with whether it got the lock, and the rest.\<close>

definition acquire_enter :: "nat \<Rightarrow> spinlock \<Rightarrow> cpu \<Rightarrow> cpu result" where
  "acquire_enter me lk c = (let c1 = push_off c in if holding me lk then Inl (Panic ''acquire'') else Inr c1)"

definition acquire_swap :: "spinlock \<Rightarrow> bool \<times> spinlock" where
  "acquire_swap lk = (\<not> lk_locked lk, lk\<lparr>lk_locked := True\<rparr>)"

definition acquire_record :: "nat \<Rightarrow> spinlock \<Rightarrow> spinlock" where
  "acquire_record me lk = lk\<lparr>lk_cpu := Some me\<rparr>"

text \<open>\<^verbatim>\<open>acquire\<close> of one CPU while no other one runs: a lock that is taken is never released.\<close>

definition acquire :: "nat \<Rightarrow> spinlock \<Rightarrow> cpu \<Rightarrow> (spinlock \<times> cpu) result" where
  "acquire me lk c =
     rbind (acquire_enter me lk c) (\<lambda>c1.
       case acquire_swap lk of (got, lk1) \<Rightarrow> if got then Inr (acquire_record me lk1, c1) else Inl OutOfFuel)"

definition release_enter :: "nat \<Rightarrow> spinlock \<Rightarrow> spinlock result" where
  "release_enter me lk = (if \<not> holding me lk then Inl (Panic ''release'') else Inr (lk\<lparr>lk_cpu := None\<rparr>))"

definition release_store :: "spinlock \<Rightarrow> spinlock" where
  "release_store lk = lk\<lparr>lk_locked := False\<rparr>"

definition release :: "nat \<Rightarrow> spinlock \<Rightarrow> cpu \<Rightarrow> (spinlock \<times> cpu) result" where
  "release me lk c =
     rbind (release_enter me lk) (\<lambda>lk1. rbind (pop_off c) (\<lambda>c1. Inr (release_store lk1, c1)))"

section \<open>Sleep locks\<close>

text \<open>
  \<^verbatim>\<open>acquiresleep\<close> of a lock that is taken goes to sleep; the spin lock inside a sleep lock only
  makes the test and the update one step.
\<close>

record sleeplock =
  sl_locked :: bool
  sl_pid :: int

definition initsleeplock :: sleeplock where
  "initsleeplock = \<lparr>sl_locked = False, sl_pid = 0\<rparr>"

definition acquiresleep :: "int \<Rightarrow> sleeplock \<Rightarrow> sleeplock result" where
  "acquiresleep me lk = (if sl_locked lk then Inl Sleeping else Inr (lk\<lparr>sl_locked := True, sl_pid := me\<rparr>))"

definition releasesleep :: "sleeplock \<Rightarrow> sleeplock" where
  "releasesleep lk = lk\<lparr>sl_locked := False, sl_pid := 0\<rparr>"

definition holdingsleep :: "int \<Rightarrow> sleeplock \<Rightarrow> bool" where
  "holdingsleep me lk \<longleftrightarrow> sl_locked lk \<and> sl_pid lk = me"

section \<open>Several CPUs\<close>

text \<open>
  Where a CPU is: outside the lock functions, in the loop of \<^verbatim>\<open>acquire\<close>, between the swap and
  the record of the owner, between the two stores of \<^verbatim>\<open>release\<close>, or in a panic.  \<open>owned c\<close> are
  the locks CPU \<open>c\<close> has acquired and not begun to release.  A CPU acquires only locks it does not
  own and releases only those it owns; outside of \<^verbatim>\<open>push_off\<close> it may set its interrupt bit.
\<close>

datatype place = Outside | Spinning nat | Swapped nat | Cleared nat | Panicked

record msys =
  locks :: "nat \<Rightarrow> spinlock"
  cpus :: "nat \<Rightarrow> cpu"
  place :: "nat \<Rightarrow> place"
  owned :: "nat \<Rightarrow> nat set"

inductive lock_step :: "msys \<Rightarrow> msys \<Rightarrow> bool" where
  enter: "place s c = Outside \<Longrightarrow> l \<notin> owned s c \<Longrightarrow> acquire_enter c (locks s l) (cpus s c) = Inr c' \<Longrightarrow>
     lock_step s (s\<lparr>cpus := (cpus s)(c := c'), place := (place s)(c := Spinning l)\<rparr>)"
| enter_panic: "place s c = Outside \<Longrightarrow> l \<notin> owned s c \<Longrightarrow> acquire_enter c (locks s l) (cpus s c) = Inl e \<Longrightarrow>
     lock_step s (s\<lparr>place := (place s)(c := Panicked)\<rparr>)"
| swap: "place s c = Spinning l \<Longrightarrow> acquire_swap (locks s l) = (got, lk') \<Longrightarrow>
     lock_step s (s\<lparr>locks := (locks s)(l := lk'), place := (place s)(c := if got then Swapped l else Spinning l)\<rparr>)"
| record_owner: "place s c = Swapped l \<Longrightarrow>
     lock_step s (s\<lparr>locks := (locks s)(l := acquire_record c (locks s l)), place := (place s)(c := Outside),
                    owned := (owned s)(c := insert l (owned s c))\<rparr>)"
| leave: "place s c = Outside \<Longrightarrow> l \<in> owned s c \<Longrightarrow> release_enter c (locks s l) = Inr lk' \<Longrightarrow>
     lock_step s (s\<lparr>locks := (locks s)(l := lk'), place := (place s)(c := Cleared l),
                    owned := (owned s)(c := owned s c - {l})\<rparr>)"
| leave_panic: "place s c = Outside \<Longrightarrow> l \<in> owned s c \<Longrightarrow> release_enter c (locks s l) = Inl e \<Longrightarrow>
     lock_step s (s\<lparr>place := (place s)(c := Panicked)\<rparr>)"
| store: "place s c = Cleared l \<Longrightarrow> pop_off (cpus s c) = Inr c' \<Longrightarrow>
     lock_step s (s\<lparr>locks := (locks s)(l := release_store (locks s l)), place := (place s)(c := Outside),
                    cpus := (cpus s)(c := c')\<rparr>)"
| store_panic: "place s c = Cleared l \<Longrightarrow> pop_off (cpus s c) = Inl e \<Longrightarrow>
     lock_step s (s\<lparr>locks := (locks s)(l := release_store (locks s l)), place := (place s)(c := Panicked)\<rparr>)"
| set_intr: "place s c = Outside \<Longrightarrow> noff (cpus s c) = 0 \<Longrightarrow>
     lock_step s (s\<lparr>cpus := (cpus s)(c := (cpus s c)\<lparr>intr := b\<rparr>)\<rparr>)"

definition locks_start :: msys where
  "locks_start = \<lparr>locks = (\<lambda>_. initlock), cpus = (\<lambda>_. \<lparr>noff = 0, intena = False, intr = False\<rparr>),
                  place = (\<lambda>_. Outside), owned = (\<lambda>_. {})\<rparr>"

definition has_lock :: "msys \<Rightarrow> nat \<Rightarrow> nat \<Rightarrow> bool" where
  "has_lock s c l \<longleftrightarrow> l \<in> owned s c \<or> place s c = Swapped l \<or> place s c = Cleared l"

definition busy_cpu :: "place \<Rightarrow> int" where
  "busy_cpu p = (if p = Outside then 0 else 1)"

definition locks_inv :: "msys \<Rightarrow> bool" where
  "locks_inv s \<longleftrightarrow>
     (\<forall>l. lk_locked (locks s l) \<longleftrightarrow> (\<exists>c. has_lock s c l)) \<and>
     (\<forall>l c d. has_lock s c l \<longrightarrow> has_lock s d l \<longrightarrow> c = d) \<and>
     (\<forall>l c. lk_cpu (locks s l) = Some c \<longleftrightarrow> l \<in> owned s c) \<and>
     (\<forall>c. finite (owned s c) \<and> noff (cpus s c) = int (card (owned s c)) + busy_cpu (place s c)) \<and>
     (\<forall>c. noff (cpus s c) \<noteq> 0 \<longrightarrow> \<not> intr (cpus s c)) \<and>
     (\<forall>c. place s c \<noteq> Panicked) \<and>
     (\<forall>c l. l \<in> owned s c \<longrightarrow> place s c \<noteq> Spinning l \<and> place s c \<noteq> Swapped l \<and> place s c \<noteq> Cleared l)"

lemma locks_start_inv: "locks_inv locks_start"
  by (simp add: locks_inv_def locks_start_def has_lock_def busy_cpu_def initlock_def)


lemma locks_invD:
  assumes "locks_inv s"
  shows "lk_locked (locks s l) \<longleftrightarrow> (\<exists>c. has_lock s c l)" "has_lock s c l \<Longrightarrow> has_lock s d l \<Longrightarrow> c = d"
    "lk_cpu (locks s l) = Some c \<longleftrightarrow> l \<in> owned s c" "finite (owned s c)"
    "noff (cpus s c) = int (card (owned s c)) + busy_cpu (place s c)"
    "noff (cpus s c) \<noteq> 0 \<Longrightarrow> \<not> intr (cpus s c)" "place s c \<noteq> Panicked"
    "l \<in> owned s c \<Longrightarrow> place s c \<noteq> Spinning l \<and> place s c \<noteq> Swapped l \<and> place s c \<noteq> Cleared l"
  using assms unfolding locks_inv_def by blast+

lemma locks_holding: "locks_inv s \<Longrightarrow> holding c (locks s l) \<longleftrightarrow> l \<in> owned s c"
  using locks_invD(1,3)[of s] by (auto simp: holding_def has_lock_def)

text \<open>What a step of CPU \<open>c\<close> has to show: who has which lock afterwards, and its own counters.\<close>

lemma locks_inv_step:
  assumes inv: "locks_inv s"
    and other: "\<And>d. d \<noteq> c \<Longrightarrow> place s' d = place s d \<and> owned s' d = owned s d \<and> cpus s' d = cpus s d"
    and locked: "\<And>k. lk_locked (locks s' k) \<longleftrightarrow> (\<exists>d. has_lock s' d k)"
    and alone: "\<And>k d. has_lock s' c k \<Longrightarrow> has_lock s' d k \<Longrightarrow> d = c"
    and owner: "\<And>k d. lk_cpu (locks s' k) = Some d \<longleftrightarrow> k \<in> owned s' d"
    and fin: "finite (owned s' c)" and off: "noff (cpus s' c) = int (card (owned s' c)) + busy_cpu (place s' c)"
    and quiet: "noff (cpus s' c) \<noteq> 0 \<Longrightarrow> \<not> intr (cpus s' c)" and pl: "place s' c \<noteq> Panicked"
    and apart: "\<And>l. l \<in> owned s' c \<Longrightarrow> place s' c \<noteq> Spinning l \<and> place s' c \<noteq> Swapped l \<and> place s' c \<noteq> Cleared l"
  shows "locks_inv s'"
proof -
  note D = locks_invD[OF inv]
  have h: "has_lock s' d k = has_lock s d k" if "d \<noteq> c" for d k using other[OF that] by (simp add: has_lock_def)
  have u: "d = e" if "has_lock s' d k" "has_lock s' e k" for d e k
    using that alone h D(2) by metis
  show ?thesis unfolding locks_inv_def
  proof (intro conjI allI impI)
    fix d
    show "finite (owned s' d)" "noff (cpus s' d) = int (card (owned s' d)) + busy_cpu (place s' d)"
      "place s' d \<noteq> Panicked"
      using other[of d] fin off pl D(4,5,7)[of d] by (cases "d = c"; simp)+
    show "\<not> intr (cpus s' d)" if "noff (cpus s' d) \<noteq> 0"
      using that other[of d] quiet D(6)[of d] by (cases "d = c") simp_all
    fix l assume "l \<in> owned s' d"
    then show "place s' d \<noteq> Spinning l" "place s' d \<noteq> Swapped l" "place s' d \<noteq> Cleared l"
      using other[of d] apart[of l] D(8)[of l d] by (cases "d = c"; simp)+
  qed (use locked owner u in auto)
qed

lemma lock_step_inv: "lock_step s s' \<Longrightarrow> locks_inv s \<Longrightarrow> locks_inv s'"
proof (induction rule: lock_step.induct)
  case (enter s c l c')
  note D = locks_invD[OF enter(4)]
  have c': "noff c' = noff (cpus s c) + 1" "\<not> intr c'"
    using enter(3) by (auto simp: acquire_enter_def push_off_def Let_def split: if_splits)
  let ?s = "s\<lparr>cpus := (cpus s)(c := c'), place := (place s)(c := Spinning l)\<rparr>"
  have h: "has_lock ?s = has_lock s" using enter(1) by (auto simp: fun_eq_iff has_lock_def)
  show ?case
    by (rule locks_inv_step[OF enter(4), of c])
      (use h D(1,2,3,4) D(5)[of c] c' enter(1,2) in \<open>auto simp: busy_cpu_def\<close>)
next
  case (enter_panic s c l e)
  then show ?case using locks_holding[OF enter_panic(4)] by (auto simp: acquire_enter_def Let_def split: if_splits)
next
  case (swap s c l got lk')
  note D = locks_invD[OF swap(3)]
  have g: "got = (\<not> lk_locked (locks s l))" "lk' = (locks s l)\<lparr>lk_locked := True\<rparr>"
    using swap(2) by (auto simp: acquire_swap_def)
  let ?s = "s\<lparr>locks := (locks s)(l := lk'), place := (place s)(c := if got then Swapped l else Spinning l)\<rparr>"
  have h: "has_lock ?s d k \<longleftrightarrow> has_lock s d k \<or> got \<and> d = c \<and> k = l" for d k
    using swap(1) by (auto simp: has_lock_def)
  have n: "\<not> has_lock s d l" if got for d using D(1)[of l] g(1) that by auto
  have o: "l \<notin> owned s c" using D(8)[of l c] swap(1) by auto
  have L: "lk_locked (locks ?s k) \<longleftrightarrow> (\<exists>d. has_lock ?s d k)" for k using h g D(1)[of k] by auto
  show ?case
    by (rule locks_inv_step[OF swap(3), of c])
      (use L h n o g(2) D(2,3,4) D(5-7)[of c] D(8)[of _ c] swap(1) in \<open>auto simp: busy_cpu_def\<close>)
next
  case (record_owner s c l)
  note D = locks_invD[OF record_owner(2)]
  let ?s = "s\<lparr>locks := (locks s)(l := acquire_record c (locks s l)), place := (place s)(c := Outside),
              owned := (owned s)(c := insert l (owned s c))\<rparr>"
  have h: "has_lock ?s = has_lock s" using record_owner(1) by (auto simp: fun_eq_iff has_lock_def)
  have m: "has_lock s c l" using record_owner(1) by (simp add: has_lock_def)
  have o: "l \<notin> owned s c" using D(8)[of l c] record_owner(1) by auto
  have no: "l \<notin> owned s d" if "d \<noteq> c" for d using D(2)[OF m, of d] that by (auto simp: has_lock_def)
  show ?case
    by (rule locks_inv_step[OF record_owner(2), of c])
      (use h m o no D(1,2,3) D(4-7)[of c] record_owner(1) in \<open>auto simp: busy_cpu_def acquire_record_def\<close>)
next
  case (leave s c l lk')
  note D = locks_invD[OF leave(4)]
  have lk': "lk' = (locks s l)\<lparr>lk_cpu := None\<rparr>" using leave(3) by (auto simp: release_enter_def split: if_splits)
  let ?s = "s\<lparr>locks := (locks s)(l := lk'), place := (place s)(c := Cleared l), owned := (owned s)(c := owned s c - {l})\<rparr>"
  have h: "has_lock ?s = has_lock s" using leave(1,2) by (auto simp: fun_eq_iff has_lock_def)
  have m: "has_lock s c l" using leave(2) by (simp add: has_lock_def)
  have no: "l \<notin> owned s d" if "d \<noteq> c" for d using D(2)[OF m, of d] that by (auto simp: has_lock_def)
  have k: "card (owned s c - {l}) + 1 = card (owned s c)" using D(4)[of c] leave(2) using card_Suc_Diff1[of "owned s c" l] by simp
  show ?case
    by (rule locks_inv_step[OF leave(4), of c])
      (use h m no k lk' D(1,2,3) D(4-7)[of c] leave(1) in \<open>auto simp: busy_cpu_def\<close>)
next
  case (leave_panic s c l e)
  then show ?case using locks_holding[OF leave_panic(4)] by (auto simp: release_enter_def split: if_splits)
next
  case (store s c l c')
  note D = locks_invD[OF store(3)]
  let ?s = "s\<lparr>locks := (locks s)(l := release_store (locks s l)), place := (place s)(c := Outside), cpus := (cpus s)(c := c')\<rparr>"
  have o: "l \<notin> owned s c" using D(8)[of l c] store(1) by auto
  have m: "has_lock s c l" using store(1) by (simp add: has_lock_def)
  have h: "has_lock ?s d k \<longleftrightarrow> has_lock s d k \<and> k \<noteq> l" for d k
  proof (cases "d = c")
    case True
    then show ?thesis using store(1) o by (auto simp: has_lock_def)
  next
    case False
    have "\<not> has_lock s d l" using D(2)[OF m, of d] False by blast
    then show ?thesis using False by (auto simp: has_lock_def)
  qed
  have c': "noff c' = noff (cpus s c) - 1" "noff c' \<noteq> 0 \<Longrightarrow> \<not> intr c'"
    using store(2) by (auto simp: pop_off_def Let_def split: if_splits)
  show ?case
    by (rule locks_inv_step[OF store(3), of c])
      (use h c' D(1,2,3,4) D(5)[of c] store(1) in \<open>auto simp: busy_cpu_def release_store_def\<close>)
next
  case (store_panic s c l e)
  note D = locks_invD[OF store_panic(3)]
  have "1 \<le> noff (cpus s c)" using D(5)[of c] store_panic(1) by (simp add: busy_cpu_def)
  then show ?case using store_panic(2) D(6)[of c] by (auto simp: pop_off_def Let_def split: if_splits)
next
  case (set_intr s c b)
  note D = locks_invD[OF set_intr(3)]
  let ?s = "s\<lparr>cpus := (cpus s)(c := (cpus s c)\<lparr>intr := b\<rparr>)\<rparr>"
  have h: "has_lock ?s = has_lock s" by (auto simp: fun_eq_iff has_lock_def)
  show ?case
    by (rule locks_inv_step[OF set_intr(3), of c])
      (use h D(1,2,3,4) D(5)[of c] D(8)[of _ c] set_intr(1,2) in \<open>auto simp: busy_cpu_def\<close>)
qed

text \<open>
  C13: spin locks work with any number of CPUs: in every reachable state at most one CPU is in the
  critical section of a lock, a CPU that owns a lock has its interrupts off, and no CPU that only
  acquires locks it does not own and releases those it owns runs into a panic of the lock code.
\<close>

theorem spinlock_exclusion:
  assumes "lock_step\<^sup>*\<^sup>* locks_start s"
  shows "(\<forall>l c d. l \<in> owned s c \<longrightarrow> l \<in> owned s d \<longrightarrow> c = d) \<and>
     (\<forall>c. owned s c \<noteq> {} \<longrightarrow> \<not> intr (cpus s c)) \<and> (\<forall>c. place s c \<noteq> Panicked)"
proof -
  have inv: "locks_inv s" using assms
    by (induction rule: rtranclp_induct) (use locks_start_inv lock_step_inv in blast)+
  note D = locks_invD[OF inv]
  have "noff (cpus s c) \<noteq> 0" if "owned s c \<noteq> {}" for c
    using D(4,5)[of c] that by (simp add: busy_cpu_def)
  then show ?thesis using D(2,6,7) by (auto simp: has_lock_def)
qed

theorem spinlock_exclusion_witness:
  "\<exists>s. lock_step\<^sup>*\<^sup>* locks_start s \<and> owned s 0 = {7} \<and> \<not> intr (cpus s 0)"
proof -
  let ?c = "push_off \<lparr>noff = 0, intena = False, intr = False\<rparr>"
  let ?s1 = "locks_start\<lparr>cpus := (cpus locks_start)(0 := ?c), place := (place locks_start)(0 := Spinning 7)\<rparr>"
  let ?s2 = "?s1\<lparr>locks := (locks ?s1)(7 := initlock\<lparr>lk_locked := True\<rparr>), place := (place ?s1)(0 := Swapped 7)\<rparr>"
  let ?s3 = "?s2\<lparr>locks := (locks ?s2)(7 := acquire_record 0 (locks ?s2 7)), place := (place ?s2)(0 := Outside),
                 owned := (owned ?s2)(0 := insert 7 (owned ?s2 0))\<rparr>"
  have a: "lock_step locks_start ?s1"
    by (rule lock_step.enter) (simp_all add: locks_start_def acquire_enter_def initlock_def holding_def Let_def)
  have b: "lock_step ?s1 ?s2"
    using lock_step.swap[of ?s1 0 7 True "initlock\<lparr>lk_locked := True\<rparr>"]
    by (simp add: locks_start_def acquire_swap_def initlock_def)
  have d: "lock_step ?s2 ?s3" by (rule lock_step.record_owner) simp
  from d have "lock_step\<^sup>*\<^sup>* ?s2 ?s3" by (rule r_into_rtranclp)
  with b have "lock_step\<^sup>*\<^sup>* ?s1 ?s3" by (rule converse_rtranclp_into_rtranclp)
  with a have r: "lock_step\<^sup>*\<^sup>* locks_start ?s3" by (rule converse_rtranclp_into_rtranclp)
  have o: "owned ?s3 0 = {7}" by (simp add: locks_start_def)
  from spinlock_exclusion[OF r] have "\<not> intr (cpus ?s3 0)" unfolding o[symmetric] by (metis o insert_not_empty)
  with r o show ?thesis by blast
qed

text \<open>
  C23: \<^verbatim>\<open>acquire\<close> of a free lock followed by \<^verbatim>\<open>release\<close> gives back the lock and the interrupt state
  of the CPU, at any depth of nesting; and a second \<^verbatim>\<open>acquire\<close> by the same CPU is a panic.
\<close>

theorem acquire_release:
  assumes "\<not> lk_locked lk" "lk_cpu lk = None" "0 \<le> noff c" "0 < noff c \<longrightarrow> \<not> intr c"
  shows "\<exists>lk' c'. acquire me lk c = Inr (lk', c') \<and> \<not> intr c' \<and> acquire me lk' c' = Inl (Panic ''acquire'') \<and>
     (\<exists>e. release me lk' c' = Inr (lk, c\<lparr>intena := e\<rparr>))"
proof -
  let ?lk = "lk\<lparr>lk_locked := True, lk_cpu := Some me\<rparr>"
  have a: "acquire me lk c = Inr (?lk, push_off c)"
    using assms by (simp add: acquire_def acquire_enter_def acquire_swap_def acquire_record_def holding_def Let_def)
  have b: "acquire me ?lk (push_off c) = Inl (Panic ''acquire'')"
    by (simp add: acquire_def acquire_enter_def holding_def Let_def)
  have p: "pop_off (push_off c) = Inr (c\<lparr>intena := intena (push_off c)\<rparr>)"
    using assms(3,4) by (auto simp: pop_off_def push_off_def Let_def)
  have "release me ?lk (push_off c) = Inr (lk, c\<lparr>intena := intena (push_off c)\<rparr>)"
    using assms(1,2) by (simp add: release_def release_enter_def release_store_def holding_def p)
  moreover have "\<not> intr (push_off c)" by (simp add: push_off_def Let_def)
  ultimately show ?thesis using a b by blast
qed

theorem acquire_release_witness:
  "\<exists>lk' c'. acquire 3 initlock \<lparr>noff = 0, intena = False, intr = True\<rparr> = Inr (lk', c') \<and> \<not> intr c'"
  using acquire_release[of initlock "\<lparr>noff = 0, intena = False, intr = True\<rparr>" 3] by (auto simp: initlock_def)

end
