(* ===== verification/Bio.thy ===== *)
theory Bio
  imports Virtio Locks
begin

text \<open>
  The buffer cache, \<^verbatim>\<open>kernel/bio.c\<close>, on top of the disk driver.  The buffers are numbered, and
  number \<^verbatim>\<open>NBUF\<close> is \<^verbatim>\<open>bcache.head\<close>; \<^verbatim>\<open>prev\<close> and \<^verbatim>\<open>next\<close> are such numbers.  \<open>cur\<close> is the process
  that runs.  A section under \<^verbatim>\<open>bcache.lock\<close> is one step; a buffer that another process has locked
  makes the caller sleep.  Every write to the disk is also appended to \<open>wtrace\<close>, which nothing
  reads: it is there to say in which order the blocks reach the disk.
\<close>

section \<open>Model\<close>

definition NBUF :: nat where [const_simps]: "NBUF = 30"
definition ROOTDEV :: u32 where [const_simps]: "ROOTDEV = 1"
definition VIRTIO0_ID :: nat where [const_simps]: "VIRTIO0_ID = 0"

record bbuf = buf +
  b_valid :: bool
  b_dev :: u32
  b_lock :: sleeplock
  b_refcnt :: u32
  b_prev :: nat
  b_next :: nat

record 'd bsys =
  bufs :: "nat \<Rightarrow> bbuf"
  drv :: "'d vstate"
  cur :: int
  wtrace :: "(u32 \<times> byte list) list"

definition upd_buf :: "nat \<Rightarrow> (bbuf \<Rightarrow> bbuf) \<Rightarrow> 'd bsys \<Rightarrow> 'd bsys" where
  "upd_buf i f s = s\<lparr>bufs := (bufs s)(i := f (bufs s i))\<rparr>"

definition set_next :: "nat \<Rightarrow> nat \<Rightarrow> 'd bsys \<Rightarrow> 'd bsys" where
  "set_next i v = upd_buf i (\<lambda>b. b\<lparr>b_next := v\<rparr>)"

definition set_prev :: "nat \<Rightarrow> nat \<Rightarrow> 'd bsys \<Rightarrow> 'd bsys" where
  "set_prev i v = upd_buf i (\<lambda>b. b\<lparr>b_prev := v\<rparr>)"

abbreviation next_of :: "nat \<Rightarrow> 'd bsys \<Rightarrow> nat" where
  "next_of i s \<equiv> b_next (bufs s i)"

abbreviation prev_of :: "nat \<Rightarrow> 'd bsys \<Rightarrow> nat" where
  "prev_of i s \<equiv> b_prev (bufs s i)"

text \<open>The four stores that put a buffer behind the head, in \<^verbatim>\<open>binit\<close> and in \<^verbatim>\<open>brelse\<close>.\<close>

definition push_front :: "nat \<Rightarrow> 'd bsys \<Rightarrow> 'd bsys" where
  "push_front b s =
     (let s1 = set_next b (next_of NBUF s) s;
          s2 = set_prev b NBUF s1;
          s3 = set_prev (next_of NBUF s2) b s2
      in set_next NBUF b s3)"

definition binit :: "'d bsys \<Rightarrow> 'd bsys" where
  "binit s = fold (\<lambda>b s. upd_buf b (\<lambda>x. x\<lparr>b_lock := initsleeplock\<rparr>) (push_front b s)) [0..<NBUF]
     (set_next NBUF NBUF (set_prev NBUF NBUF s))"

text \<open>The two searches of \<^verbatim>\<open>bget\<close>, with a bound on the number of steps.\<close>

fun scan_next :: "nat \<Rightarrow> nat \<Rightarrow> u32 \<Rightarrow> u32 \<Rightarrow> 'd bsys \<Rightarrow> nat option result" where
  "scan_next 0 b dev bn s = Inl OutOfFuel"
| "scan_next (Suc n) b dev bn s =
     (if b = NBUF then Inr None
      else if b_dev (bufs s b) = dev \<and> b_blockno (bufs s b) = bn then Inr (Some b)
      else scan_next n (next_of b s) dev bn s)"

fun scan_prev :: "nat \<Rightarrow> nat \<Rightarrow> 'd bsys \<Rightarrow> nat option result" where
  "scan_prev 0 b s = Inl OutOfFuel"
| "scan_prev (Suc n) b s =
     (if b = NBUF then Inr None
      else if b_refcnt (bufs s b) = 0 then Inr (Some b)
      else scan_prev n (prev_of b s) s)"

definition lock_buf :: "nat \<Rightarrow> 'd bsys \<Rightarrow> 'd bsys result" where
  "lock_buf b s = rbind (acquiresleep (cur s) (b_lock (bufs s b))) (\<lambda>lk. Inr (upd_buf b (\<lambda>x. x\<lparr>b_lock := lk\<rparr>) s))"

definition bget :: "u32 \<Rightarrow> u32 \<Rightarrow> 'd bsys \<Rightarrow> (nat \<times> 'd bsys) result" where
  "bget dev bn s =
     rbind (scan_next (NBUF + 1) (next_of NBUF s) dev bn s) (\<lambda>r. case r of
       Some b \<Rightarrow> rbind (lock_buf b (upd_buf b (\<lambda>x. x\<lparr>b_refcnt := b_refcnt x + 1\<rparr>) s)) (\<lambda>s1. Inr (b, s1))
     | None \<Rightarrow> rbind (scan_prev (NBUF + 1) (prev_of NBUF s) s) (\<lambda>r. case r of
         Some b \<Rightarrow> rbind (lock_buf b (upd_buf b (\<lambda>x. x\<lparr>b_dev := dev, b_blockno := bn, b_valid := False, b_refcnt := 1\<rparr>) s))
                     (\<lambda>s1. Inr (b, s1))
       | None \<Rightarrow> Inl (Panic ''bget: no buffers'')))"

text \<open>\<^verbatim>\<open>virtio_disk_rw(VIRTIO0_ID, b, write)\<close> on a buffer of the cache.\<close>

definition buf_rw :: "nat \<Rightarrow> bool \<Rightarrow> 'd bsys \<Rightarrow> 'd bsys result" where
  "buf_rw b write s =
     rbind (virtio_disk_rw VIRTIO0_ID (buf.truncate (bufs s b)) write (drv s)) (\<lambda>(x, v).
       Inr ((upd_buf b (\<lambda>y. y\<lparr>b_disk := b_disk x, b_data := b_data x\<rparr>) s)\<lparr>drv := v\<rparr>))"

definition bread :: "u32 \<Rightarrow> u32 \<Rightarrow> 'd bsys \<Rightarrow> (nat \<times> 'd bsys) result" where
  "bread dev bn s =
     rbind (bget dev bn s) (\<lambda>(b, s1).
       if \<not> b_valid (bufs s1 b)
       then rbind (buf_rw b False s1) (\<lambda>s2. Inr (b, upd_buf b (\<lambda>x. x\<lparr>b_valid := True\<rparr>) s2))
       else Inr (b, s1))"

definition bwrite :: "nat \<Rightarrow> 'd bsys \<Rightarrow> 'd bsys result" where
  "bwrite b s =
     (if \<not> holdingsleep (cur s) (b_lock (bufs s b)) then Inl (Panic ''bwrite'')
      else rbind (buf_rw b True s) (\<lambda>s1.
        Inr (s1\<lparr>wtrace := wtrace s1 @ [(b_blockno (bufs s b), b_data (bufs s b))]\<rparr>)))"

definition brelse :: "nat \<Rightarrow> 'd bsys \<Rightarrow> 'd bsys result" where
  "brelse b s =
     (if \<not> holdingsleep (cur s) (b_lock (bufs s b)) then Inl (Panic ''brelse'')
      else let s1 = upd_buf b (\<lambda>x. x\<lparr>b_lock := releasesleep (b_lock x), b_refcnt := b_refcnt x - 1\<rparr>) s
       in if b_refcnt (bufs s1 b) = 0
          then let s2 = set_prev (next_of b s1) (prev_of b s1) s1;
                   s3 = set_next (prev_of b s2) (next_of b s2) s2
               in Inr (push_front b s3)
          else Inr s1)"

definition bpin :: "nat \<Rightarrow> 'd bsys \<Rightarrow> 'd bsys" where
  "bpin b = upd_buf b (\<lambda>x. x\<lparr>b_refcnt := b_refcnt x + 1\<rparr>)"

definition bunpin :: "nat \<Rightarrow> 'd bsys \<Rightarrow> 'd bsys" where
  "bunpin b = upd_buf b (\<lambda>x. x\<lparr>b_refcnt := b_refcnt x - 1\<rparr>)"

section \<open>The list of buffers\<close>

text \<open>
  \<open>links nx pv a xs z\<close>: following \<open>nx\<close> from \<open>a\<close> gives the elements of \<open>xs\<close> and then \<open>z\<close>, and
  following \<open>pv\<close> from \<open>z\<close> gives them backwards.
\<close>

fun links :: "(nat \<Rightarrow> nat) \<Rightarrow> (nat \<Rightarrow> nat) \<Rightarrow> nat \<Rightarrow> nat list \<Rightarrow> nat \<Rightarrow> bool" where
  "links nx pv a [] z \<longleftrightarrow> nx a = z \<and> pv z = a"
| "links nx pv a (x # xs) z \<longleftrightarrow> nx a = x \<and> pv x = a \<and> links nx pv x xs z"

lemma links_append: "links nx pv a (xs @ y # ys) z \<longleftrightarrow> links nx pv a xs y \<and> links nx pv y ys z"
  by (induction xs arbitrary: a) auto

lemma links_frame:
  "links nx pv a xs z \<Longrightarrow> (\<And>u. u \<in> set (a # xs) \<Longrightarrow> nx' u = nx u) \<Longrightarrow> (\<And>u. u \<in> set (xs @ [z]) \<Longrightarrow> pv' u = pv u) \<Longrightarrow>
   links nx' pv' a xs z"
  by (induction xs arbitrary: a) auto

lemma links_remove:
  assumes "links nx pv a ys b" "links nx pv b zs z" "distinct (ys @ b # zs)" "a \<notin> set (ys @ b # zs)" "z \<notin> set (ys @ b # zs)"
  shows "links (nx(pv b := nx b)) (pv(nx b := pv b)) a (ys @ zs) z"
  using assms
proof (induction ys arbitrary: a)
  case Nil
  then have b: "pv b = a" by simp
  show ?case
  proof (cases zs)
    case Nil
    then show ?thesis using \<open>links nx pv b zs z\<close> b by simp
  next
    case (Cons u us)
    have "links (nx(a := u)) (pv(u := a)) u us z"
      by (rule links_frame[of nx pv]) (use Nil Cons in auto)
    moreover have "nx b = u" using Nil Cons by simp
    ultimately show ?thesis unfolding b Cons append_Nil links.simps by simp
  qed
next
  case (Cons y ys)
  have ind: "links (nx(pv b := nx b)) (pv(nx b := pv b)) y (ys @ zs) z"
    by (rule Cons.IH) (use Cons.prems in auto)
  have "links nx pv y ys b" using Cons.prems(1) by simp
  then have "pv b \<in> set (y # ys)" by (induction ys arbitrary: y) auto
  then have n: "pv b \<noteq> a" using Cons.prems(4) by auto
  have "nx b \<in> set (zs @ [z])" using Cons.prems(2) by (cases zs) auto
  then have "nx b \<noteq> y" using Cons.prems(3,5) by auto
  with ind n Cons.prems(1) show ?case unfolding append_Cons links.simps by simp
qed

lemma links_push:
  assumes "links nx pv a xs z" "b \<notin> set xs" "b \<noteq> a" "b \<noteq> z" "distinct xs" "a \<notin> set xs" "z \<notin> set xs"
  shows "links (nx(b := nx a, a := b)) (pv(b := a, nx a := b)) a (b # xs) z"
proof (cases xs)
  case Nil
  then show ?thesis using assms by auto
next
  case (Cons u us)
  have "links (nx(b := nx a, a := b)) (pv(b := a, nx a := b)) u us z"
    by (rule links_frame[of nx pv]) (use assms Cons in auto)
  then show ?thesis using assms Cons by auto
qed

definition nexts :: "'d bsys \<Rightarrow> nat \<Rightarrow> nat" where "nexts s i = b_next (bufs s i)"
definition prevs :: "'d bsys \<Rightarrow> nat \<Rightarrow> nat" where "prevs s i = b_prev (bufs s i)"

definition lru :: "'d bsys \<Rightarrow> nat list \<Rightarrow> bool" where
  "lru s xs \<longleftrightarrow> links (nexts s) (prevs s) NBUF xs NBUF \<and> distinct xs \<and> set xs = {0..<NBUF}"


lemma bufs_upd_buf: "bufs (upd_buf i f s) = (bufs s)(i := f (bufs s i))"
  by (simp add: upd_buf_def)

lemma upd_buf_other [simp]:
  "drv (upd_buf i f s) = drv s" "cur (upd_buf i f s) = cur s" "wtrace (upd_buf i f s) = wtrace s"
  by (simp_all add: upd_buf_def)

lemma nexts_simps [simp]:
  "nexts (set_next i v s) = (nexts s)(i := v)" "prevs (set_next i v s) = prevs s"
  "nexts (set_prev i v s) = nexts s" "prevs (set_prev i v s) = (prevs s)(i := v)"
  by (auto simp: nexts_def prevs_def set_next_def set_prev_def bufs_upd_buf)

lemma next_of_nexts: "next_of i s = nexts s i" "prev_of i s = prevs s i"
  by (simp_all add: nexts_def prevs_def)

lemma links_push_front:
  assumes "b \<noteq> NBUF"
  shows "nexts (push_front b s) = (nexts s)(b := nexts s NBUF, NBUF := b)"
    and "prevs (push_front b s) = (prevs s)(b := NBUF, nexts s NBUF := b)"
  using assms unfolding push_front_def Let_def next_of_nexts by simp_all

text \<open>All fields but the links and the flag the driver uses, which is only set during a request.\<close>

definition core :: "bbuf \<Rightarrow> bbuf" where
  "core x = x\<lparr>b_disk := False, b_prev := 0, b_next := 0\<rparr>"

definition cores :: "'d bsys \<Rightarrow> nat \<Rightarrow> bbuf" where
  "cores s i = core (bufs s i)"

lemma core_fields:
  assumes "core x = core y"
  shows "b_valid x = b_valid y" "b_dev x = b_dev y" "b_blockno x = b_blockno y" "b_lock x = b_lock y"
    "b_refcnt x = b_refcnt y" "b_data x = b_data y"
  using arg_cong[OF assms, of b_valid] arg_cong[OF assms, of b_dev] arg_cong[OF assms, of b_blockno]
    arg_cong[OF assms, of b_lock] arg_cong[OF assms, of b_refcnt] arg_cong[OF assms, of b_data]
  by (simp_all add: core_def)

lemma core_simps [simp]:
  "b_valid (core x) = b_valid x" "b_dev (core x) = b_dev x" "b_blockno (core x) = b_blockno x"
  "b_lock (core x) = b_lock x" "b_refcnt (core x) = b_refcnt x" "b_data (core x) = b_data x"
  by (simp_all add: core_def)

lemma cores_links [simp]: "cores (set_next i v s) = cores s" "cores (set_prev i v s) = cores s"
  by (auto simp: cores_def set_next_def set_prev_def bufs_upd_buf core_def)

lemma push_front_simps [simp]:
  "cores (push_front b s) = cores s" "drv (push_front b s) = drv s" "cur (push_front b s) = cur s"
  "wtrace (push_front b s) = wtrace s"
  by (simp_all add: push_front_def Let_def) (simp_all add: set_next_def set_prev_def)

text \<open>A field that is no link can be changed without touching the list.\<close>

definition linkless :: "(bbuf \<Rightarrow> bbuf) \<Rightarrow> bool" where
  "linkless f \<longleftrightarrow> (\<forall>x. b_next (f x) = b_next x \<and> b_prev (f x) = b_prev x)"

lemma linkless_nexts:
  "linkless f \<Longrightarrow> nexts (upd_buf i f s) = nexts s" "linkless f \<Longrightarrow> prevs (upd_buf i f s) = prevs s"
  by (auto simp: nexts_def prevs_def bufs_upd_buf linkless_def)

lemma linkless_lru: "linkless f \<Longrightarrow> lru (upd_buf i f s) xs = lru s xs"
  by (simp add: lru_def linkless_nexts)

lemma lru_cong: "nexts s' = nexts s \<Longrightarrow> prevs s' = prevs s \<Longrightarrow> lru s' xs = lru s xs"
  by (simp add: lru_def)

lemma binit_steps:
  assumes "k \<le> NBUF"
  shows "links (nexts (fold (\<lambda>b s. upd_buf b (\<lambda>x. x\<lparr>b_lock := initsleeplock\<rparr>) (push_front b s)) [0..<k]
       (set_next NBUF NBUF (set_prev NBUF NBUF s))))
     (prevs (fold (\<lambda>b s. upd_buf b (\<lambda>x. x\<lparr>b_lock := initsleeplock\<rparr>) (push_front b s)) [0..<k]
       (set_next NBUF NBUF (set_prev NBUF NBUF s)))) NBUF (rev [0..<k]) NBUF"
  using assms
proof (induction k)
  case (Suc k)
  let ?f = "\<lambda>b s. upd_buf b (\<lambda>x. x\<lparr>b_lock := initsleeplock\<rparr>) (push_front b s)"
  let ?s = "fold ?f [0..<k] (set_next NBUF NBUF (set_prev NBUF NBUF s))"
  have l: "linkless (\<lambda>x. x\<lparr>b_lock := initsleeplock\<rparr>)" by (simp add: linkless_def)
  have "links (nexts ?s) (prevs ?s) NBUF (rev [0..<k]) NBUF" using Suc by simp
  then have "links (nexts (push_front k ?s)) (prevs (push_front k ?s)) NBUF (k # rev [0..<k]) NBUF"
    unfolding links_push_front[of k ?s, OF less_imp_neq[OF Suc_le_lessD[OF Suc.prems]]]
    by (rule links_push) (use Suc.prems in auto)
  then show ?case by (simp add: linkless_nexts[OF l])
qed simp

lemma binit_lru: "lru (binit s) (rev [0..<NBUF])"
  using binit_steps[of NBUF s] by (simp add: lru_def binit_def)

lemma scan_next_find:
  assumes "links (nexts s) (prevs s) a xs NBUF" "NBUF \<notin> set xs" "length xs < n"
  shows "scan_next n (nexts s a) dev bn s = Inr (find (\<lambda>i. b_dev (bufs s i) = dev \<and> b_blockno (bufs s i) = bn) xs)"
  using assms
proof (induction xs arbitrary: a n)
  case Nil
  then show ?case by (cases n) auto
next
  case (Cons x xs)
  then obtain m where n: "n = Suc m" by (cases n) auto
  have "nexts s a = x" "links (nexts s) (prevs s) x xs NBUF" "x \<noteq> NBUF" using Cons by auto
  then show ?case using Cons.IH[of x m] Cons.prems n by (auto simp: next_of_nexts)
qed

lemma scan_prev_find:
  assumes "links (nexts s) (prevs s) NBUF xs z" "NBUF \<notin> set xs" "length xs < n"
  shows "scan_prev n (prevs s z) s = Inr (find (\<lambda>i. b_refcnt (bufs s i) = 0) (rev xs))"
  using assms
proof (induction xs arbitrary: z n rule: rev_induct)
  case Nil
  then show ?case by (cases n) auto
next
  case (snoc x xs)
  then obtain m where n: "n = Suc m" by (cases n) auto
  have "links (nexts s) (prevs s) NBUF xs x" "prevs s z = x" "x \<noteq> NBUF"
    using snoc.prems links_append[of "nexts s" "prevs s" NBUF xs x "[]" z] by auto
  then show ?case using snoc.IH[of x m] snoc.prems n by (auto simp: next_of_nexts)
qed

lemma lru_scans:
  assumes "lru s xs"
  shows "scan_next (NBUF + 1) (next_of NBUF s) dev bn s = Inr (find (\<lambda>i. b_dev (bufs s i) = dev \<and> b_blockno (bufs s i) = bn) xs)"
    and "scan_prev (NBUF + 1) (prev_of NBUF s) s = Inr (find (\<lambda>i. b_refcnt (bufs s i) = 0) (rev xs))"
proof -
  have l: "links (nexts s) (prevs s) NBUF xs NBUF" "NBUF \<notin> set xs" "length xs < NBUF + 1"
    using assms distinct_card[of xs] by (auto simp: lru_def)
  show "scan_next (NBUF + 1) (next_of NBUF s) dev bn s = Inr (find (\<lambda>i. b_dev (bufs s i) = dev \<and> b_blockno (bufs s i) = bn) xs)"
    unfolding next_of_nexts by (rule scan_next_find[OF l])
  show "scan_prev (NBUF + 1) (prev_of NBUF s) s = Inr (find (\<lambda>i. b_refcnt (bufs s i) = 0) (rev xs))"
    unfolding next_of_nexts by (rule scan_prev_find[OF l])
qed

text \<open>The stores of \<^verbatim>\<open>brelse\<close> move the buffer to the front.\<close>

definition move_front :: "nat \<Rightarrow> 'd bsys \<Rightarrow> 'd bsys" where
  "move_front b s = (let s2 = set_prev (next_of b s) (prev_of b s) s;
                         s3 = set_next (prev_of b s2) (next_of b s2) s2
                     in push_front b s3)"

lemma move_front_lru:
  assumes "lru s (ys @ b # zs)"
  shows "lru (move_front b s) (b # ys @ zs)"
proof -
  have d: "distinct (ys @ b # zs)" "set (ys @ b # zs) = {0..<NBUF}" using assms by (simp_all only: lru_def)
  then have N: "NBUF \<notin> set (ys @ b # zs)" "b \<noteq> NBUF" by auto
  have l: "links (nexts s) (prevs s) NBUF ys b" "links (nexts s) (prevs s) b zs NBUF"
    using assms by (simp_all add: lru_def links_append)
  have "nexts s b \<in> set (zs @ [NBUF])" using l(2) by (cases zs) auto
  then have nb: "nexts s b \<noteq> b" using d(1) N(2) by auto
  let ?t = "set_next (prevs s b) (nexts s b) (set_prev (nexts s b) (prevs s b) s)"
  have m: "move_front b s = push_front b ?t"
    unfolding move_front_def Let_def next_of_nexts using nb by simp
  have "links (nexts ?t) (prevs ?t) NBUF (ys @ zs) NBUF"
    using links_remove[OF l d(1) N(1) N(1)] by simp
  then have "links (nexts (push_front b ?t)) (prevs (push_front b ?t)) NBUF (b # ys @ zs) NBUF"
    unfolding links_push_front[OF N(2)] by (rule links_push) (use d N in auto)
  then show ?thesis using d m by (auto simp: lru_def)
qed


section \<open>The first disk as an array of blocks\<close>

definition fsd :: "nat \<Rightarrow> 'd vstate \<Rightarrow> u32 \<Rightarrow> byte list" where
  "fsd nblk v b = (if unat b < nblk then dev_block (device v) (media v) VIRTIO0_ID (unat b) else [])"

lemma blk_sector_word:
  assumes "unat b < 2 ^ 31"
  shows "blk_sector b = of_nat (2 * unat b)"
  using blk_sector_of_int[OF assms] by simp

lemma vio_ok_disk0:
  assumes "vio_ok nd nblk v" "vdisk_ok d"
  shows "vio_ok nd nblk (v\<lparr>media := m, disks := (disks v)[VIRTIO0_ID := d]\<rparr>)"
  using assms unfolding vio_ok_def VIRTIO0_ID_def by (auto simp: nth_list_update)

lemma length_fsd: "vio_ok nd nblk v \<Longrightarrow> unat b < nblk \<Longrightarrow> length (fsd nblk v b) = BSIZE"
proof -
  assume a: "vio_ok nd nblk v" "unat b < nblk"
  have law: "virtio_blk_law (device v) nblk" using a(1) by (simp add: vio_ok_def)
  have "length (replicate BSIZE (0 :: byte)) = BSIZE" by simp
  with law a(2) have "length (dev_block (device v) (media v) VIRTIO0_ID (unat b)) = BSIZE"
    unfolding virtio_blk_law_def by blast
  with a show ?thesis by (simp add: fsd_def)
qed

lemma disk0_read:
  assumes ok: "vio_ok nd nblk v" and b: "unat (b_blockno x) < nblk" and len: "length (b_data x) = BSIZE"
  shows "\<exists>v'. virtio_disk_rw VIRTIO0_ID x False v = Inr (x\<lparr>b_disk := False, b_data := fsd nblk v (b_blockno x)\<rparr>, v') \<and>
     vio_ok nd nblk v' \<and> fsd nblk v' = fsd nblk v"
proof -
  let ?b = "unat (b_blockno x)"
  have "?b < 2 ^ 31" using ok b by (auto simp: vio_ok_def)
  then have sec: "blk_sector (b_blockno x) = of_nat (2 * ?b)" by (rule blk_sector_word)
  obtain m where m: "device v VIRTIO0_ID VIRTIO_BLK_T_IN (of_nat (2 * ?b)) (b_data x) (media v) =
        (0, dev_block (device v) (media v) VIRTIO0_ID ?b, m)"
      "\<And>did' b'. b' < nblk \<Longrightarrow> dev_block (device v) m did' b' = dev_block (device v) (media v) did' b'"
    using ok b len unfolding vio_ok_def virtio_blk_law_def by blast
  have d: "VIRTIO0_ID < length (disks v)" "vdisk_ok (disks v ! VIRTIO0_ID)"
    using ok by (auto simp: vio_ok_def VIRTIO0_ID_def)
  obtain d' where d': "virtio_disk_rw VIRTIO0_ID x False v =
      Inr (x\<lparr>b_disk := False, b_data := dev_block (device v) (media v) VIRTIO0_ID ?b\<rparr>,
           v\<lparr>media := m, disks := (disks v)[VIRTIO0_ID := d']\<rparr>)" "vdisk_ok d'"
    using virtio_disk_rw_ok[OF d, of False x _ m] sec m(1) by auto
  show ?thesis
    using d'(1) vio_ok_disk0[OF ok d'(2)] m(2) b by (auto simp: fsd_def fun_eq_iff)
qed

lemma disk0_write:
  assumes ok: "vio_ok nd nblk v" and b: "unat (b_blockno x) < nblk" and len: "length (b_data x) = BSIZE"
  shows "\<exists>v'. virtio_disk_rw VIRTIO0_ID x True v = Inr (x\<lparr>b_disk := False\<rparr>, v') \<and>
     vio_ok nd nblk v' \<and> fsd nblk v' = (fsd nblk v)(b_blockno x := b_data x)"
proof -
  let ?b = "unat (b_blockno x)"
  have "?b < 2 ^ 31" using ok b by (auto simp: vio_ok_def)
  then have sec: "blk_sector (b_blockno x) = of_nat (2 * ?b)" by (rule blk_sector_word)
  have "\<exists>m' out. device v VIRTIO0_ID VIRTIO_BLK_T_OUT (of_nat (2 * ?b)) (b_data x) (media v) = (0, out, m') \<and>
      (\<forall>did' b'. b' < nblk \<longrightarrow> dev_block (device v) m' did' b' =
         (if did' = VIRTIO0_ID \<and> b' = ?b then b_data x else dev_block (device v) (media v) did' b'))"
    using ok b len unfolding vio_ok_def virtio_blk_law_def by blast
  then obtain m out where m: "device v VIRTIO0_ID VIRTIO_BLK_T_OUT (of_nat (2 * ?b)) (b_data x) (media v) = (0, out, m)"
      "\<And>did' b'. b' < nblk \<Longrightarrow> dev_block (device v) m did' b' =
         (if did' = VIRTIO0_ID \<and> b' = ?b then b_data x else dev_block (device v) (media v) did' b')"
    by blast
  have d: "VIRTIO0_ID < length (disks v)" "vdisk_ok (disks v ! VIRTIO0_ID)"
    using ok by (auto simp: vio_ok_def VIRTIO0_ID_def)
  obtain d' where d': "virtio_disk_rw VIRTIO0_ID x True v =
      Inr (x\<lparr>b_disk := False\<rparr>, v\<lparr>media := m, disks := (disks v)[VIRTIO0_ID := d']\<rparr>)" "vdisk_ok d'"
    using virtio_disk_rw_ok[OF d, of True x out m] sec m(1) by auto
  show ?thesis
    using d'(1) vio_ok_disk0[OF ok d'(2)] m(2) b by (auto simp: fsd_def fun_eq_iff unsigned_word_eqI)
qed

section \<open>The contents of the cache\<close>

definition slot_of :: "(nat \<Rightarrow> bbuf) \<Rightarrow> u32 \<Rightarrow> nat option" where
  "slot_of c b = find (\<lambda>i. b_dev (c i) = ROOTDEV \<and> b_blockno (c i) = b) [0..<NBUF]"

text \<open>What a reader of block \<open>b\<close> sees, how many references there are to it, and whether it is locked.\<close>

definition cview :: "(nat \<Rightarrow> bbuf) \<Rightarrow> (u32 \<Rightarrow> byte list) \<Rightarrow> u32 \<Rightarrow> byte list" where
  "cview c D b = (case slot_of c b of Some i \<Rightarrow> if b_valid (c i) then b_data (c i) else D b | None \<Rightarrow> D b)"

definition crefs :: "(nat \<Rightarrow> bbuf) \<Rightarrow> u32 \<Rightarrow> nat" where
  "crefs c b = (case slot_of c b of Some i \<Rightarrow> unat (b_refcnt (c i)) | None \<Rightarrow> 0)"

definition cbusy :: "(nat \<Rightarrow> bbuf) \<Rightarrow> u32 \<Rightarrow> bool" where
  "cbusy c b = (case slot_of c b of Some i \<Rightarrow> sl_locked (b_lock (c i)) | None \<Rightarrow> False)"

definition buf_ok :: "nat \<Rightarrow> (u32 \<Rightarrow> byte list) \<Rightarrow> bbuf \<Rightarrow> bool" where
  "buf_ok nblk D x \<longleftrightarrow> length (b_data x) = BSIZE \<and>
     (b_dev x = 0 \<and> b_refcnt x = 0 \<or> b_dev x = ROOTDEV \<and> unat (b_blockno x) < nblk) \<and>
     (if b_refcnt x = 0 then \<not> sl_locked (b_lock x) \<and> (b_dev x = ROOTDEV \<longrightarrow> b_valid x \<longrightarrow> b_data x = D (b_blockno x))
      else b_valid x)"

definition cache_ok :: "nat \<Rightarrow> (nat \<Rightarrow> bbuf) \<Rightarrow> (u32 \<Rightarrow> byte list) \<Rightarrow> bool" where
  "cache_ok nblk c D \<longleftrightarrow> (\<forall>i<NBUF. buf_ok nblk D (c i)) \<and>
     (\<forall>i<NBUF. \<forall>j<NBUF. b_dev (c i) = ROOTDEV \<longrightarrow> b_dev (c j) = ROOTDEV \<longrightarrow> b_blockno (c i) = b_blockno (c j) \<longrightarrow> i = j)"

lemma slot_of_Some:
  "slot_of c b = Some i \<Longrightarrow> i < NBUF \<and> b_dev (c i) = ROOTDEV \<and> b_blockno (c i) = b"
  by (auto simp: slot_of_def find_Some_iff)

lemma slot_of_None: "slot_of c b = None \<longleftrightarrow> (\<forall>i<NBUF. \<not> (b_dev (c i) = ROOTDEV \<and> b_blockno (c i) = b))"
  by (auto simp: slot_of_def find_None_iff)

lemma slot_ofI:
  assumes "cache_ok nblk c D" "i < NBUF" "b_dev (c i) = ROOTDEV" "b_blockno (c i) = b"
  shows "slot_of c b = Some i"
proof (cases "slot_of c b")
  case None
  then show ?thesis using assms slot_of_None by blast
next
  case (Some j)
  then show ?thesis using slot_of_Some[OF Some] assms by (auto simp: cache_ok_def)
qed

lemma cache_ok_buf: "cache_ok nblk c D \<Longrightarrow> i < NBUF \<Longrightarrow> buf_ok nblk D (c i)"
  by (simp add: cache_ok_def)

text \<open>
  The one way the operations change the cache: buffer \<open>i\<close>, which holds block \<open>b\<close> or is unused
  while no buffer holds \<open>b\<close>, gets new contents for \<open>b\<close>.
\<close>

lemma cache_put:
  assumes ok: "cache_ok nblk c D" and i: "i < NBUF"
    and sl: "slot_of c b = Some i \<or> slot_of c b = None \<and> b_refcnt (c i) = 0"
    and x: "buf_ok nblk D x" "b_dev x = ROOTDEV" "b_blockno x = b" "b_valid x"
  shows "cache_ok nblk (c(i := x)) D" "slot_of (c(i := x)) b = Some i"
    "cview (c(i := x)) D = (cview c D)(b := b_data x)"
    "crefs (c(i := x)) = (crefs c)(b := unat (b_refcnt x))"
    "cbusy (c(i := x)) = (cbusy c)(b := sl_locked (b_lock x))"
proof -
  let ?c = "c(i := x)"
  have u: "j = i" if "j < NBUF" "b_dev (c j) = ROOTDEV" "b_blockno (c j) = b" for j
    using sl slot_ofI[OF ok that] by auto
  show ok': "cache_ok nblk ?c D"
    unfolding cache_ok_def
  proof (intro conjI allI impI)
    show "buf_ok nblk D (?c j)" if "j < NBUF" for j using x(1) cache_ok_buf[OF ok that] by simp
    show "j = k" if "j < NBUF" "k < NBUF" "b_dev (?c j) = ROOTDEV" "b_dev (?c k) = ROOTDEV"
      "b_blockno (?c j) = b_blockno (?c k)" for j k
    proof (cases "j = i \<or> k = i")
      case True
      then show ?thesis using that x(3) u[of j] u[of k] by (metis fun_upd_apply)
    next
      case False
      then show ?thesis using that slot_ofI[OF ok that(1), of "b_blockno (c j)"] slot_ofI[OF ok that(2), of "b_blockno (c j)"] by simp
    qed
  qed
  show s1: "slot_of ?c b = Some i" by (rule slot_ofI[OF ok' i]) (simp_all add: x)
  have old: "b_refcnt (c i) = 0 \<and> \<not> sl_locked (b_lock (c i)) \<and> cview c D d = D d"
    if "slot_of c d = Some i" "d \<noteq> b" for d
  proof -
    have z: "b_refcnt (c i) = 0" using sl slot_of_Some[OF that(1)] slot_of_Some[of c b i] that(2) by auto
    then show ?thesis using cache_ok_buf[OF ok i] slot_of_Some[OF that(1)] that(1)
      by (auto simp: buf_ok_def cview_def)
  qed
  have other: "slot_of ?c d = (if slot_of c d = Some i then None else slot_of c d)" if "d \<noteq> b" for d
  proof (cases "slot_of c d")
    case None
    then have "slot_of ?c d = None" using that x(3) unfolding slot_of_None by simp
    then show ?thesis using None by simp
  next
    case (Some j)
    show ?thesis
    proof (cases "j = i")
      case True
      then have "slot_of ?c d = None"
        unfolding slot_of_None using Some slot_ofI[OF ok, of _ d] that x(3) by (metis fun_upd_apply option.inject)
      then show ?thesis using Some True by simp
    next
      case False
      have "slot_of ?c d = Some j"
        by (rule slot_ofI[OF ok']) (use slot_of_Some[OF Some] False in auto)
      then show ?thesis using Some False by simp
    qed
  qed
  show "cview ?c D = (cview c D)(b := b_data x)"
    using s1 x(4) other old by (fastforce simp: fun_eq_iff cview_def split: option.splits)
  show "crefs ?c = (crefs c)(b := unat (b_refcnt x))"
    using s1 other old by (fastforce simp: fun_eq_iff crefs_def split: option.splits)
  show "cbusy ?c = (cbusy c)(b := sl_locked (b_lock x))"
    using s1 other old by (fastforce simp: fun_eq_iff cbusy_def split: option.splits)
qed


section \<open>Interface: blocks, references and locks\<close>

text \<open>
  What the clients of the cache see: for every block what a reader gets (\<open>vw\<close>), what is on the
  disk (\<open>dk\<close>), the number of references (\<open>rf\<close>) and whether it is locked (\<open>bz\<close>); and the writes
  so far.
\<close>

record cabs =
  vw :: "u32 \<Rightarrow> byte list"
  dk :: "u32 \<Rightarrow> byte list"
  rf :: "u32 \<Rightarrow> nat"
  bz :: "u32 \<Rightarrow> bool"
  tr :: "(u32 \<times> byte list) list"

definition set_data :: "nat \<Rightarrow> byte list \<Rightarrow> 'd bsys \<Rightarrow> 'd bsys" where
  "set_data i d = upd_buf i (\<lambda>x. x\<lparr>b_data := d\<rparr>)"

definition get_data :: "'d bsys \<Rightarrow> nat \<Rightarrow> byte list" where
  "get_data s i = b_data (bufs s i)"

definition absb :: "nat \<Rightarrow> 'd bsys \<Rightarrow> cabs" where
  "absb nblk s = \<lparr>vw = cview (cores s) (fsd nblk (drv s)), dk = fsd nblk (drv s), rf = crefs (cores s),
     bz = cbusy (cores s), tr = wtrace s\<rparr>"

definition bc_inv :: "nat \<Rightarrow> nat \<Rightarrow> 'd bsys \<Rightarrow> bool" where
  "bc_inv nd nblk s \<longleftrightarrow> (\<exists>xs. lru s xs) \<and> vio_ok nd nblk (drv s) \<and> cache_ok nblk (cores s) (fsd nblk (drv s))"

definition held :: "'d bsys \<Rightarrow> nat \<Rightarrow> u32 \<Rightarrow> bool" where
  "held s i b \<longleftrightarrow> i < NBUF \<and> b_dev (cores s i) = ROOTDEV \<and> b_blockno (cores s i) = b \<and> b_refcnt (cores s i) \<noteq> 0 \<and>
     holdingsleep (cur s) (b_lock (cores s i))"

lemma absb_simps [simp]:
  "vw (absb nblk s) = cview (cores s) (fsd nblk (drv s))" "dk (absb nblk s) = fsd nblk (drv s)"
  "rf (absb nblk s) = crefs (cores s)" "bz (absb nblk s) = cbusy (cores s)" "tr (absb nblk s) = wtrace s"
  by (simp_all add: absb_def)

lemma heldD:
  assumes "bc_inv nd nblk s" "held s i b"
  shows "slot_of (cores s) b = Some i" "buf_ok nblk (fsd nblk (drv s)) (cores s i)" "b_valid (cores s i)"
    "get_data s i = vw (absb nblk s) b" "rf (absb nblk s) b = unat (b_refcnt (bufs s i))" "0 < rf (absb nblk s) b"
    "bz (absb nblk s) b" "length (vw (absb nblk s) b) = BSIZE" "unat b < nblk" "b_blockno (bufs s i) = b"
proof -
  have c: "cache_ok nblk (cores s) (fsd nblk (drv s))" using assms(1) by (simp add: bc_inv_def)
  note h = assms(2)[unfolded held_def]
  show sl: "slot_of (cores s) b = Some i" using slot_ofI[OF c] h by simp
  show ok: "buf_ok nblk (fsd nblk (drv s)) (cores s i)" using cache_ok_buf[OF c] h by simp
  show v: "b_valid (cores s i)" using ok h by (simp add: buf_ok_def)
  show "get_data s i = vw (absb nblk s) b" using sl v by (simp add: cview_def get_data_def) (simp add: cores_def)
  show r: "rf (absb nblk s) b = unat (b_refcnt (bufs s i))" using sl by (simp add: crefs_def) (simp add: cores_def)
  show "0 < rf (absb nblk s) b" unfolding r using h by (simp add: cores_def unat_gt_0)
  show "bz (absb nblk s) b" using sl h by (simp add: cbusy_def holdingsleep_def)
  show "length (vw (absb nblk s) b) = BSIZE" using sl v ok by (simp add: cview_def buf_ok_def)
  show "unat b < nblk" using ok h by (auto simp: buf_ok_def ROOTDEV_def)
  show "b_blockno (bufs s i) = b" using h by (simp add: cores_def)
qed

lemma length_vw:
  assumes "bc_inv nd nblk s" "unat b < nblk"
  shows "length (vw (absb nblk s) b) = BSIZE"
proof -
  have c: "cache_ok nblk (cores s) (fsd nblk (drv s))" and v: "vio_ok nd nblk (drv s)"
    using assms(1) by (simp_all add: bc_inv_def)
  show ?thesis
  proof (cases "slot_of (cores s) b")
    case None
    then show ?thesis using length_fsd[OF v assms(2)] by (simp add: cview_def)
  next
    case (Some i)
    then show ?thesis using length_fsd[OF v assms(2)] cache_ok_buf[OF c, of i] slot_of_Some[OF Some]
      by (simp add: cview_def buf_ok_def)
  qed
qed

lemma cores_upd_buf: "cores (upd_buf i f s) = (cores s)(i := core (f (bufs s i)))"
  by (auto simp: cores_def bufs_upd_buf)

text \<open>A held buffer that gets new fields: the common part of the operations that follow.\<close>

lemma held_update:
  assumes inv: "bc_inv nd nblk s" and h: "held s i b"
    and x: "core (f (bufs s i)) = x" "buf_ok nblk (fsd nblk (drv s)) x" "b_dev x = ROOTDEV" "b_blockno x = b" "b_valid x"
    and f: "linkless f"
  shows "bc_inv nd nblk (upd_buf i f s)"
    "absb nblk (upd_buf i f s) = (absb nblk s)\<lparr>vw := (vw (absb nblk s))(b := b_data x),
       rf := (rf (absb nblk s))(b := unat (b_refcnt x)), bz := (bz (absb nblk s))(b := sl_locked (b_lock x))\<rparr>"
    "j \<noteq> i \<Longrightarrow> held s j c \<Longrightarrow> held (upd_buf i f s) j c"
proof -
  have c: "cache_ok nblk (cores s) (fsd nblk (drv s))" and i: "i < NBUF"
    using inv h by (simp_all add: bc_inv_def held_def)
  note p = cache_put[OF c i disjI1[OF heldD(1)[OF inv h]] x(2-5)]
  show "bc_inv nd nblk (upd_buf i f s)"
    using inv p(1) x(1) linkless_lru[OF f, of i s] by (simp add: bc_inv_def cores_upd_buf)
  show "absb nblk (upd_buf i f s) = (absb nblk s)\<lparr>vw := (vw (absb nblk s))(b := b_data x),
       rf := (rf (absb nblk s))(b := unat (b_refcnt x)), bz := (bz (absb nblk s))(b := sl_locked (b_lock x))\<rparr>"
    unfolding absb_def cores_upd_buf x(1) upd_buf_other p(3-5) by simp
  show "held (upd_buf i f s) j c" if "j \<noteq> i" "held s j c"
    using that by (simp add: held_def cores_upd_buf)
qed

lemma set_data_ok:
  assumes inv: "bc_inv nd nblk s" and h: "held s i b" and d: "length d = BSIZE"
  shows "bc_inv nd nblk (set_data i d s)" "absb nblk (set_data i d s) = (absb nblk s)\<lparr>vw := (vw (absb nblk s))(b := d)\<rparr>"
    "held s j c \<Longrightarrow> held (set_data i d s) j c"
proof -
  note D = heldD[OF inv h]
  let ?x = "core ((bufs s i)\<lparr>b_data := d\<rparr>)"
  have r: "b_refcnt (bufs s i) \<noteq> 0" and dv: "b_dev (bufs s i) = ROOTDEV" using h by (simp_all add: held_def cores_def)
  have ok: "buf_ok nblk (fsd nblk (drv s)) ?x" using D(2,3) d r by (simp add: buf_ok_def cores_def)
  have v: "b_valid ?x" using D(3) by (simp add: cores_def)
  note p = held_update[where f = "\<lambda>x. x\<lparr>b_data := d\<rparr>", OF inv h refl ok]
  have l: "linkless (\<lambda>x. x\<lparr>b_data := d\<rparr>)" by (simp add: linkless_def)
  show "bc_inv nd nblk (set_data i d s)" unfolding set_data_def by (rule p(1)) (use dv D(10) v l in simp_all)
  have "absb nblk (set_data i d s) = (absb nblk s)\<lparr>vw := (vw (absb nblk s))(b := b_data ?x),
       rf := (rf (absb nblk s))(b := unat (b_refcnt ?x)), bz := (bz (absb nblk s))(b := sl_locked (b_lock ?x))\<rparr>"
    unfolding set_data_def by (rule p(2)) (use dv D(10) v l in simp_all)
  moreover have "(rf (absb nblk s))(b := unat (b_refcnt ?x)) = rf (absb nblk s)" using D(5) by (simp add: fun_upd_idem)
  moreover have "(bz (absb nblk s))(b := sl_locked (b_lock ?x)) = bz (absb nblk s)"
    using D(7) h by (simp add: fun_upd_idem held_def holdingsleep_def cores_def)
  ultimately show "absb nblk (set_data i d s) = (absb nblk s)\<lparr>vw := (vw (absb nblk s))(b := d)\<rparr>" by simp
  show "held (set_data i d s) j c" if "held s j c"
    using that by (auto simp: held_def set_data_def cores_upd_buf cores_def)
qed


text \<open>A change of the reference count to \<open>r\<close>, not 0, of a held buffer.\<close>

lemma set_refcnt_ok:
  assumes inv: "bc_inv nd nblk s" and h: "held s i b" and r: "r \<noteq> 0"
  shows "bc_inv nd nblk (upd_buf i (\<lambda>x. x\<lparr>b_refcnt := g x\<rparr>) s) \<or> g (bufs s i) \<noteq> r"
    "g (bufs s i) = r \<Longrightarrow> absb nblk (upd_buf i (\<lambda>x. x\<lparr>b_refcnt := g x\<rparr>) s) = (absb nblk s)\<lparr>rf := (rf (absb nblk s))(b := unat r)\<rparr>"
    "g (bufs s i) = r \<Longrightarrow> held s j c \<Longrightarrow> held (upd_buf i (\<lambda>x. x\<lparr>b_refcnt := g x\<rparr>) s) j c"
proof -
  note D = heldD[OF inv h]
  let ?x = "core ((bufs s i)\<lparr>b_refcnt := r\<rparr>)" and ?f = "\<lambda>x. x\<lparr>b_refcnt := g x\<rparr>"
  have r0: "b_refcnt (bufs s i) \<noteq> 0" and dv: "b_dev (bufs s i) = ROOTDEV" using h by (simp_all add: held_def cores_def)
  have ok: "buf_ok nblk (fsd nblk (drv s)) ?x" using D(2,3) r r0 dv by (auto simp: buf_ok_def cores_def ROOTDEV_def)
  have v: "b_valid ?x" using D(3) by (simp add: cores_def)
  have l: "linkless ?f" by (simp add: linkless_def)
  have e: "core (?f (bufs s i)) = ?x" if "g (bufs s i) = r" using that by (simp add: core_def)
  note p = held_update[where f = ?f and x = ?x, OF inv h _ ok _ _ v l]
  show "bc_inv nd nblk (upd_buf i ?f s) \<or> g (bufs s i) \<noteq> r"
    using p(1)[OF e] dv D(10) by auto
  show "absb nblk (upd_buf i ?f s) = (absb nblk s)\<lparr>rf := (rf (absb nblk s))(b := unat r)\<rparr>" if g: "g (bufs s i) = r"
  proof -
    have "absb nblk (upd_buf i ?f s) = (absb nblk s)\<lparr>vw := (vw (absb nblk s))(b := b_data ?x),
       rf := (rf (absb nblk s))(b := unat (b_refcnt ?x)), bz := (bz (absb nblk s))(b := sl_locked (b_lock ?x))\<rparr>"
      by (rule p(2)) (use e g dv D(10) in simp_all)
    moreover have "(vw (absb nblk s))(b := b_data ?x) = vw (absb nblk s)"
      using D(4) by (simp add: fun_upd_idem get_data_def)
    moreover have "(bz (absb nblk s))(b := sl_locked (b_lock ?x)) = bz (absb nblk s)"
      using D(7) h by (simp add: fun_upd_idem held_def holdingsleep_def cores_def)
    ultimately show ?thesis by simp
  qed
  show "held (upd_buf i ?f s) j c" if "g (bufs s i) = r" "held s j c"
    using that r by (auto simp: held_def cores_upd_buf cores_def)
qed

lemma bpin_ok:
  assumes inv: "bc_inv nd nblk s" and h: "held s i b" and m: "rf (absb nblk s) b < 2 ^ 32 - 1"
  shows "bc_inv nd nblk (bpin i s)"
    "absb nblk (bpin i s) = (absb nblk s)\<lparr>rf := (rf (absb nblk s))(b := rf (absb nblk s) b + 1)\<rparr>"
    "held s j c \<Longrightarrow> held (bpin i s) j c"
proof -
  let ?r = "b_refcnt (bufs s i) + 1"
  have u: "unat ?r = rf (absb nblk s) b + 1"
    using m heldD(5)[OF inv h] by (simp add: unat_word_ariths)
  then have r: "?r \<noteq> 0" by (metis add_is_0 one_neq_zero unat_0)
  note p = set_refcnt_ok[where g = "\<lambda>x. b_refcnt x + 1", OF inv h r]
  show "bc_inv nd nblk (bpin i s)" using p(1) by (simp add: bpin_def)
  show "absb nblk (bpin i s) = (absb nblk s)\<lparr>rf := (rf (absb nblk s))(b := rf (absb nblk s) b + 1)\<rparr>"
    unfolding bpin_def using p(2)[OF refl] u by simp
  show "held (bpin i s) j c" if "held s j c" unfolding bpin_def by (rule p(3)[OF refl that])
qed

lemma bunpin_ok:
  assumes inv: "bc_inv nd nblk s" and h: "held s i b" and m: "1 < rf (absb nblk s) b"
  shows "bc_inv nd nblk (bunpin i s)"
    "absb nblk (bunpin i s) = (absb nblk s)\<lparr>rf := (rf (absb nblk s))(b := rf (absb nblk s) b - 1)\<rparr>"
    "held s j c \<Longrightarrow> held (bunpin i s) j c"
proof -
  let ?r = "b_refcnt (bufs s i) - 1"
  have "b_refcnt (bufs s i) \<noteq> 0" using m heldD(5)[OF inv h] by auto
  then have u: "unat ?r = rf (absb nblk s) b - 1"
    using heldD(5)[OF inv h] by (simp add: unat_minus_one)
  then have r: "?r \<noteq> 0" using m by (metis unat_0 zero_less_diff less_numeral_extra(3))
  note p = set_refcnt_ok[where g = "\<lambda>x. b_refcnt x - 1", OF inv h r]
  show "bc_inv nd nblk (bunpin i s)" using p(1) by (simp add: bunpin_def)
  show "absb nblk (bunpin i s) = (absb nblk s)\<lparr>rf := (rf (absb nblk s))(b := rf (absb nblk s) b - 1)\<rparr>"
    unfolding bunpin_def using p(2)[OF refl] u by simp
  show "held (bunpin i s) j c" if "held s j c" unfolding bunpin_def by (rule p(3)[OF refl that])
qed


lemma cache_disk:
  assumes ok: "cache_ok nblk c D" and sl: "slot_of c b = Some i" and x: "b_refcnt (c i) \<noteq> 0"
  shows "cache_ok nblk c (D(b := b_data (c i)))" "cview c (D(b := b_data (c i))) = cview c D"
proof -
  note S = slot_of_Some[OF sl]
  have "buf_ok nblk (D(b := b_data (c i))) (c j)" if "j < NBUF" for j
  proof (cases "b_dev (c j) = ROOTDEV \<and> b_blockno (c j) = b")
    case True
    then have "j = i" using slot_ofI[OF ok that] sl by simp
    then show ?thesis using cache_ok_buf[OF ok that] x by (simp add: buf_ok_def)
  next
    case False
    then show ?thesis using cache_ok_buf[OF ok that] by (auto simp: buf_ok_def)
  qed
  then show "cache_ok nblk c (D(b := b_data (c i)))" using ok by (simp add: cache_ok_def)
  have "b_valid (c i)" using cache_ok_buf[OF ok, of i] S x by (simp add: buf_ok_def)
  then show "cview c (D(b := b_data (c i))) = cview c D"
    using sl by (auto simp: fun_eq_iff cview_def split: option.splits)
qed

lemma bwrite_ok:
  assumes inv: "bc_inv nd nblk s" and h: "held s i b"
  shows "\<exists>s'. bwrite i s = Inr s' \<and> bc_inv nd nblk s' \<and>
     absb nblk s' = (absb nblk s)\<lparr>dk := (dk (absb nblk s))(b := vw (absb nblk s) b),
                                  tr := tr (absb nblk s) @ [(b, vw (absb nblk s) b)]\<rparr> \<and>
     (\<forall>j c. held s j c \<longrightarrow> held s' j c)"
proof -
  note D = heldD[OF inv h]
  let ?x = "buf.truncate (bufs s i)"
  have x: "b_blockno ?x = b" "b_data ?x = vw (absb nblk s) b" "length (b_data ?x) = BSIZE"
    using D(4,8,10) by (simp_all add: buf.truncate_def get_data_def)
  have ok: "vio_ok nd nblk (drv s)" using inv by (simp add: bc_inv_def)
  obtain v where v: "virtio_disk_rw VIRTIO0_ID ?x True (drv s) = Inr (?x\<lparr>b_disk := False\<rparr>, v)" "vio_ok nd nblk v"
    "fsd nblk v = (fsd nblk (drv s))(b := vw (absb nblk s) b)"
    using disk0_write[OF ok, of ?x] x D(9) by auto
  have bd: "b_data (bufs s i) = vw (absb nblk s) b" using D(4) by (simp add: get_data_def)
  let ?f = "\<lambda>y. y\<lparr>b_disk := False, b_data := vw (absb nblk s) b\<rparr>"
  let ?s = "(upd_buf i ?f s)\<lparr>drv := v, wtrace := wtrace s @ [(b, vw (absb nblk s) b)]\<rparr>"
  have hl: "holdingsleep (cur s) (b_lock (bufs s i))" using h by (simp add: held_def cores_def)
  have run: "bwrite i s = Inr ?s"
    unfolding bwrite_def buf_rw_def v(1) using hl D(10) bd x(2) by simp
  have "core (?f (bufs s i)) = core (bufs s i)"
    unfolding bd[symmetric] by (cases "bufs s i") (simp add: core_def)
  then have c: "cores ?s = cores s" by (auto simp: cores_def upd_buf_def)
  have lf: "linkless ?f" by (simp add: linkless_def)
  have lr: "lru ?s xs = lru s xs" for xs
    using linkless_lru[OF lf, of i s xs] by (simp add: lru_def nexts_def[abs_def] prevs_def[abs_def])
  have co: "cache_ok nblk (cores s) (fsd nblk (drv s))" using inv by (simp add: bc_inv_def)
  have r: "b_refcnt (cores s i) \<noteq> 0" using h by (simp add: held_def)
  have cd: "b_data (cores s i) = vw (absb nblk s) b" using bd by (simp add: cores_def)
  note cw = cache_disk[OF co D(1) r, unfolded cd]
  have "bc_inv nd nblk ?s"
    unfolding bc_inv_def c lr using cw(1) v(2,3) inv by (simp add: bc_inv_def)
  moreover have "absb nblk ?s = (absb nblk s)\<lparr>dk := (dk (absb nblk s))(b := vw (absb nblk s) b),
                                  tr := tr (absb nblk s) @ [(b, vw (absb nblk s) b)]\<rparr>"
    unfolding absb_def[of nblk ?s] c using v(3) cw(2) by (simp add: absb_def)
  moreover have "held ?s j c" if "held s j c" for j c
    using that unfolding held_def c by simp
  ultimately show ?thesis using run by blast
qed

lemma brelse_ok:
  assumes inv: "bc_inv nd nblk s" and h: "held s i b"
    and clean: "rf (absb nblk s) b = 1 \<Longrightarrow> vw (absb nblk s) b = dk (absb nblk s) b"
  shows "\<exists>s'. brelse i s = Inr s' \<and> bc_inv nd nblk s' \<and>
     absb nblk s' = (absb nblk s)\<lparr>rf := (rf (absb nblk s))(b := rf (absb nblk s) b - 1), bz := (bz (absb nblk s))(b := False)\<rparr> \<and>
     (\<forall>j c. j \<noteq> i \<longrightarrow> held s j c \<longrightarrow> held s' j c)"
proof -
  note D = heldD[OF inv h]
  let ?f = "\<lambda>x. x\<lparr>b_lock := releasesleep (b_lock x), b_refcnt := b_refcnt x - 1\<rparr>"
  let ?x = "core (?f (bufs s i))" and ?s = "upd_buf i ?f s"
  have r0: "b_refcnt (bufs s i) \<noteq> 0" and dv: "b_dev (bufs s i) = ROOTDEV" and i: "i < NBUF"
    and hl: "holdingsleep (cur s) (b_lock (bufs s i))"
    using h by (simp_all add: held_def cores_def)
  have u: "unat (b_refcnt (bufs s i) - 1) = rf (absb nblk s) b - 1" using D(5) r0 by (simp add: unat_minus_one)
  have "b_refcnt (bufs s i) - 1 = 0 \<Longrightarrow> b_data (bufs s i) = fsd nblk (drv s) b"
    using clean D(4,5) by (simp add: get_data_def)
  then have ok: "buf_ok nblk (fsd nblk (drv s)) ?x" and v: "b_valid ?x"
    using D(2,3,10) r0 dv by (auto simp: buf_ok_def cores_def releasesleep_def ROOTDEV_def)
  have l: "linkless ?f" by (simp add: linkless_def)
  note p = held_update[where f = ?f and x = ?x, OF inv h refl ok _ _ v l]
  have b: "bc_inv nd nblk ?s" by (rule p(1)) (use dv D(10) in simp_all)
  have "absb nblk ?s = (absb nblk s)\<lparr>vw := (vw (absb nblk s))(b := b_data ?x),
       rf := (rf (absb nblk s))(b := unat (b_refcnt ?x)), bz := (bz (absb nblk s))(b := sl_locked (b_lock ?x))\<rparr>"
    by (rule p(2)) (use dv D(10) in simp_all)
  moreover have "(vw (absb nblk s))(b := b_data ?x) = vw (absb nblk s)"
    using D(4) by (simp add: fun_upd_idem get_data_def)
  ultimately have a: "absb nblk ?s = (absb nblk s)\<lparr>rf := (rf (absb nblk s))(b := rf (absb nblk s) b - 1),
       bz := (bz (absb nblk s))(b := False)\<rparr>" using u by (simp add: releasesleep_def)
  have k: "held ?s j c" if "j \<noteq> i" "held s j c" for j c by (rule p(3)) (use dv D(10) that in simp_all)
  show ?thesis
  proof (cases "b_refcnt (bufs s i) - 1 = 0")
    case False
    then have "brelse i s = Inr ?s" using hl by (simp add: brelse_def Let_def bufs_upd_buf)
    then show ?thesis using a b k by blast
  next
    case True
    then have run: "brelse i s = Inr (move_front i ?s)"
      using hl by (simp add: brelse_def Let_def bufs_upd_buf move_front_def)
    obtain xs where xs: "lru ?s xs" using b by (auto simp: bc_inv_def)
    then have "i \<in> set xs" using i by (simp add: lru_def)
    then obtain ys zs where "xs = ys @ i # zs" by (auto simp: in_set_conv_decomp)
    then have lr: "lru (move_front i ?s) (i # ys @ zs)" using xs move_front_lru by blast
    have m: "cores (move_front i ?s) = cores ?s" "drv (move_front i ?s) = drv ?s" "wtrace (move_front i ?s) = wtrace ?s"
      "cur (move_front i ?s) = cur ?s"
      by (simp_all add: move_front_def Let_def) (simp_all add: set_next_def set_prev_def)
    have "bc_inv nd nblk (move_front i ?s)" using b lr m(1,2) by (auto simp: bc_inv_def)
    moreover have "absb nblk (move_front i ?s) = absb nblk ?s" unfolding absb_def m(1,2,3) ..
    moreover have "held (move_front i ?s) j c" if "j \<noteq> i" "held s j c" for j c
      using k[OF that] unfolding held_def m(1,4) .
    ultimately show ?thesis using run a by auto
  qed
qed


lemma unused_buffer:
  assumes "cache_ok nblk c D" "card {b. 0 < crefs c b} < NBUF"
  shows "\<exists>i<NBUF. b_refcnt (c i) = 0"
proof (rule ccontr)
  assume "\<not> ?thesis"
  then have a: "b_refcnt (c i) \<noteq> 0" if "i < NBUF" for i using that by blast
  then have d: "b_dev (c i) = ROOTDEV" if "i < NBUF" for i
    using that cache_ok_buf[OF assms(1) that] by (auto simp: buf_ok_def)
  have sl: "slot_of c (b_blockno (c i)) = Some i" if "i < NBUF" for i using slot_ofI[OF assms(1) that d[OF that]] by simp
  have "inj_on (\<lambda>i. b_blockno (c i)) {0..<NBUF}" using sl by (metis (no_types, lifting) atLeastLessThan_iff inj_onI option.inject)
  moreover have "(\<lambda>i. b_blockno (c i)) ` {0..<NBUF} \<subseteq> {b. 0 < crefs c b}"
    using sl a by (auto simp: crefs_def unat_gt_0)
  ultimately have "card {0..<NBUF} \<le> card {b. 0 < crefs c b}" by (intro card_inj_on_le) auto
  then show False using assms(2) by simp
qed

lemma bget_ok:
  fixes s :: "'d bsys"
  assumes inv: "bc_inv nd nblk s" and b: "unat b < nblk" and nb: "\<not> cbusy (cores s) b"
    and m: "crefs (cores s) b < 2 ^ 32 - 1" and r: "0 < crefs (cores s) b \<or> card {b. 0 < crefs (cores s) b} < NBUF"
  shows "\<exists>i s1 x. bget ROOTDEV b s = Inr (i, s1) \<and> i < NBUF \<and>
     (slot_of (cores s) b = Some i \<or> slot_of (cores s) b = None \<and> b_refcnt (cores s i) = 0) \<and>
     bufs s1 = (bufs s)(i := x) \<and> drv s1 = drv s \<and> cur s1 = cur s \<and> wtrace s1 = wtrace s \<and>
     b_next x = b_next (bufs s i) \<and> b_prev x = b_prev (bufs s i) \<and>
     b_dev x = ROOTDEV \<and> b_blockno x = b \<and> holdingsleep (cur s) (b_lock x) \<and> unat (b_refcnt x) = crefs (cores s) b + 1 \<and>
     length (b_data x) = BSIZE \<and>
     cview (cores s) (fsd nblk (drv s)) b = (if b_valid x then b_data x else fsd nblk (drv s) b)"
proof -
  have ok: "cache_ok nblk (cores s) (fsd nblk (drv s))" using inv by (simp add: bc_inv_def)
  obtain xs where xs: "lru s xs" using inv by (auto simp: bc_inv_def)
  note sc = lru_scans[OF xs]
  have core: "b_dev (cores s i) = b_dev (bufs s i)" "b_blockno (cores s i) = b_blockno (bufs s i)"
    "b_refcnt (cores s i) = b_refcnt (bufs s i)" "b_lock (cores s i) = b_lock (bufs s i)"
    "b_data (cores s i) = b_data (bufs s i)" "b_valid (cores s i) = b_valid (bufs s i)" for i
    by (simp_all add: cores_def)
  show ?thesis
  proof (cases "slot_of (cores s) b")
    case (Some i)
    note S = slot_of_Some[OF Some, unfolded core]
    have f: "find (\<lambda>i. b_dev (bufs s i) = ROOTDEV \<and> b_blockno (bufs s i) = b) xs = Some i"
    proof (cases "find (\<lambda>i. b_dev (bufs s i) = ROOTDEV \<and> b_blockno (bufs s i) = b) xs")
      case None
      then show ?thesis using S xs by (auto simp: find_None_iff lru_def)
    next
      case (Some j)
      then have "j \<in> set xs" "b_dev (bufs s j) = ROOTDEV \<and> b_blockno (bufs s j) = b" by (auto simp: find_Some_iff)
      then have "slot_of (cores s) b = Some j" using xs slot_ofI[OF ok, of j b] by (auto simp: lru_def core)
      then show ?thesis using Some \<open>slot_of (cores s) b = Some i\<close> by simp
    qed
    have nl: "\<not> sl_locked (b_lock (bufs s i))" using nb Some by (simp add: cbusy_def core)
    have cr: "crefs (cores s) b = unat (b_refcnt (bufs s i))" using Some by (simp add: crefs_def core)
    let ?x = "(bufs s i)\<lparr>b_refcnt := b_refcnt (bufs s i) + 1, b_lock := (b_lock (bufs s i))\<lparr>sl_locked := True, sl_pid := cur s\<rparr>\<rparr>"
    have run: "bget ROOTDEV b s = Inr (i, s\<lparr>bufs := (bufs s)(i := ?x)\<rparr>)"
      unfolding bget_def sc f using nl by (simp add: lock_buf_def acquiresleep_def upd_buf_def)
    have "length (b_data (bufs s i)) = BSIZE" using cache_ok_buf[OF ok, of i] S by (simp add: buf_ok_def core)
    then show ?thesis
      by (intro exI[of _ i] exI[of _ "s\<lparr>bufs := (bufs s)(i := ?x)\<rparr>"] exI[of _ ?x])
        (use run S Some cr m in \<open>simp add: holdingsleep_def unat_word_ariths cview_def core\<close>)
  next
    case None
    then have f: "find (\<lambda>i. b_dev (bufs s i) = ROOTDEV \<and> b_blockno (bufs s i) = b) xs = None"
      using xs by (auto simp: slot_of_None find_None_iff lru_def core)
    have cr: "crefs (cores s) b = 0" using None by (simp add: crefs_def)
    then obtain k where "k < NBUF" "b_refcnt (bufs s k) = 0"
      using unused_buffer[OF ok] r by (auto simp: core)
    then have "find (\<lambda>i. b_refcnt (bufs s i) = 0) (rev xs) \<noteq> None" using xs by (auto simp: find_None_iff lru_def)
    then obtain i where i: "find (\<lambda>i. b_refcnt (bufs s i) = 0) (rev xs) = Some i" by blast
    then have "i \<in> set (rev xs)" "b_refcnt (bufs s i) = 0" by (auto simp: find_Some_iff) (metis length_rev nth_mem set_rev)
    then have I: "i < NBUF" "b_refcnt (bufs s i) = 0" using xs by (auto simp: lru_def)
    have io: "buf_ok nblk (fsd nblk (drv s)) (cores s i)" by (rule cache_ok_buf[OF ok I(1)])
    let ?x = "(bufs s i)\<lparr>b_dev := ROOTDEV, b_blockno := b, b_valid := False, b_refcnt := 1,
        b_lock := (b_lock (bufs s i))\<lparr>sl_locked := True, sl_pid := cur s\<rparr>\<rparr>"
    have run: "bget ROOTDEV b s = Inr (i, s\<lparr>bufs := (bufs s)(i := ?x)\<rparr>)"
      unfolding bget_def sc f rbind_Inr option.case i
      using io I by (simp add: lock_buf_def acquiresleep_def upd_buf_def buf_ok_def core)
    show ?thesis
      by (intro exI[of _ i] exI[of _ "s\<lparr>bufs := (bufs s)(i := ?x)\<rparr>"] exI[of _ ?x])
        (use run None I cr io in \<open>simp add: holdingsleep_def cview_def core buf_ok_def\<close>)
  qed
qed

lemma bread_ok:
  fixes s :: "'d bsys"
  assumes inv: "bc_inv nd nblk s" and b: "unat b < nblk" and nb: "\<not> bz (absb nblk s) b"
    and m: "rf (absb nblk s) b < 2 ^ 32 - 1" and r: "0 < rf (absb nblk s) b \<or> card {b. 0 < rf (absb nblk s) b} < NBUF"
  shows "\<exists>i s'. bread ROOTDEV b s = Inr (i, s') \<and> bc_inv nd nblk s' \<and> held s' i b \<and>
     absb nblk s' = (absb nblk s)\<lparr>rf := (rf (absb nblk s))(b := rf (absb nblk s) b + 1), bz := (bz (absb nblk s))(b := True)\<rparr> \<and>
     (\<forall>j c. held s j c \<longrightarrow> j \<noteq> i \<and> held s' j c)"
proof -
  obtain i s1 x where g: "bget ROOTDEV b s = Inr (i, s1)" "i < NBUF"
    "slot_of (cores s) b = Some i \<or> slot_of (cores s) b = None \<and> b_refcnt (cores s i) = 0"
    "bufs s1 = (bufs s)(i := x)" "drv s1 = drv s" "cur s1 = cur s" "wtrace s1 = wtrace s"
    "b_next x = b_next (bufs s i)" "b_prev x = b_prev (bufs s i)"
    "b_dev x = ROOTDEV" "b_blockno x = b" "holdingsleep (cur s) (b_lock x)" "unat (b_refcnt x) = crefs (cores s) b + 1"
    "length (b_data x) = BSIZE"
    "cview (cores s) (fsd nblk (drv s)) b = (if b_valid x then b_data x else fsd nblk (drv s) b)"
    using bget_ok[OF inv b] nb m r by (auto simp only: absb_simps)
  have ok: "cache_ok nblk (cores s) (fsd nblk (drv s))" and vok: "vio_ok nd nblk (drv s)"
    using inv by (simp_all add: bc_inv_def)
  have rx: "b_refcnt x \<noteq> 0" using g(13) by (metis add_is_0 one_neq_zero unat_0)
  obtain s2 where s2: "bread ROOTDEV b s = Inr (i, s2)" "vio_ok nd nblk (drv s2)" "fsd nblk (drv s2) = fsd nblk (drv s)"
    "bufs s2 = (bufs s)(i := x\<lparr>b_disk := b_disk (bufs s2 i), b_data := cview (cores s) (fsd nblk (drv s)) b, b_valid := True\<rparr>)"
    "cur s2 = cur s" "wtrace s2 = wtrace s"
  proof (cases "b_valid x")
    case True
    show ?thesis
      by (rule that[of s1]) (use g True vok in \<open>auto simp: bread_def\<close>)
  next
    case False
    let ?t = "buf.truncate x"
    obtain v where v: "virtio_disk_rw VIRTIO0_ID ?t False (drv s) = Inr (?t\<lparr>b_disk := False, b_data := fsd nblk (drv s) b\<rparr>, v)"
      "vio_ok nd nblk v" "fsd nblk v = fsd nblk (drv s)"
      using disk0_read[OF vok, of ?t] b g(11,14) by (auto simp: buf.truncate_def)
    let ?s2 = "s1\<lparr>bufs := (bufs s)(i := x\<lparr>b_disk := False, b_data := fsd nblk (drv s) b, b_valid := True\<rparr>), drv := v\<rparr>"
    have "bread ROOTDEV b s = Inr (i, ?s2)"
      using False g(1,4,5) v(1) by (simp add: bread_def buf_rw_def upd_buf_def)
    then show ?thesis
      by (rule that) (use v g False in \<open>simp_all\<close>)
  qed
  let ?x = "core (bufs s2 i)"
  have bx: "bufs s2 i = x\<lparr>b_disk := b_disk (bufs s2 i), b_data := cview (cores s) (fsd nblk (drv s)) b, b_valid := True\<rparr>"
    using fun_cong[OF s2(4), of i] by simp
  have oth: "bufs s2 j = bufs s j" if "j \<noteq> i" for j using fun_cong[OF s2(4), of j] that by simp
  have xf: "b_dev ?x = ROOTDEV" "b_blockno ?x = b" "b_valid ?x" "b_refcnt ?x = b_refcnt x" "b_lock ?x = b_lock x"
    "b_data ?x = cview (cores s) (fsd nblk (drv s)) b"
    using g(10,11) by (subst bx; simp)+
  have len: "length (cview (cores s) (fsd nblk (drv s)) b) = BSIZE"
    unfolding g(15) using g(14) length_fsd[OF vok b] by simp
  have bo: "buf_ok nblk (fsd nblk (drv s)) ?x" unfolding buf_ok_def xf(1,2,4-6) using len b rx xf(3) by simp
  have cs: "cores s2 = (cores s)(i := ?x)" using oth by (simp add: cores_def fun_eq_iff)
  note p = cache_put[OF ok g(2,3) bo xf(1-3)]
  have "b_next (bufs s2 i) = b_next (bufs s i)" "b_prev (bufs s2 i) = b_prev (bufs s i)"
    using g(8,9) by (subst bx; simp)+
  then have "nexts s2 j = nexts s j" "prevs s2 j = prevs s j" for j
    using oth[of j] by (cases "j = i"; simp add: nexts_def prevs_def)+
  then have nx: "nexts s2 = nexts s" "prevs s2 = prevs s" by auto
  have "bc_inv nd nblk s2"
    using inv p(1) s2(2,3) lru_cong[OF nx] by (simp add: bc_inv_def cs)
  moreover have "held s2 i b" using g(2,12) rx xf s2(5) by (simp add: held_def cs)
  moreover have "absb nblk s2 = (absb nblk s)\<lparr>rf := (rf (absb nblk s))(b := rf (absb nblk s) b + 1), bz := (bz (absb nblk s))(b := True)\<rparr>"
    unfolding absb_def[of nblk s2] s2(3,6) cs p(3-5) xf(4-6) g(13) using g(12)
    by (simp add: absb_def holdingsleep_def fun_upd_idem)
  moreover have "j \<noteq> i \<and> held s2 j c" if h: "held s j c" for j c
  proof -
    have "c \<noteq> b" using heldD(7)[OF inv h] nb by auto
    then have "j \<noteq> i" using g(3) slot_of_Some[of "cores s" b i] h by (auto simp: held_def)
    then show ?thesis using h s2(5) by (simp add: held_def cs)
  qed
  ultimately show ?thesis using s2(1) by blast
qed


text \<open>
  The contract of the buffer cache towards the log and the file system.  A block can be read when
  it is not locked and there is a buffer for it; a buffer may be released when it is pinned by
  another reference or its contents are on the disk.
\<close>

locale buffer_cache =
  fixes inv :: "'s \<Rightarrow> bool"
    and A :: "'s \<Rightarrow> cabs"
    and hd :: "'s \<Rightarrow> nat \<Rightarrow> u32 \<Rightarrow> bool"
    and get :: "'s \<Rightarrow> nat \<Rightarrow> byte list"
    and put :: "nat \<Rightarrow> byte list \<Rightarrow> 's \<Rightarrow> 's"
    and rd :: "u32 \<Rightarrow> 's \<Rightarrow> (nat \<times> 's) result"
    and wr rel :: "nat \<Rightarrow> 's \<Rightarrow> 's result"
    and pin unpin :: "nat \<Rightarrow> 's \<Rightarrow> 's"
    and nblk cap :: nat
  assumes rd_ok: "inv s \<Longrightarrow> unat b < nblk \<Longrightarrow> \<not> bz (A s) b \<Longrightarrow> rf (A s) b < 2 ^ 32 - 1 \<Longrightarrow>
       0 < rf (A s) b \<or> card {b. 0 < rf (A s) b} < cap \<Longrightarrow>
       \<exists>i s'. rd b s = Inr (i, s') \<and> inv s' \<and> hd s' i b \<and>
         A s' = (A s)\<lparr>rf := (rf (A s))(b := rf (A s) b + 1), bz := (bz (A s))(b := True)\<rparr> \<and>
         (\<forall>j c. hd s j c \<longrightarrow> j \<noteq> i \<and> hd s' j c)"
    and wr_ok: "inv s \<Longrightarrow> hd s i b \<Longrightarrow>
       \<exists>s'. wr i s = Inr s' \<and> inv s' \<and>
         A s' = (A s)\<lparr>dk := (dk (A s))(b := vw (A s) b), tr := tr (A s) @ [(b, vw (A s) b)]\<rparr> \<and>
         (\<forall>j c. hd s j c \<longrightarrow> hd s' j c)"
    and rel_ok: "inv s \<Longrightarrow> hd s i b \<Longrightarrow> (rf (A s) b = 1 \<Longrightarrow> vw (A s) b = dk (A s) b) \<Longrightarrow>
       \<exists>s'. rel i s = Inr s' \<and> inv s' \<and>
         A s' = (A s)\<lparr>rf := (rf (A s))(b := rf (A s) b - 1), bz := (bz (A s))(b := False)\<rparr> \<and>
         (\<forall>j c. j \<noteq> i \<longrightarrow> hd s j c \<longrightarrow> hd s' j c)"
    and put_ok: "inv s \<Longrightarrow> hd s i b \<Longrightarrow> length d = BSIZE \<Longrightarrow>
       inv (put i d s) \<and> A (put i d s) = (A s)\<lparr>vw := (vw (A s))(b := d)\<rparr> \<and> (\<forall>j c. hd s j c \<longrightarrow> hd (put i d s) j c)"
    and pin_ok: "inv s \<Longrightarrow> hd s i b \<Longrightarrow> rf (A s) b < 2 ^ 32 - 1 \<Longrightarrow>
       inv (pin i s) \<and> A (pin i s) = (A s)\<lparr>rf := (rf (A s))(b := rf (A s) b + 1)\<rparr> \<and> (\<forall>j c. hd s j c \<longrightarrow> hd (pin i s) j c)"
    and unpin_ok: "inv s \<Longrightarrow> hd s i b \<Longrightarrow> 1 < rf (A s) b \<Longrightarrow>
       inv (unpin i s) \<and> A (unpin i s) = (A s)\<lparr>rf := (rf (A s))(b := rf (A s) b - 1)\<rparr> \<and> (\<forall>j c. hd s j c \<longrightarrow> hd (unpin i s) j c)"
    and hd_facts: "inv s \<Longrightarrow> hd s i b \<Longrightarrow> get s i = vw (A s) b \<and> length (vw (A s) b) = BSIZE \<and> 0 < rf (A s) b \<and>
       bz (A s) b \<and> unat b < nblk"
begin

text \<open>Reading a block that nothing is changed in.\<close>

lemma read_block:
  assumes "inv s" "unat b < nblk" "\<not> bz (A s) b" "rf (A s) b < 2 ^ 32 - 1"
    "0 < rf (A s) b \<or> card {b. 0 < rf (A s) b} < cap \<and> vw (A s) b = dk (A s) b"
  shows "\<exists>i s1 s2. rd b s = Inr (i, s1) \<and> get s1 i = vw (A s) b \<and> rel i s1 = Inr s2 \<and> inv s2 \<and> A s2 = A s \<and>
    (\<forall>j c. hd s j c \<longrightarrow> hd s2 j c)"
proof -
  have r: "0 < rf (A s) b \<or> card {b. 0 < rf (A s) b} < cap" using assms(5) by blast
  obtain i s1 where s1: "rd b s = Inr (i, s1)" "inv s1" "hd s1 i b"
    "A s1 = (A s)\<lparr>rf := (rf (A s))(b := rf (A s) b + 1), bz := (bz (A s))(b := True)\<rparr>"
    "\<forall>j c. hd s j c \<longrightarrow> j \<noteq> i \<and> hd s1 j c"
    using rd_ok[OF assms(1-4) r] by blast
  have c: "vw (A s1) b = dk (A s1) b" if "rf (A s1) b = 1" using s1(4) that assms(5) by simp
  obtain s2 where s2: "rel i s1 = Inr s2" "inv s2"
    "A s2 = (A s1)\<lparr>rf := (rf (A s1))(b := rf (A s1) b - 1), bz := (bz (A s1))(b := False)\<rparr>"
    "\<forall>j c. j \<noteq> i \<longrightarrow> hd s1 j c \<longrightarrow> hd s2 j c"
    using rel_ok[OF s1(2,3) c] by blast
  have "A s2 = A s" unfolding s2(3) s1(4) using assms(3) by (simp add: fun_upd_idem)
  then show ?thesis using s1(1,2,3,4,5) s2(1,2,4) hd_facts[OF s1(2,3)] by (intro exI[of _ i] exI[of _ s1] exI[of _ s2]) simp
qed

text \<open>Two different blocks at the same time.\<close>

lemma read_two:
  assumes inv: "inv s" and ab: "a \<noteq> b" "unat a < nblk" "unat b < nblk" and nb: "\<not> bz (A s) a" "\<not> bz (A s) b"
    and small: "rf (A s) a < 2 ^ 32 - 1" "rf (A s) b < 2 ^ 32 - 1"
    and room: "card ({a, b} \<union> {b. 0 < rf (A s) b}) \<le> cap"
  shows "\<exists>i s1 j s2. rd a s = Inr (i, s1) \<and> rd b s1 = Inr (j, s2) \<and> i \<noteq> j \<and> inv s2 \<and> hd s2 i a \<and> hd s2 j b \<and>
     A s2 = (A s)\<lparr>rf := (rf (A s))(a := rf (A s) a + 1, b := rf (A s) b + 1), bz := (bz (A s))(a := True, b := True)\<rparr>"
proof -
  let ?R = "{b. 0 < rf (A s) b}"
  have fin: "finite X" for X :: "u32 set" by simp
  have r1: "0 < rf (A s) a \<or> card ?R < cap"
  proof (cases "a \<in> ?R")
    case False
    have "card (insert a ?R) \<le> card ({a, b} \<union> ?R)" by (intro card_mono) auto
    then show ?thesis using room False by simp
  qed simp
  obtain i s1 where s1: "rd a s = Inr (i, s1)" "inv s1" "hd s1 i a"
    "A s1 = (A s)\<lparr>rf := (rf (A s))(a := rf (A s) a + 1), bz := (bz (A s))(a := True)\<rparr>"
    using rd_ok[OF inv ab(2) nb(1) small(1) r1] by blast
  have r2: "0 < rf (A s1) b \<or> card {b. 0 < rf (A s1) b} < cap"
  proof (cases "b \<in> ?R")
    case True
    then show ?thesis using s1(4) by simp
  next
    case False
    have e: "{b. 0 < rf (A s1) b} = insert a ?R" unfolding s1(4) by auto
    have "card (insert b (insert a ?R)) \<le> cap" using room by (simp add: insert_commute)
    then show ?thesis unfolding e using False ab(1) by simp
  qed
  have b1: "\<not> bz (A s1) b" "rf (A s1) b < 2 ^ 32 - 1" using nb(2) small(2) ab(1) s1(4) by simp_all
  obtain j s2 where s2: "rd b s1 = Inr (j, s2)" "inv s2" "hd s2 j b"
    "A s2 = (A s1)\<lparr>rf := (rf (A s1))(b := rf (A s1) b + 1), bz := (bz (A s1))(b := True)\<rparr>"
    "\<forall>k c. hd s1 k c \<longrightarrow> k \<noteq> j \<and> hd s2 k c"
    using rd_ok[OF s1(2) ab(3) b1 r2] by blast
  have "A s2 = (A s)\<lparr>rf := (rf (A s))(a := rf (A s) a + 1, b := rf (A s) b + 1), bz := (bz (A s))(a := True, b := True)\<rparr>"
    unfolding s2(4) s1(4) using ab(1) by simp
  then show ?thesis using s1 s2 by blast
qed

text \<open>Block \<open>a\<close> is overwritten with \<open>b\<close>, written out, and both are released: one step of \<^verbatim>\<open>write_log\<close>.\<close>

lemma copy_to:
  assumes inv: "inv s" and ab: "a \<noteq> b" "unat a < nblk" "unat b < nblk" and nb: "\<not> bz (A s) a" "\<not> bz (A s) b"
    and small: "rf (A s) a < 2 ^ 32 - 1" "rf (A s) b < 2 ^ 32 - 1"
    and cb: "0 < rf (A s) b \<or> vw (A s) b = dk (A s) b"
    and room: "card ({a, b} \<union> {b. 0 < rf (A s) b}) \<le> cap"
  shows "\<exists>s'. rbind (rd a s) (\<lambda>(i, s1). rbind (rd b s1) (\<lambda>(j, s2).
            rbind (wr i (put i (get s2 j) s2)) (\<lambda>s3. rbind (rel j s3) (rel i)))) = Inr s' \<and> inv s' \<and>
     A s' = (A s)\<lparr>vw := (vw (A s))(a := vw (A s) b), dk := (dk (A s))(a := vw (A s) b), tr := tr (A s) @ [(a, vw (A s) b)]\<rparr>"
proof -
  obtain i s1 j s2 where r: "rd a s = Inr (i, s1)" "rd b s1 = Inr (j, s2)" "i \<noteq> j" "inv s2" "hd s2 i a" "hd s2 j b"
    "A s2 = (A s)\<lparr>rf := (rf (A s))(a := rf (A s) a + 1, b := rf (A s) b + 1), bz := (bz (A s))(a := True, b := True)\<rparr>"
    using read_two[OF inv ab nb small room] by blast
  have g: "get s2 j = vw (A s) b" "length (vw (A s) b) = BSIZE" using hd_facts[OF r(4,6)] r(7) by simp_all
  let ?p = "put i (get s2 j) s2"
  have p: "inv ?p" "A ?p = (A s2)\<lparr>vw := (vw (A s2))(a := vw (A s) b)\<rparr>" "hd ?p i a" "hd ?p j b"
    using put_ok[OF r(4,5), of "get s2 j"] g r(5,6) by simp_all
  obtain s3 where s3: "wr i ?p = Inr s3" "inv s3"
    "A s3 = (A ?p)\<lparr>dk := (dk (A ?p))(a := vw (A ?p) a), tr := tr (A ?p) @ [(a, vw (A ?p) a)]\<rparr>" "hd s3 i a" "hd s3 j b"
    using wr_ok[OF p(1,3)] p(3,4) by blast
  have cl: "vw (A s3) b = dk (A s3) b" if "rf (A s3) b = 1"
    using that cb ab(1) unfolding s3(3) p(2) r(7) by simp
  obtain s4 where s4: "rel j s3 = Inr s4" "inv s4"
    "A s4 = (A s3)\<lparr>rf := (rf (A s3))(b := rf (A s3) b - 1), bz := (bz (A s3))(b := False)\<rparr>" "hd s4 i a"
    using rel_ok[OF s3(2,5) cl] s3(4) r(3) by blast
  have cl2: "vw (A s4) a = dk (A s4) a" unfolding s4(3) s3(3) p(2) by simp
  obtain s5 where s5: "rel i s4 = Inr s5" "inv s5"
    "A s5 = (A s4)\<lparr>rf := (rf (A s4))(a := rf (A s4) a - 1), bz := (bz (A s4))(a := False)\<rparr>"
    using rel_ok[OF s4(2,4) cl2] by blast
  have run: "rbind (rd a s) (\<lambda>(i, s1). rbind (rd b s1) (\<lambda>(j, s2).
            rbind (wr i (put i (get s2 j) s2)) (\<lambda>s3. rbind (rel j s3) (rel i)))) = Inr s5"
    using r(1,2) s3(1) s4(1) s5(1) by simp
  have "A s5 = (A s)\<lparr>vw := (vw (A s))(a := vw (A s) b), dk := (dk (A s))(a := vw (A s) b), tr := tr (A s) @ [(a, vw (A s) b)]\<rparr>"
    unfolding s5(3) s4(3) s3(3) p(2) r(7) using ab(1) nb by (simp add: fun_upd_twist fun_upd_idem)
  then show ?thesis using run s5(2) by blast
qed

text \<open>
  Block \<open>b\<close> is overwritten with \<open>a\<close>, written out, unpinned when \<open>u\<close> is set, and both are released:
  one step of \<^verbatim>\<open>install_trans\<close>.
\<close>

lemma copy_from:
  assumes inv: "inv s" and ab: "a \<noteq> b" "unat a < nblk" "unat b < nblk" and nb: "\<not> bz (A s) a" "\<not> bz (A s) b"
    and small: "rf (A s) a < 2 ^ 32 - 1" "rf (A s) b < 2 ^ 32 - 1" and u: "u \<Longrightarrow> 0 < rf (A s) b"
    and ca: "0 < rf (A s) a \<or> vw (A s) a = dk (A s) a"
    and room: "card ({a, b} \<union> {b. 0 < rf (A s) b}) \<le> cap"
  shows "\<exists>s'. rbind (rd a s) (\<lambda>(i, s1). rbind (rd b s1) (\<lambda>(j, s2).
            rbind (wr j (put j (get s2 i) s2)) (\<lambda>s3. rbind (rel i (if u then unpin j s3 else s3)) (rel j)))) = Inr s' \<and> inv s' \<and>
     A s' = (A s)\<lparr>vw := (vw (A s))(b := vw (A s) a), dk := (dk (A s))(b := vw (A s) a),
        rf := (rf (A s))(b := if u then rf (A s) b - 1 else rf (A s) b), tr := tr (A s) @ [(b, vw (A s) a)]\<rparr>"
proof -
  obtain i s1 j s2 where r: "rd a s = Inr (i, s1)" "rd b s1 = Inr (j, s2)" "i \<noteq> j" "inv s2" "hd s2 i a" "hd s2 j b"
    "A s2 = (A s)\<lparr>rf := (rf (A s))(a := rf (A s) a + 1, b := rf (A s) b + 1), bz := (bz (A s))(a := True, b := True)\<rparr>"
    using read_two[OF inv ab nb small room] by blast
  have g: "get s2 i = vw (A s) a" "length (vw (A s) a) = BSIZE" using hd_facts[OF r(4,5)] r(7) by simp_all
  let ?p = "put j (get s2 i) s2"
  have p: "inv ?p" "A ?p = (A s2)\<lparr>vw := (vw (A s2))(b := vw (A s) a)\<rparr>" "hd ?p i a" "hd ?p j b"
    using put_ok[OF r(4,6), of "get s2 i"] g r(5,6) by simp_all
  obtain s3 where s3: "wr j ?p = Inr s3" "inv s3"
    "A s3 = (A ?p)\<lparr>dk := (dk (A ?p))(b := vw (A ?p) b), tr := tr (A ?p) @ [(b, vw (A ?p) b)]\<rparr>" "hd s3 i a" "hd s3 j b"
    using wr_ok[OF p(1,4)] p(3,4) by blast
  define t where "t = (if u then unpin j s3 else s3)"
  have rb: "rf (A s3) b = rf (A s) b + 1" unfolding s3(3) p(2) r(7) by simp
  have us: "inv t" "A t = (A s3)\<lparr>rf := (rf (A s3))(b := if u then rf (A s3) b - 1 else rf (A s3) b)\<rparr>" "hd t i a" "hd t j b"
  proof -
    have un: "inv (unpin j s3) \<and> A (unpin j s3) = (A s3)\<lparr>rf := (rf (A s3))(b := rf (A s3) b - 1)\<rparr> \<and>
        (\<forall>k c. hd s3 k c \<longrightarrow> hd (unpin j s3) k c)" if u
      by (rule unpin_ok[OF s3(2,5)]) (use u[OF that] rb in simp)
    show "inv t" "A t = (A s3)\<lparr>rf := (rf (A s3))(b := if u then rf (A s3) b - 1 else rf (A s3) b)\<rparr>" "hd t i a" "hd t j b"
      unfolding t_def using un s3(2,4,5) by (cases u; simp)+
  qed
  have cl: "vw (A t) a = dk (A t) a" if "rf (A t) a = 1"
    using that ca ab(1) unfolding us(2) s3(3) p(2) r(7) by simp
  obtain s4 where s4: "rel i t = Inr s4" "inv s4"
    "A s4 = (A t)\<lparr>rf := (rf (A t))(a := rf (A t) a - 1), bz := (bz (A t))(a := False)\<rparr>" "hd s4 j b"
    using rel_ok[OF us(1,3) cl] us(4) r(3)[symmetric] by blast
  have cl2: "vw (A s4) b = dk (A s4) b" unfolding s4(3) us(2) s3(3) p(2) by simp
  obtain s5 where s5: "rel j s4 = Inr s5" "inv s5"
    "A s5 = (A s4)\<lparr>rf := (rf (A s4))(b := rf (A s4) b - 1), bz := (bz (A s4))(b := False)\<rparr>"
    using rel_ok[OF s4(2,4) cl2] by blast
  have run: "rbind (rd a s) (\<lambda>(i, s1). rbind (rd b s1) (\<lambda>(j, s2).
            rbind (wr j (put j (get s2 i) s2)) (\<lambda>s3. rbind (rel i (if u then unpin j s3 else s3)) (rel j)))) = Inr s5"
    using r(1,2) s3(1) s4(1) s5(1) by (simp add: t_def)
  have "A s5 = (A s)\<lparr>vw := (vw (A s))(b := vw (A s) a), dk := (dk (A s))(b := vw (A s) a),
        rf := (rf (A s))(b := if u then rf (A s) b - 1 else rf (A s) b), tr := tr (A s) @ [(b, vw (A s) a)]\<rparr>"
    unfolding s5(3) s4(3) us(2) s3(3) p(2) r(7) using ab(1) nb by (simp add: fun_upd_twist fun_upd_idem)
  then show ?thesis using run s5(2) by blast
qed

text \<open>A block is changed by \<open>f\<close> and written out.\<close>

lemma modify_write:
  assumes inv: "inv s" and b: "unat b < nblk" "\<not> bz (A s) b" "rf (A s) b < 2 ^ 32 - 1"
    and room: "0 < rf (A s) b \<or> card {b. 0 < rf (A s) b} < cap" and f: "\<And>d. length d = BSIZE \<Longrightarrow> length (f d) = BSIZE"
  shows "\<exists>s'. rbind (rd b s) (\<lambda>(i, s1). rbind (wr i (put i (f (get s1 i)) s1)) (rel i)) = Inr s' \<and> inv s' \<and>
     length (vw (A s) b) = BSIZE \<and>
     A s' = (A s)\<lparr>vw := (vw (A s))(b := f (vw (A s) b)), dk := (dk (A s))(b := f (vw (A s) b)), tr := tr (A s) @ [(b, f (vw (A s) b))]\<rparr>"
proof -
  obtain i s1 where r: "rd b s = Inr (i, s1)" "inv s1" "hd s1 i b"
    "A s1 = (A s)\<lparr>rf := (rf (A s))(b := rf (A s) b + 1), bz := (bz (A s))(b := True)\<rparr>"
    using rd_ok[OF inv b room] by blast
  have g: "get s1 i = vw (A s) b" "length (vw (A s) b) = BSIZE" using hd_facts[OF r(2,3)] r(4) by simp_all
  let ?p = "put i (f (get s1 i)) s1"
  have p: "inv ?p" "A ?p = (A s1)\<lparr>vw := (vw (A s1))(b := f (vw (A s) b))\<rparr>" "hd ?p i b"
    using put_ok[OF r(2,3), of "f (get s1 i)"] f g r(3) by simp_all
  obtain s2 where s2: "wr i ?p = Inr s2" "inv s2"
    "A s2 = (A ?p)\<lparr>dk := (dk (A ?p))(b := vw (A ?p) b), tr := tr (A ?p) @ [(b, vw (A ?p) b)]\<rparr>" "hd s2 i b"
    using wr_ok[OF p(1,3)] p(3) by blast
  have cl: "vw (A s2) b = dk (A s2) b" unfolding s2(3) p(2) by simp
  obtain s3 where s3: "rel i s2 = Inr s3" "inv s3"
    "A s3 = (A s2)\<lparr>rf := (rf (A s2))(b := rf (A s2) b - 1), bz := (bz (A s2))(b := False)\<rparr>"
    using rel_ok[OF s2(2,4) cl] by blast
  have "A s3 = (A s)\<lparr>vw := (vw (A s))(b := f (vw (A s) b)), dk := (dk (A s))(b := f (vw (A s) b)), tr := tr (A s) @ [(b, f (vw (A s) b))]\<rparr>"
    unfolding s3(3) s2(3) p(2) r(4) using b(2) by (simp add: fun_upd_idem)
  moreover have "rbind (rd b s) (\<lambda>(i, s1). rbind (wr i (put i (f (get s1 i)) s1)) (rel i)) = Inr s3"
    using r(1) s2(1) s3(1) by simp
  ultimately show ?thesis using s3(2) g(2) by blast
qed

end

interpretation bcache: buffer_cache "bc_inv nd nblk" "absb nblk" held get_data set_data "bread ROOTDEV" bwrite brelse
  bpin bunpin nblk NBUF for nd nblk
  by unfold_locales
    (rule bread_ok bwrite_ok brelse_ok, assumption+ | blast intro: set_data_ok | blast intro: bpin_ok
     | blast intro: bunpin_ok | blast intro: heldD(4,6,7,8,9))+


section \<open>The cache after \<^verbatim>\<open>binit\<close>\<close>

text \<open>The zeroed static data of the kernel, with an empty device.\<close>

definition zero_bbuf :: bbuf where
  "zero_bbuf = \<lparr>b_disk = False, b_blockno = 0, b_data = replicate BSIZE 0, b_valid = False, b_dev = 0,
     b_lock = initsleeplock, b_refcnt = 0, b_prev = 0, b_next = 0\<rparr>"

definition boot_bsys :: "nat \<Rightarrow> (nat \<Rightarrow> nat \<Rightarrow> byte list) bsys" where
  "boot_bsys nd = binit \<lparr>bufs = (\<lambda>_. zero_bbuf), drv = fresh_vstate nd, cur = 1, wtrace = []\<rparr>"

lemma binit_cores:
  assumes "\<And>i. b_lock (bufs s i) = initsleeplock"
  shows "cores (binit s) = cores s \<and> drv (binit s) = drv s \<and> wtrace (binit s) = wtrace s \<and> cur (binit s) = cur s"
proof -
  let ?f = "\<lambda>b s. upd_buf b (\<lambda>x. x\<lparr>b_lock := initsleeplock\<rparr>) (push_front b s)"
  have step: "cores (?f b t) = cores t \<and> drv (?f b t) = drv t \<and> wtrace (?f b t) = wtrace t \<and> cur (?f b t) = cur t"
    if "\<And>i. b_lock (cores t i) = initsleeplock" for b and t :: "'a bsys"
  proof -
    have c: "core (bufs (push_front b t) b) = core (bufs t b)"
      using fun_cong[OF push_front_simps(1)[of b t], of b] unfolding cores_def .
    have "b_lock (bufs (push_front b t) b) = initsleeplock" using core_fields(4)[OF c] that[of b] by (simp add: cores_def)
    then have "(bufs (push_front b t) b)\<lparr>b_lock := initsleeplock\<rparr> = bufs (push_front b t) b"
      by (cases "bufs (push_front b t) b") simp
    then have "core ((bufs (push_front b t) b)\<lparr>b_lock := initsleeplock\<rparr>) = cores t b" using c by (simp add: cores_def)
    then have "cores (?f b t) = cores t" by (auto simp: cores_upd_buf fun_upd_idem)
    then show ?thesis by simp
  qed
  have run: "cores (fold ?f bs t) = cores t \<and> drv (fold ?f bs t) = drv t \<and> wtrace (fold ?f bs t) = wtrace t \<and> cur (fold ?f bs t) = cur t"
    if "\<And>i. b_lock (cores t i) = initsleeplock" for bs and t :: "'a bsys"
    using that
  proof (induction bs arbitrary: t)
    case (Cons b bs)
    have st: "cores (?f b t) = cores t \<and> drv (?f b t) = drv t \<and> wtrace (?f b t) = wtrace t \<and> cur (?f b t) = cur t"
      using step Cons.prems by blast
    then have "\<And>i. b_lock (cores (?f b t) i) = initsleeplock" using Cons.prems by simp
    then show ?case using Cons.IH[of "?f b t"] st by simp
  qed simp
  have "\<And>i. b_lock (cores (set_next NBUF NBUF (set_prev NBUF NBUF s)) i) = initsleeplock"
    using assms by (simp add: cores_def[of s])
  from run[OF this] show ?thesis unfolding binit_def by simp (simp add: set_next_def set_prev_def)
qed

lemma boot_bsys_ok:
  assumes "nblk \<le> 2 ^ 31"
  shows "bc_inv nd nblk (boot_bsys nd)"
    "absb nblk (boot_bsys nd) = \<lparr>vw = (\<lambda>b. if unat b < nblk then replicate BSIZE 0 else []),
       dk = (\<lambda>b. if unat b < nblk then replicate BSIZE 0 else []), rf = (\<lambda>_. 0), bz = (\<lambda>_. False), tr = []\<rparr>"
proof -
  let ?s = "\<lparr>bufs = (\<lambda>_. zero_bbuf), drv = fresh_vstate nd, cur = 1, wtrace = []\<rparr> :: (nat \<Rightarrow> nat \<Rightarrow> byte list) bsys"
  have b: "cores (boot_bsys nd) = (\<lambda>_. core zero_bbuf)" "drv (boot_bsys nd) = fresh_vstate nd" "wtrace (boot_bsys nd) = []"
    using binit_cores[of ?s] by (simp_all add: boot_bsys_def zero_bbuf_def cores_def[abs_def])
  have f: "fsd nblk (fresh_vstate nd) = (\<lambda>b. if unat b < nblk then replicate BSIZE 0 else [])"
  proof
    fix b :: u32
    have "unat b < 2 ^ 31" if "unat b < nblk" using that assms by simp
    then show "fsd nblk (fresh_vstate nd) b = (if unat b < nblk then replicate BSIZE 0 else [])"
      by (simp add: fsd_def fresh_vstate_def array_device_block)
  qed
  have sl: "slot_of (\<lambda>_. core zero_bbuf) d = None" for d by (simp add: slot_of_None zero_bbuf_def ROOTDEV_def)
  show "absb nblk (boot_bsys nd) = \<lparr>vw = (\<lambda>b. if unat b < nblk then replicate BSIZE 0 else []),
       dk = (\<lambda>b. if unat b < nblk then replicate BSIZE 0 else []), rf = (\<lambda>_. 0), bz = (\<lambda>_. False), tr = []\<rparr>"
    unfolding absb_def b f by (simp add: cview_def[abs_def] crefs_def[abs_def] cbusy_def[abs_def] sl)
  have "cache_ok nblk (\<lambda>_. core zero_bbuf) D" for D
    by (simp add: cache_ok_def buf_ok_def zero_bbuf_def initsleeplock_def ROOTDEV_def)
  moreover have "\<exists>xs. lru (boot_bsys nd) xs" unfolding boot_bsys_def using binit_lru by blast
  ultimately show "bc_inv nd nblk (boot_bsys nd)" using fresh_vstate_ok[OF assms] by (simp add: bc_inv_def b)
qed

section \<open>Properties\<close>

text \<open>
  C14: the buffer cache is coherent: on a state in which the invariant holds, \<^verbatim>\<open>bread\<close> of a block
  that nobody has locked returns a locked buffer with the last contents given to that block, as
  long as a buffer is unused or the block is referenced; writing it with \<^verbatim>\<open>bwrite\<close> puts the new
  contents on the disk, at that block only, and after \<^verbatim>\<open>brelse\<close> the next reader gets them.
\<close>

theorem bread_bwrite_brelse:
  assumes "bc_inv nd nblk s" "unat b < nblk" "\<not> bz (absb nblk s) b" "rf (absb nblk s) b < 2 ^ 32 - 1"
    and "0 < rf (absb nblk s) b \<or> card {b. 0 < rf (absb nblk s) b} < NBUF" "length d = BSIZE"
  shows "\<exists>i s1 s2 s3. bread ROOTDEV b s = Inr (i, s1) \<and> get_data s1 i = vw (absb nblk s) b \<and>
     bwrite i (set_data i d s1) = Inr s2 \<and> brelse i s2 = Inr s3 \<and> bc_inv nd nblk s3 \<and>
     dk (absb nblk s3) = (dk (absb nblk s))(b := d) \<and> vw (absb nblk s3) = (vw (absb nblk s))(b := d) \<and>
     rf (absb nblk s3) = rf (absb nblk s) \<and> bz (absb nblk s3) = bz (absb nblk s)"
proof -
  obtain i s1 where r: "bread ROOTDEV b s = Inr (i, s1)" "bc_inv nd nblk s1" "held s1 i b"
    "absb nblk s1 = (absb nblk s)\<lparr>rf := (rf (absb nblk s))(b := rf (absb nblk s) b + 1), bz := (bz (absb nblk s))(b := True)\<rparr>"
    using bcache.rd_ok[OF assms(1-5)] by blast
  have g: "get_data s1 i = vw (absb nblk s) b" using heldD(4)[OF r(2,3)] r(4) by simp
  let ?p = "set_data i d s1"
  have p: "bc_inv nd nblk ?p" "absb nblk ?p = (absb nblk s1)\<lparr>vw := (vw (absb nblk s1))(b := d)\<rparr>" "held ?p i b"
    using bcache.put_ok[OF r(2,3) assms(6)] r(3) by blast+
  obtain s2 where s2: "bwrite i ?p = Inr s2" "bc_inv nd nblk s2" "held s2 i b"
    "absb nblk s2 = (absb nblk ?p)\<lparr>dk := (dk (absb nblk ?p))(b := vw (absb nblk ?p) b), tr := tr (absb nblk ?p) @ [(b, vw (absb nblk ?p) b)]\<rparr>"
    using bcache.wr_ok[OF p(1,3)] p(3) by blast
  have c: "vw (absb nblk s2) b = dk (absb nblk s2) b" unfolding s2(4) p(2) by (simp del: absb_simps)
  obtain s3 where s3: "brelse i s2 = Inr s3" "bc_inv nd nblk s3"
    "absb nblk s3 = (absb nblk s2)\<lparr>rf := (rf (absb nblk s2))(b := rf (absb nblk s2) b - 1), bz := (bz (absb nblk s2))(b := False)\<rparr>"
    using bcache.rel_ok[OF s2(2,3) c] by blast
  have e: "absb nblk s3 = (absb nblk s)\<lparr>vw := (vw (absb nblk s))(b := d), dk := (dk (absb nblk s))(b := d), tr := tr (absb nblk s) @ [(b, d)]\<rparr>"
    unfolding s3(3) s2(4) p(2) r(4) using assms(3) by (simp add: fun_upd_idem del: absb_simps)
  show ?thesis
    by (intro exI[of _ i] exI[of _ s1] exI[of _ s2] exI[of _ s3])
      (use r(1) g s2(1) s3(1,2) e in \<open>simp del: absb_simps\<close>)
qed

theorem bread_bwrite_brelse_witness:
  "\<exists>i s1 s2 s3. bread ROOTDEV 5 (boot_bsys 1) = Inr (i, s1) \<and> bwrite i (set_data i (replicate BSIZE 7) s1) = Inr s2 \<and>
     brelse i s2 = Inr s3 \<and> dk (absb 100 s3) 5 = replicate BSIZE 7 \<and> dk (absb 100 s3) 6 = replicate BSIZE 0"
proof -
  have l: "(100 :: nat) \<le> 2 ^ 31" by simp
  note B = boot_bsys_ok[OF l, of 1]
  have "\<exists>i s1 s2 s3. bread ROOTDEV 5 (boot_bsys 1) = Inr (i, s1) \<and> get_data s1 i = vw (absb 100 (boot_bsys 1)) 5 \<and>
     bwrite i (set_data i (replicate BSIZE 7) s1) = Inr s2 \<and> brelse i s2 = Inr s3 \<and> bc_inv 1 100 s3 \<and>
     dk (absb 100 s3) = (dk (absb 100 (boot_bsys 1)))(5 := replicate BSIZE 7) \<and>
     vw (absb 100 s3) = (vw (absb 100 (boot_bsys 1)))(5 := replicate BSIZE 7) \<and>
     rf (absb 100 s3) = rf (absb 100 (boot_bsys 1)) \<and> bz (absb 100 s3) = bz (absb 100 (boot_bsys 1))"
    by (rule bread_bwrite_brelse[OF B(1)], unfold B(2)) (simp_all add: NBUF_def)
  then show ?thesis unfolding B(2) by (auto simp del: absb_simps)
qed


text \<open>
  C12: the doubly linked list of \<^verbatim>\<open>bcache\<close> implements a list of the buffers in the order of their last
  release: releasing the last reference moves a buffer to the front of that list, and \<^verbatim>\<open>bget\<close> of a
  block that is not cached recycles the unused buffer nearest to its end, or panics when no buffer
  is unused; a cached block gets its own buffer and the order stays.
\<close>

theorem bcache_lru:
  assumes "lru s xs"
  shows "(i < NBUF \<longrightarrow> holdingsleep (cur s) (b_lock (bufs s i)) \<longrightarrow> b_refcnt (bufs s i) = 1 \<longrightarrow>
       (\<exists>s'. brelse i s = Inr s' \<and> lru s' (i # remove1 i xs))) \<and>
     (case find (\<lambda>i. b_dev (bufs s i) = dev \<and> b_blockno (bufs s i) = bn) xs of
        Some j \<Rightarrow> \<not> sl_locked (b_lock (bufs s j)) \<longrightarrow> (\<exists>s'. bget dev bn s = Inr (j, s') \<and> lru s' xs)
      | None \<Rightarrow> (case find (\<lambda>i. b_refcnt (bufs s i) = 0) (rev xs) of
           Some j \<Rightarrow> \<not> sl_locked (b_lock (bufs s j)) \<longrightarrow> (\<exists>s'. bget dev bn s = Inr (j, s') \<and> lru s' xs)
         | None \<Rightarrow> bget dev bn s = Inl (Panic ''bget: no buffers'')))"
proof (intro conjI impI)
  assume a: "i < NBUF" "holdingsleep (cur s) (b_lock (bufs s i))" "b_refcnt (bufs s i) = 1"
  let ?f = "\<lambda>x. x\<lparr>b_lock := releasesleep (b_lock x), b_refcnt := b_refcnt x - 1\<rparr>"
  have run: "brelse i s = Inr (move_front i (upd_buf i ?f s))"
    using a(2,3) by (simp add: brelse_def Let_def bufs_upd_buf move_front_def)
  have "linkless ?f" by (simp add: linkless_def)
  then have l: "lru (upd_buf i ?f s) xs" using assms linkless_lru by blast
  have "i \<in> set xs" using assms a(1) by (simp add: lru_def)
  then obtain ys zs where xs: "xs = ys @ i # zs" "i \<notin> set ys" by (metis split_list_first)
  then have "remove1 i xs = ys @ zs" by (simp add: remove1_append)
  then show "\<exists>s'. brelse i s = Inr s' \<and> lru s' (i # remove1 i xs)"
    using run move_front_lru[OF l[unfolded xs(1)]] by simp
next
  note sc = lru_scans[OF assms]
  let ?g = "\<lambda>x. x\<lparr>b_refcnt := b_refcnt x + 1\<rparr>"
  let ?h = "\<lambda>x. x\<lparr>b_dev := dev, b_blockno := bn, b_valid := False, b_refcnt := 1\<rparr>"
  have lk: "\<exists>s'. rbind (lock_buf j (upd_buf j f s)) (\<lambda>s1. Inr (j, s1)) = Inr (j, s') \<and> lru s' xs"
    if "\<not> sl_locked (b_lock (bufs s j))" "linkless f" "\<And>x. b_lock (f x) = b_lock x" for j f
  proof -
    let ?k = "\<lambda>x. x\<lparr>b_lock := (b_lock (bufs s j))\<lparr>sl_locked := True, sl_pid := cur s\<rparr>\<rparr>"
    have "linkless ?k" by (simp add: linkless_def)
    then have "lru (upd_buf j ?k (upd_buf j f s)) xs" using assms by (simp add: linkless_lru that(2))
    moreover have "lock_buf j (upd_buf j f s) = Inr (upd_buf j ?k (upd_buf j f s))"
      using that(1,3) by (simp add: lock_buf_def acquiresleep_def bufs_upd_buf)
    ultimately show ?thesis by simp
  qed
  have g: "linkless ?g" "linkless ?h" by (simp_all add: linkless_def)
  show "case find (\<lambda>i. b_dev (bufs s i) = dev \<and> b_blockno (bufs s i) = bn) xs of
        Some j \<Rightarrow> \<not> sl_locked (b_lock (bufs s j)) \<longrightarrow> (\<exists>s'. bget dev bn s = Inr (j, s') \<and> lru s' xs)
      | None \<Rightarrow> (case find (\<lambda>i. b_refcnt (bufs s i) = 0) (rev xs) of
           Some j \<Rightarrow> \<not> sl_locked (b_lock (bufs s j)) \<longrightarrow> (\<exists>s'. bget dev bn s = Inr (j, s') \<and> lru s' xs)
         | None \<Rightarrow> bget dev bn s = Inl (Panic ''bget: no buffers''))"
    unfolding bget_def sc using lk[OF _ g(1)] lk[OF _ g(2)] by (simp split: option.split)
qed

theorem bcache_lru_witness:
  "\<exists>s'. bget 1 7 (boot_bsys 2) = Inr (0, s') \<and> lru s' (rev [0..<NBUF])"
proof -
  have l: "lru (boot_bsys 2) (rev [0..<NBUF])" unfolding boot_bsys_def by (rule binit_lru)
  let ?s = "\<lparr>bufs = (\<lambda>_. zero_bbuf), drv = fresh_vstate 2, cur = 1, wtrace = []\<rparr> :: (nat \<Rightarrow> nat \<Rightarrow> byte list) bsys"
  have "cores (boot_bsys 2) = (\<lambda>_. core zero_bbuf)"
    using binit_cores[of ?s] by (simp add: boot_bsys_def zero_bbuf_def cores_def[abs_def])
  then have c: "core (bufs (boot_bsys 2) i) = core zero_bbuf" for i by (metis cores_def)
  note f = core_fields[OF c]
  have 1: "find (\<lambda>i. b_dev (bufs (boot_bsys 2) i) = 1 \<and> b_blockno (bufs (boot_bsys 2) i) = 7) (rev [0..<NBUF]) = None"
    by (simp add: find_None_iff f zero_bbuf_def)
  have 2: "find (\<lambda>i. b_refcnt (bufs (boot_bsys 2) i) = 0) (rev (rev [0..<NBUF])) = Some 0"
    unfolding rev_rev_ident f by (simp add: zero_bbuf_def NBUF_def upt_conv_Cons)
  show ?thesis using bcache_lru[OF l, of 0 1 7] unfolding 1 2 option.case by (simp add: f zero_bbuf_def initsleeplock_def)
qed

end
