(* ===== verification/Bytes.thy ===== *)
theory Bytes
  imports Prelude
begin

text \<open>
  Fields of C structures inside a block of bytes: 16-bit and 32-bit little-endian words at a byte
  offset, and the replacement of a range of bytes.
\<close>

definition splice :: "nat \<Rightarrow> byte list \<Rightarrow> byte list \<Rightarrow> byte list" where
  "splice k ys xs = take k xs @ ys @ drop (k + length ys) xs"

definition bytes_at :: "nat \<Rightarrow> nat \<Rightarrow> byte list \<Rightarrow> byte list" where
  "bytes_at k n xs = take n (drop k xs)"

definition le16 :: "u16 \<Rightarrow> byte list" where
  "le16 w = [ucast w, ucast (drop_bit 8 w)]"

definition rd16 :: "byte list \<Rightarrow> u16" where
  "rd16 bs = (ucast (bs ! 0) :: u16) OR push_bit 8 (ucast (bs ! 1))"

definition put32l :: "nat \<Rightarrow> u32 \<Rightarrow> byte list \<Rightarrow> byte list" where
  "put32l k w = splice k (le32 w)"

definition get32l :: "nat \<Rightarrow> byte list \<Rightarrow> u32" where
  "get32l k xs = rd32 (bytes_at k 4 xs)"

definition put16l :: "nat \<Rightarrow> u16 \<Rightarrow> byte list \<Rightarrow> byte list" where
  "put16l k w = splice k (le16 w)"

definition get16l :: "nat \<Rightarrow> byte list \<Rightarrow> u16" where
  "get16l k xs = rd16 (bytes_at k 2 xs)"

lemma length_le16 [simp]: "length (le16 w) = 2"
  by (simp add: le16_def)

lemma rd16_le16 [simp]: "rd16 (le16 w) = w"
proof (rule bit_eqI)
  fix n assume "possible_bit TYPE(u16) n"
  then have "n < 16" by simp
  then consider "n < 8" | "8 \<le> n" "n < 16" by linarith
  then show "bit (rd16 (le16 w)) n = bit w n"
    by cases (auto simp: rd16_def le16_def bit_simps)
qed

lemma length_splice [simp]: "k + length ys \<le> length xs \<Longrightarrow> length (splice k ys xs) = length xs"
  by (simp add: splice_def)

lemma length_bytes_at [simp]: "k + n \<le> length xs \<Longrightarrow> length (bytes_at k n xs) = n"
  by (simp add: bytes_at_def)

lemma nth_bytes_at: "k + n \<le> length xs \<Longrightarrow> i < n \<Longrightarrow> bytes_at k n xs ! i = xs ! (k + i)"
  by (simp add: bytes_at_def)

lemma nth_splice:
  "k + length ys \<le> length xs \<Longrightarrow> i < length xs \<Longrightarrow>
   splice k ys xs ! i = (if k \<le> i \<and> i < k + length ys then ys ! (i - k) else xs ! i)"
  by (auto simp: splice_def nth_append min_def)

lemma bytes_at_splice_same:
  "k + length ys \<le> length xs \<Longrightarrow> n = length ys \<Longrightarrow> bytes_at k n (splice k ys xs) = ys"
  by (simp add: splice_def bytes_at_def)

lemma bytes_at_splice_other:
  assumes "k + length ys \<le> length xs" "j + n \<le> length xs" "j + n \<le> k \<or> k + length ys \<le> j"
  shows "bytes_at j n (splice k ys xs) = bytes_at j n xs"
proof (rule nth_equalityI)
  show "length (bytes_at j n (splice k ys xs)) = length (bytes_at j n xs)" using assms by simp
  fix i assume "i < length (bytes_at j n (splice k ys xs))"
  then have "i < n" using assms by simp
  then show "bytes_at j n (splice k ys xs) ! i = bytes_at j n xs ! i"
    using assms by (auto simp: nth_bytes_at nth_splice)
qed

lemma splice_bytes_at: "k + n \<le> length xs \<Longrightarrow> splice k (bytes_at k n xs) xs = xs"
  by (rule nth_equalityI) (auto simp: nth_splice nth_bytes_at)

lemma length_put32l [simp]: "k + 4 \<le> length xs \<Longrightarrow> length (put32l k w xs) = length xs"
  by (simp add: put32l_def)

lemma length_put16l [simp]: "k + 2 \<le> length xs \<Longrightarrow> length (put16l k w xs) = length xs"
  by (simp add: put16l_def)

lemma get32l_put32l [simp]: "k + 4 \<le> length xs \<Longrightarrow> get32l k (put32l k w xs) = w"
  by (simp add: get32l_def put32l_def bytes_at_splice_same)

lemma get16l_put16l [simp]: "k + 2 \<le> length xs \<Longrightarrow> get16l k (put16l k w xs) = w"
  by (simp add: get16l_def put16l_def bytes_at_splice_same)

lemma get32l_put32l_other:
  "k + 4 \<le> length xs \<Longrightarrow> j + 4 \<le> length xs \<Longrightarrow> j + 4 \<le> k \<or> k + 4 \<le> j \<Longrightarrow> get32l j (put32l k w xs) = get32l j xs"
  by (simp add: get32l_def put32l_def bytes_at_splice_other)

lemma get16l_put16l_other:
  "k + 2 \<le> length xs \<Longrightarrow> j + 2 \<le> length xs \<Longrightarrow> j + 2 \<le> k \<or> k + 2 \<le> j \<Longrightarrow> get16l j (put16l k w xs) = get16l j xs"
  by (simp add: get16l_def put16l_def bytes_at_splice_other)

lemma get16l_put32l_other:
  "k + 4 \<le> length xs \<Longrightarrow> j + 2 \<le> length xs \<Longrightarrow> j + 2 \<le> k \<or> k + 4 \<le> j \<Longrightarrow> get16l j (put32l k w xs) = get16l j xs"
  by (simp add: get16l_def put32l_def bytes_at_splice_other)

lemma get32l_put16l_other:
  "k + 2 \<le> length xs \<Longrightarrow> j + 4 \<le> length xs \<Longrightarrow> j + 4 \<le> k \<or> k + 2 \<le> j \<Longrightarrow> get32l j (put16l k w xs) = get32l j xs"
  by (simp add: get32l_def put16l_def bytes_at_splice_other)

text \<open>An array of 32-bit words from byte \<open>k\<close> on, stored one by one.\<close>

lemma put32s_fold:
  assumes "k + 4 * n \<le> length xs"
  shows "length (fold (\<lambda>i. put32l (k + 4 * i) (w i)) [0..<n] xs) = length xs"
    and "j + 4 \<le> k \<Longrightarrow> get32l j (fold (\<lambda>i. put32l (k + 4 * i) (w i)) [0..<n] xs) = get32l j xs"
    and "i < n \<Longrightarrow> get32l (k + 4 * i) (fold (\<lambda>i. put32l (k + 4 * i) (w i)) [0..<n] xs) = w i"
  using assms
proof (induction n)
  case (Suc n)
  { case 1
    then show ?case using Suc by simp
  next
    case 2
    then show ?case using Suc by (simp add: get32l_put32l_other)
  next
    case 3
    let ?xs = "fold (\<lambda>i. put32l (k + 4 * i) (w i)) [0..<n] xs"
    have len: "length ?xs = length xs" using 3 Suc(1) by simp
    have f: "fold (\<lambda>i. put32l (k + 4 * i) (w i)) [0..<Suc n] xs = put32l (k + 4 * n) (w n) ?xs" by simp
    show ?case
    proof (cases "i = n")
      case True
      then show ?thesis unfolding f using 3 len by simp
    next
      case False
      then have "i < n" using 3 by simp
      then show ?thesis unfolding f using 3 len Suc(3) by (subst get32l_put32l_other) simp_all
    qed
  }
qed simp_all

end
