(* ===== verification/Log.thy ===== *)
theory Log
  imports Bio Bytes
begin

text \<open>
  The redo log, \<^verbatim>\<open>kernel/log.c\<close>, on top of the buffer cache.  The in-memory header \<^verbatim>\<open>log.lh\<close> is the
  count \<open>lh_n\<close> and the array \<open>lh_block\<close> of \<^verbatim>\<open>LOGSIZE\<close> entries.  A call of \<^verbatim>\<open>begin_op\<close> that has to wait
  is \<open>Sleeping\<close>; \<^verbatim>\<open>commit\<close> runs while \<^verbatim>\<open>log.committing\<close> keeps the others out.
\<close>

section \<open>Model\<close>

definition MAXOPBLOCKS :: nat where [const_simps]: "MAXOPBLOCKS = 10"
definition LOGSIZE :: nat where [const_simps]: "LOGSIZE = MAXOPBLOCKS * 3"

record superblock =
  sb_magic :: u32
  sb_size :: u32
  sb_nblocks :: u32
  sb_ninodes :: u32
  sb_nlog :: u32
  sb_logstart :: u32
  sb_inodestart :: u32
  sb_bmapstart :: u32

record logst =
  lstart :: u32
  lsize :: int
  outstanding :: int
  committing :: bool
  ldev :: u32
  lh_n :: int
  lh_block :: "u32 list"

record 'd lsys =
  bc :: "'d bsys"
  lg :: logst

definition lh_at :: "logst \<Rightarrow> nat \<Rightarrow> u32 result" where
  "lh_at l i = (if i < LOGSIZE then Inr (lh_block l ! i) else Inl OutOfBounds)"

definition log_block :: "logst \<Rightarrow> nat \<Rightarrow> u32" where
  "log_block l tail = lstart l + of_nat tail + 1"

text \<open>\<^verbatim>\<open>struct logheader\<close> in the bytes of a block: the count, then the block numbers.\<close>

definition hdr_n :: "byte list \<Rightarrow> int" where
  "hdr_n d = sint (get32l 0 d)"

definition hdr_block :: "byte list \<Rightarrow> nat \<Rightarrow> u32 result" where
  "hdr_block d i = (if 4 + 4 * i + 4 \<le> length d then Inr (get32l (4 + 4 * i) d) else Inl OutOfBounds)"

definition install_trans :: "bool \<Rightarrow> 'd lsys \<Rightarrow> 'd lsys result" where
  "install_trans recovering s =
     rfold (\<lambda>tail s.
       rbind (bread (ldev (lg s)) (log_block (lg s) tail) (bc s)) (\<lambda>(lbuf, c1).
       rbind (lh_at (lg s) tail) (\<lambda>dst.
       rbind (bread (ldev (lg s)) dst c1) (\<lambda>(dbuf, c2).
       rbind (bwrite dbuf (set_data dbuf (get_data c2 lbuf) c2)) (\<lambda>c3.
       rbind (brelse lbuf (if \<not> recovering then bunpin dbuf c3 else c3)) (\<lambda>c4.
       rbind (brelse dbuf c4) (\<lambda>c5. Inr (s\<lparr>bc := c5\<rparr>))))))))
       [0..<nat (lh_n (lg s))] s"

fun read_head_loop :: "byte list \<Rightarrow> nat list \<Rightarrow> logst \<Rightarrow> logst result" where
  "read_head_loop d [] l = Inr l"
| "read_head_loop d (i # is) l =
     rbind (hdr_block d i) (\<lambda>b.
       if i < LOGSIZE then read_head_loop d is (l\<lparr>lh_block := (lh_block l)[i := b]\<rparr>) else Inl OutOfBounds)"

definition read_head :: "'d lsys \<Rightarrow> 'd lsys result" where
  "read_head s =
     rbind (bread (ldev (lg s)) (lstart (lg s)) (bc s)) (\<lambda>(buf, c1).
       let d = get_data c1 buf; l = (lg s)\<lparr>lh_n := hdr_n d\<rparr>
       in rbind (read_head_loop d [0..<nat (lh_n l)] l) (\<lambda>l'.
          rbind (brelse buf c1) (\<lambda>c2. Inr (s\<lparr>bc := c2, lg := l'\<rparr>))))"

definition write_hdr :: "logst \<Rightarrow> byte list \<Rightarrow> byte list result" where
  "write_hdr l d =
     rfold (\<lambda>i d. rbind (lh_at l i) (\<lambda>b. Inr (put32l (4 + 4 * i) b d))) [0..<nat (lh_n l)]
       (put32l 0 (of_int (lh_n l)) d)"

definition write_head :: "'d lsys \<Rightarrow> 'd lsys result" where
  "write_head s =
     rbind (bread (ldev (lg s)) (lstart (lg s)) (bc s)) (\<lambda>(buf, c1).
       rbind (write_hdr (lg s) (get_data c1 buf)) (\<lambda>d.
       rbind (bwrite buf (set_data buf d c1)) (\<lambda>c2.
       rbind (brelse buf c2) (\<lambda>c3. Inr (s\<lparr>bc := c3\<rparr>)))))"

definition recover_from_log :: "'d lsys \<Rightarrow> 'd lsys result" where
  "recover_from_log s =
     rbind (read_head s) (\<lambda>s1.
     rbind (install_trans True s1) (\<lambda>s2.
     write_head (s2\<lparr>lg := (lg s2)\<lparr>lh_n := 0\<rparr>\<rparr>)))"

definition initlog :: "u32 \<Rightarrow> superblock \<Rightarrow> 'd lsys \<Rightarrow> 'd lsys result" where
  "initlog dev sb s =
     (if 4 + 4 * LOGSIZE \<ge> BSIZE then Inl (Panic ''initlog: too big logheader'')
      else recover_from_log (s\<lparr>lg := (lg s)\<lparr>lstart := sb_logstart sb, lsize := sint (sb_nlog sb), ldev := dev\<rparr>\<rparr>))"

definition begin_op :: "'d lsys \<Rightarrow> 'd lsys result" where
  "begin_op s =
     (if committing (lg s) then Inl Sleeping
      else if lh_n (lg s) + (outstanding (lg s) + 1) * int MAXOPBLOCKS > int LOGSIZE then Inl Sleeping
      else Inr (s\<lparr>lg := (lg s)\<lparr>outstanding := outstanding (lg s) + 1\<rparr>\<rparr>))"

definition write_log :: "'d lsys \<Rightarrow> 'd lsys result" where
  "write_log s =
     rfold (\<lambda>tail s.
       rbind (bread (ldev (lg s)) (log_block (lg s) tail) (bc s)) (\<lambda>(to, c1).
       rbind (lh_at (lg s) tail) (\<lambda>src.
       rbind (bread (ldev (lg s)) src c1) (\<lambda>(from, c2).
       rbind (bwrite to (set_data to (get_data c2 from) c2)) (\<lambda>c3.
       rbind (brelse from c3) (\<lambda>c4.
       rbind (brelse to c4) (\<lambda>c5. Inr (s\<lparr>bc := c5\<rparr>))))))))
       [0..<nat (lh_n (lg s))] s"

definition commit :: "'d lsys \<Rightarrow> 'd lsys result" where
  "commit s =
     (if lh_n (lg s) > 0
      then rbind (write_log s) (\<lambda>s1.
           rbind (write_head s1) (\<lambda>s2.
           rbind (install_trans False s2) (\<lambda>s3.
           write_head (s3\<lparr>lg := (lg s3)\<lparr>lh_n := 0\<rparr>\<rparr>))))
      else Inr s)"

definition end_op :: "'d lsys \<Rightarrow> 'd lsys result" where
  "end_op s =
     (let l = (lg s)\<lparr>outstanding := outstanding (lg s) - 1\<rparr>
      in if committing l then Inl (Panic ''log.committing'')
         else if outstanding l = 0
         then rbind (commit (s\<lparr>lg := l\<lparr>committing := True\<rparr>\<rparr>)) (\<lambda>s1.
                Inr (s1\<lparr>lg := (lg s1)\<lparr>committing := False\<rparr>\<rparr>))
         else Inr (s\<lparr>lg := l\<rparr>))"

text \<open>The search of \<^verbatim>\<open>log_write\<close>: the place of the block, or the first free one.\<close>

fun find_logged :: "logst \<Rightarrow> u32 \<Rightarrow> nat list \<Rightarrow> nat result" where
  "find_logged l b [] = Inr (nat (lh_n l))"
| "find_logged l b (i # is) = rbind (lh_at l i) (\<lambda>x. if x = b then Inr i else find_logged l b is)"

definition log_write :: "nat \<Rightarrow> 'd lsys \<Rightarrow> 'd lsys result" where
  "log_write b s =
     (let l = lg s; bn = b_blockno (bufs (bc s) b)
      in if lh_n l \<ge> int LOGSIZE \<or> lh_n l \<ge> lsize l - 1 then Inl (Panic ''too big a transaction'')
         else if outstanding l < 1 then Inl (Panic ''log_write outside of trans'')
         else rbind (find_logged l bn [0..<nat (lh_n l)]) (\<lambda>i.
              if i \<ge> LOGSIZE then Inl OutOfBounds
              else let l1 = l\<lparr>lh_block := (lh_block l)[i := bn]\<rparr>
                   in if int i = lh_n l1
                      then Inr (s\<lparr>bc := bpin b (bc s), lg := l1\<lparr>lh_n := lh_n l1 + 1\<rparr>\<rparr>)
                      else Inr (s\<lparr>lg := l1\<rparr>)))"


section \<open>Lists of writes\<close>

declare absb_simps [simp del]

definition apply_writes :: "(u32 \<times> byte list) list \<Rightarrow> (u32 \<Rightarrow> byte list) \<Rightarrow> u32 \<Rightarrow> byte list" where
  "apply_writes ws D = fold (\<lambda>(b, d) D. D(b := d)) ws D"

lemma apply_writes_simps [simp]:
  "apply_writes [] D = D" "apply_writes ((b, d) # ws) D = apply_writes ws (D(b := d))"
  "apply_writes (ws @ vs) D = apply_writes vs (apply_writes ws D)"
  by (simp_all add: apply_writes_def)

lemma apply_writes_other: "b \<notin> fst ` set ws \<Longrightarrow> apply_writes ws D b = D b"
  by (induction ws rule: rev_induct) auto

lemma apply_writes_cong: "D b = D' b \<Longrightarrow> apply_writes ws D b = apply_writes ws D' b"
  by (induction ws rule: rev_induct) auto

lemma apply_writes_map:
  assumes "inj_on f {0..<n}" "t < n"
  shows "apply_writes (map (\<lambda>t. (f t, g t)) [0..<n]) D (f t) = g t"
  using assms
proof (induction n)
  case (Suc n)
  have i: "inj_on f {0..<n}" using Suc.prems(1) by (rule inj_on_subset) simp
  show ?case
  proof (cases "t = n")
    case False
    have "f t \<noteq> f n" using Suc.prems False by (auto dest: inj_onD)
    then show ?thesis using Suc.IH[OF i] Suc.prems(2) False by simp
  qed simp
qed simp

section \<open>The header\<close>

definition enc_hdr :: "logst \<Rightarrow> byte list \<Rightarrow> byte list" where
  "enc_hdr l d = fold (\<lambda>i. put32l (4 + 4 * i) (lh_block l ! i)) [0..<nat (lh_n l)] (put32l 0 (of_int (lh_n l)) d)"

lemma write_hdr_enc:
  assumes "nat (lh_n l) \<le> LOGSIZE"
  shows "write_hdr l d = Inr (enc_hdr l d)"
proof -
  have "rfold (\<lambda>i d. rbind (lh_at l i) (\<lambda>b. Inr (put32l (4 + 4 * i) b d))) [0..<k] e =
      Inr (fold (\<lambda>i. put32l (4 + 4 * i) (lh_block l ! i)) [0..<k] e)" if "k \<le> LOGSIZE" for k e
    using that by (induction k) (simp_all add: rfold_append lh_at_def)
  then show ?thesis using assms by (simp add: write_hdr_def enc_hdr_def)
qed

lemma enc_hdr_props:
  assumes "0 \<le> lh_n l" "lh_n l \<le> int LOGSIZE" "length d = BSIZE"
  shows "length (enc_hdr l d) = BSIZE" "hdr_n (enc_hdr l d) = lh_n l"
    "i < nat (lh_n l) \<Longrightarrow> get32l (4 + 4 * i) (enc_hdr l d) = lh_block l ! i"
proof -
  let ?n = "nat (lh_n l)"
  have n: "?n \<le> 30" using assms(2) by (simp add: LOGSIZE_def MAXOPBLOCKS_def)
  let ?e = "put32l 0 (of_int (lh_n l)) d"
  have e: "length ?e = BSIZE" "4 + 4 * ?n \<le> length ?e" using assms(3) n by (simp_all add: BSIZE_def)
  note F = put32s_fold[OF e(2)]
  show "length (enc_hdr l d) = BSIZE" using F(1) e(1) by (simp add: enc_hdr_def)
  have "get32l 0 (enc_hdr l d) = of_int (lh_n l)"
    unfolding enc_hdr_def using F(2)[of 0] assms(3) by (simp add: BSIZE_def)
  moreover have "sint (of_int (lh_n l) :: u32) = lh_n l"
    using n assms(1) by (subst signed_of_int) (simp add: signed_take_bit_int_eq_self)
  ultimately show "hdr_n (enc_hdr l d) = lh_n l" by (simp add: hdr_n_def)
  show "get32l (4 + 4 * i) (enc_hdr l d) = lh_block l ! i" if "i < ?n"
    unfolding enc_hdr_def using F(3)[OF that] by simp
qed

lemma read_head_loop_run:
  assumes "k \<le> LOGSIZE" "length d = BSIZE" "length (lh_block l) = LOGSIZE"
  shows "\<exists>bs. read_head_loop d [0..<k] l = Inr (l\<lparr>lh_block := bs\<rparr>) \<and> length bs = LOGSIZE \<and>
     (\<forall>i<k. bs ! i = get32l (4 + 4 * i) d)"
proof -
  have *: "\<exists>bs. read_head_loop d [m..<k] l = Inr (l\<lparr>lh_block := bs\<rparr>) \<and> length bs = LOGSIZE \<and>
     (\<forall>i<m. bs ! i = lh_block l ! i) \<and> (\<forall>i. m \<le> i \<longrightarrow> i < k \<longrightarrow> bs ! i = get32l (4 + 4 * i) d)"
    if "m \<le> k" "length (lh_block l) = LOGSIZE" for m l
    using that
  proof (induction "k - m" arbitrary: m l)
    case 0
    then show ?case by (intro exI[of _ "lh_block l"]) simp
  next
    case (Suc n)
    have lt: "m < k" "n = k - Suc m" using Suc(2) by simp_all
    let ?l = "l\<lparr>lh_block := (lh_block l)[m := get32l (4 + 4 * m) d]\<rparr>"
    obtain bs where bs: "read_head_loop d [Suc m..<k] ?l = Inr (?l\<lparr>lh_block := bs\<rparr>)" "length bs = LOGSIZE"
      "\<forall>i<Suc m. bs ! i = lh_block ?l ! i" "\<forall>i. Suc m \<le> i \<longrightarrow> i < k \<longrightarrow> bs ! i = get32l (4 + 4 * i) d"
      using Suc(1)[of "Suc m" ?l] Suc(2-4) lt by (auto simp: Suc_diff_Suc)
    have "hdr_block d m = Inr (get32l (4 + 4 * m) d)" "m < LOGSIZE"
      using lt assms(1,2) by (simp_all add: hdr_block_def BSIZE_def LOGSIZE_def MAXOPBLOCKS_def)
    then have run: "read_head_loop d [m..<k] l = Inr (l\<lparr>lh_block := bs\<rparr>)"
      using bs(1) lt by (simp add: upt_conv_Cons)
    have o: "bs ! i = lh_block l ! i" if "i < m" for i using bs(3) that by simp
    have q: "bs ! i = get32l (4 + 4 * i) d" if "m \<le> i" "i < k" for i
    proof (cases "i = m")
      case True
      then show ?thesis using bs(3) \<open>m < LOGSIZE\<close> Suc(4) by simp
    next
      case False
      then show ?thesis using bs(4) that by simp
    qed
    show ?case using run bs(2) o q by blast
  qed
  from *[of 0 l] assms(3) show ?thesis by simp
qed


section \<open>The loops\<close>

definition log_geo :: "nat \<Rightarrow> logst \<Rightarrow> bool" where
  "log_geo nblk l \<longleftrightarrow> ldev l = ROOTDEV \<and> 1 \<le> lsize l \<and> lsize l \<le> int LOGSIZE \<and>
     unat (lstart l) + nat (lsize l) \<le> nblk \<and> nblk \<le> 2 ^ 31 \<and> length (lh_block l) = LOGSIZE"

definition in_log :: "logst \<Rightarrow> u32 \<Rightarrow> bool" where
  "in_log l b \<longleftrightarrow> unat (lstart l) \<le> unat b \<and> unat b < unat (lstart l) + nat (lsize l)"

definition logged :: "logst \<Rightarrow> u32 list" where
  "logged l = take (nat (lh_n l)) (lh_block l)"

text \<open>The blocks of the log can be copied: they are different home blocks, at most 29 of them.\<close>

definition log_lists :: "nat \<Rightarrow> logst \<Rightarrow> bool" where
  "log_lists nblk l \<longleftrightarrow> log_geo nblk l \<and> 0 \<le> lh_n l \<and> lh_n l < lsize l \<and> distinct (logged l) \<and>
     (\<forall>b \<in> set (logged l). unat b < nblk \<and> \<not> in_log l b)"

lemma log_block_props:
  assumes "log_geo nblk l" "t + 1 < nat (lsize l)"
  shows "unat (log_block l t) = unat (lstart l) + t + 1" "in_log l (log_block l t)" "unat (log_block l t) < nblk"
    "log_block l t \<noteq> lstart l"
proof -
  have b: "unat (lstart l) + t + 1 < 2 ^ 32" using assms by (auto simp: log_geo_def)
  have "log_block l t = of_nat (unat (lstart l) + t + 1)" by (simp add: log_block_def)
  then show u: "unat (log_block l t) = unat (lstart l) + t + 1" using b by (simp only: unat_of_nat) simp
  then show "in_log l (log_block l t)" "unat (log_block l t) < nblk" "log_block l t \<noteq> lstart l"
    using assms by (auto simp: in_log_def log_geo_def)
qed

lemma log_block_inj: "log_geo nblk l \<Longrightarrow> n < nat (lsize l) \<Longrightarrow> inj_on (log_block l) {0..<n}"
proof (rule inj_onI)
  fix x y assume a: "log_geo nblk l" "n < nat (lsize l)" "x \<in> {0..<n}" "y \<in> {0..<n}" "log_block l x = log_block l y"
  have "x + 1 < nat (lsize l)" "y + 1 < nat (lsize l)" using a(2-4) by simp_all
  then have "unat (log_block l y) = unat (lstart l) + x + 1" "unat (log_block l y) = unat (lstart l) + y + 1"
    using log_block_props(1)[OF a(1), of x] log_block_props(1)[OF a(1), of y] unfolding a(5) by blast+
  then show "x = y" by linarith
qed

lemma logged_nth:
  assumes "log_lists nblk l" "t < nat (lh_n l)"
  shows "lh_at l t = Inr (logged l ! t)" "logged l ! t \<in> set (logged l)" "length (logged l) = nat (lh_n l)"
    "t + 1 < nat (lsize l)" "nat (lh_n l) \<le> 29"
proof -
  have n: "nat (lh_n l) < nat (lsize l)" "nat (lsize l) \<le> LOGSIZE" "length (lh_block l) = LOGSIZE"
    using assms(1) by (auto simp: log_lists_def log_geo_def)
  then show l: "length (logged l) = nat (lh_n l)" unfolding logged_def length_take by linarith
  then show "logged l ! t \<in> set (logged l)" using assms(2) by simp
  show "lh_at l t = Inr (logged l ! t)" using assms(2) less_le_trans[OF less_trans[OF assms(2) n(1)] n(2)]
    by (simp add: lh_at_def logged_def)
  show "t + 1 < nat (lsize l)" "nat (lh_n l) \<le> 29" using assms(2) n by (auto simp: LOGSIZE_def MAXOPBLOCKS_def)
qed

lemma write_log_body:
  fixes s :: "'d lsys"
  assumes run: "\<exists>c'. rbind (bread ROOTDEV a (bc s)) (\<lambda>(i, c1). rbind (bread ROOTDEV b c1) (\<lambda>(j, c2).
       rbind (bwrite i (set_data i (get_data c2 j) c2)) (\<lambda>c3. rbind (brelse j c3) (brelse i)))) = Inr c' \<and> P c'"
    and l: "ldev (lg s) = ROOTDEV" "log_block (lg s) t = a" "lh_at (lg s) t = Inr b"
  shows "\<exists>c'. rbind (bread (ldev (lg s)) (log_block (lg s) t) (bc s)) (\<lambda>(to, c1).
       rbind (lh_at (lg s) t) (\<lambda>src.
       rbind (bread (ldev (lg s)) src c1) (\<lambda>(from, c2).
       rbind (bwrite to (set_data to (get_data c2 from) c2)) (\<lambda>c3.
       rbind (brelse from c3) (\<lambda>c4.
       rbind (brelse to c4) (\<lambda>c5. Inr (s\<lparr>bc := c5\<rparr>))))))) = Inr (s\<lparr>bc := c'\<rparr>) \<and> P c'"
  using run l by (auto simp: rbind_eq_Inr split: prod.splits)

lemma install_body:
  fixes s :: "'d lsys"
  assumes run: "\<exists>c'. rbind (bread ROOTDEV a (bc s)) (\<lambda>(i, c1). rbind (bread ROOTDEV b c1) (\<lambda>(j, c2).
       rbind (bwrite j (set_data j (get_data c2 i) c2)) (\<lambda>c3. rbind (brelse i (if u then bunpin j c3 else c3)) (brelse j)))) = Inr c' \<and> P c'"
    and l: "ldev (lg s) = ROOTDEV" "log_block (lg s) t = a" "lh_at (lg s) t = Inr b" "u = (\<not> r)"
  shows "\<exists>c'. rbind (bread (ldev (lg s)) (log_block (lg s) t) (bc s)) (\<lambda>(lbuf, c1).
       rbind (lh_at (lg s) t) (\<lambda>dst.
       rbind (bread (ldev (lg s)) dst c1) (\<lambda>(dbuf, c2).
       rbind (bwrite dbuf (set_data dbuf (get_data c2 lbuf) c2)) (\<lambda>c3.
       rbind (brelse lbuf (if \<not> r then bunpin dbuf c3 else c3)) (\<lambda>c4.
       rbind (brelse dbuf c4) (\<lambda>c5. Inr (s\<lparr>bc := c5\<rparr>))))))) = Inr (s\<lparr>bc := c'\<rparr>) \<and> P c'"
  using run l by (auto simp: rbind_eq_Inr split: prod.splits)


text \<open>Between operations: nothing is locked, and exactly the logged blocks are pinned.\<close>

definition log_idle :: "nat \<Rightarrow> nat \<Rightarrow> 'd lsys \<Rightarrow> bool" where
  "log_idle nd nblk s \<longleftrightarrow> bc_inv nd nblk (bc s) \<and> log_lists nblk (lg s) \<and>
     (\<forall>b. \<not> bz (absb nblk (bc s)) b) \<and> (\<forall>b. rf (absb nblk (bc s)) b = of_bool (b \<in> set (logged (lg s))))"

definition log_copies :: "nat \<Rightarrow> 'd lsys \<Rightarrow> nat \<Rightarrow> (u32 \<times> byte list) list" where
  "log_copies nblk s k = map (\<lambda>t. (log_block (lg s) t, vw (absb nblk (bc s)) (logged (lg s) ! t))) [0..<k]"

definition home_copies :: "nat \<Rightarrow> 'd lsys \<Rightarrow> nat \<Rightarrow> (u32 \<times> byte list) list" where
  "home_copies nblk s k = map (\<lambda>t. (logged (lg s) ! t, vw (absb nblk (bc s)) (log_block (lg s) t))) [0..<k]"

lemma copies_Suc:
  "log_copies nblk s (Suc k) = log_copies nblk s k @ [(log_block (lg s) k, vw (absb nblk (bc s)) (logged (lg s) ! k))]"
  "home_copies nblk s (Suc k) = home_copies nblk s k @ [(logged (lg s) ! k, vw (absb nblk (bc s)) (log_block (lg s) k))]"
  by (simp_all add: log_copies_def home_copies_def)

lemma card_room:
  assumes "R \<subseteq> set xs" "length xs \<le> 29" "b \<in> set xs" "distinct xs"
  shows "card ({a, b} \<union> R) \<le> NBUF"
proof -
  have "card ({a, b} \<union> R) \<le> card (insert a (set xs))" by (intro card_mono) (use assms in auto)
  also have "\<dots> \<le> Suc (card (set xs))" by (simp add: card_insert_le_m1)
  also have "\<dots> \<le> 30" using assms(2,4) distinct_card by fastforce
  finally show ?thesis by (simp add: NBUF_def)
qed

lemma write_log_run:
  fixes s :: "'d lsys"
  assumes idle: "log_idle nd nblk s" and k: "k \<le> nat (lh_n (lg s))"
  shows "\<exists>c. rfold (\<lambda>tail s.
       rbind (bread (ldev (lg s)) (log_block (lg s) tail) (bc s)) (\<lambda>(to, c1).
       rbind (lh_at (lg s) tail) (\<lambda>src.
       rbind (bread (ldev (lg s)) src c1) (\<lambda>(from, c2).
       rbind (bwrite to (set_data to (get_data c2 from) c2)) (\<lambda>c3.
       rbind (brelse from c3) (\<lambda>c4.
       rbind (brelse to c4) (\<lambda>c5. Inr (s\<lparr>bc := c5\<rparr>)))))))) [0..<k] s = Inr (s\<lparr>bc := c\<rparr>) \<and> bc_inv nd nblk c \<and>
     absb nblk c = (absb nblk (bc s))\<lparr>vw := apply_writes (log_copies nblk s k) (vw (absb nblk (bc s))),
       dk := apply_writes (log_copies nblk s k) (dk (absb nblk (bc s))), tr := tr (absb nblk (bc s)) @ log_copies nblk s k\<rparr>"
  (is "\<exists>c. rfold ?body _ _ = _ \<and> _")
  using k
proof (induction k)
  case 0
  then show ?case using idle by (intro exI[of _ "bc s"]) (simp add: log_idle_def log_copies_def)
next
  case (Suc k)
  let ?l = "lg s" and ?A = "absb nblk (bc s)"
  let ?a = "log_block ?l k" and ?b = "logged ?l ! k"
  have ll: "log_lists nblk ?l" and geo: "log_geo nblk ?l" using idle by (simp_all add: log_idle_def log_lists_def)
  have kn: "k < nat (lh_n ?l)" using Suc.prems by simp
  note L = logged_nth[OF ll kn]
  note B = log_block_props[OF geo L(4)]
  obtain c where c: "rfold ?body [0..<k] s = Inr (s\<lparr>bc := c\<rparr>)" "bc_inv nd nblk c"
    "absb nblk c = ?A\<lparr>vw := apply_writes (log_copies nblk s k) (vw ?A),
       dk := apply_writes (log_copies nblk s k) (dk ?A), tr := tr ?A @ log_copies nblk s k\<rparr>"
    using Suc by auto
  have home: "unat ?b < nblk" "\<not> in_log ?l ?b" using ll L(2) by (auto simp: log_lists_def)
  have ne: "?a \<noteq> ?b" using B(2) home(2) by metis
  have rfc: "rf (absb nblk c) d = of_bool (d \<in> set (logged ?l))" "\<not> bz (absb nblk c) d" for d
    unfolding c(3) using idle by (simp_all add: log_idle_def)
  have room: "card ({?a, ?b} \<union> {b. 0 < rf (absb nblk c) b}) \<le> NBUF"
    unfolding rfc(1) by (rule card_room[of _ "logged ?l"]) (use L ll in \<open>auto simp: log_lists_def\<close>)
  have small: "rf (absb nblk c) d < 2 ^ 32 - 1" for d unfolding rfc(1) by simp
  have pos: "0 < rf (absb nblk c) ?b \<or> vw (absb nblk c) ?b = dk (absb nblk c) ?b" unfolding rfc(1) using L(2) by simp
  have nl: "vw (absb nblk c) ?b = vw ?A ?b"
  proof -
    have "?b \<notin> fst ` set (log_copies nblk s k)"
    proof
      assume "?b \<in> fst ` set (log_copies nblk s k)"
      then obtain t where "t < k" "?b = log_block ?l t" by (auto simp: log_copies_def)
      then show False using log_block_props(2)[OF geo, of t] L(4) home(2) by simp
    qed
    then show ?thesis unfolding c(3) by (simp add: apply_writes_other)
  qed
  let ?s = "s\<lparr>bc := c\<rparr>"
  let ?P = "\<lambda>c'. bc_inv nd nblk c' \<and> absb nblk c' = (absb nblk c)\<lparr>vw := (vw (absb nblk c))(?a := vw (absb nblk c) ?b),
       dk := (dk (absb nblk c))(?a := vw (absb nblk c) ?b), tr := tr (absb nblk c) @ [(?a, vw (absb nblk c) ?b)]\<rparr>"
  have "\<exists>c'. ?body k ?s = Inr (?s\<lparr>bc := c'\<rparr>) \<and> ?P c'"
    by (rule write_log_body[where a = ?a and b = ?b])
      (use bcache.copy_to[OF c(2) ne B(3) home(1) rfc(2) rfc(2) small small pos room] geo L(1) in \<open>simp_all add: log_geo_def\<close>)
  then obtain c' where c': "?body k ?s = Inr (?s\<lparr>bc := c'\<rparr>)" "bc_inv nd nblk c'"
    "absb nblk c' = (absb nblk c)\<lparr>vw := (vw (absb nblk c))(?a := vw (absb nblk c) ?b),
       dk := (dk (absb nblk c))(?a := vw (absb nblk c) ?b), tr := tr (absb nblk c) @ [(?a, vw (absb nblk c) ?b)]\<rparr>"
    by blast
  have "rfold ?body [0..<Suc k] s = Inr (s\<lparr>bc := c'\<rparr>)"
    using c(1) c'(1) by (simp add: rfold_append)
  moreover have "absb nblk c' = ?A\<lparr>vw := apply_writes (log_copies nblk s (Suc k)) (vw ?A),
       dk := apply_writes (log_copies nblk s (Suc k)) (dk ?A), tr := tr ?A @ log_copies nblk s (Suc k)\<rparr>"
    unfolding c'(3) nl copies_Suc by (simp add: c(3))
  ultimately show ?case using c'(2) by blast
qed


lemma install_run:
  fixes s :: "'d lsys"
  assumes inv: "bc_inv nd nblk (bc s)" and ll: "log_lists nblk (lg s)" and nbz: "\<And>b. \<not> bz (absb nblk (bc s)) b"
    and rf0: "rf (absb nblk (bc s)) = (\<lambda>b. of_bool (\<not> r \<and> b \<in> set (logged (lg s))))"
    and clean: "\<And>t. t < nat (lh_n (lg s)) \<Longrightarrow> vw (absb nblk (bc s)) (log_block (lg s) t) = dk (absb nblk (bc s)) (log_block (lg s) t)"
    and k: "k \<le> nat (lh_n (lg s))"
  shows "\<exists>c. rfold (\<lambda>tail s.
       rbind (bread (ldev (lg s)) (log_block (lg s) tail) (bc s)) (\<lambda>(lbuf, c1).
       rbind (lh_at (lg s) tail) (\<lambda>dst.
       rbind (bread (ldev (lg s)) dst c1) (\<lambda>(dbuf, c2).
       rbind (bwrite dbuf (set_data dbuf (get_data c2 lbuf) c2)) (\<lambda>c3.
       rbind (brelse lbuf (if \<not> r then bunpin dbuf c3 else c3)) (\<lambda>c4.
       rbind (brelse dbuf c4) (\<lambda>c5. Inr (s\<lparr>bc := c5\<rparr>)))))))) [0..<k] s = Inr (s\<lparr>bc := c\<rparr>) \<and> bc_inv nd nblk c \<and>
     absb nblk c = (absb nblk (bc s))\<lparr>vw := apply_writes (home_copies nblk s k) (vw (absb nblk (bc s))),
       dk := apply_writes (home_copies nblk s k) (dk (absb nblk (bc s))),
       rf := (\<lambda>b. of_bool (\<not> r \<and> b \<in> set (drop k (logged (lg s))))), tr := tr (absb nblk (bc s)) @ home_copies nblk s k\<rparr>"
  (is "\<exists>c. rfold ?body _ _ = _ \<and> _")
  using k
proof (induction k)
  case 0
  then show ?case using inv rf0 by (intro exI[of _ "bc s"]) (simp add: home_copies_def)
next
  case (Suc k)
  let ?l = "lg s" and ?A = "absb nblk (bc s)"
  let ?a = "log_block ?l k" and ?b = "logged ?l ! k"
  have geo: "log_geo nblk ?l" and dist: "distinct (logged ?l)" using ll by (simp_all add: log_lists_def)
  have kn: "k < nat (lh_n ?l)" using Suc.prems by simp
  note L = logged_nth[OF ll kn]
  note B = log_block_props[OF geo L(4)]
  obtain c where c: "rfold ?body [0..<k] s = Inr (s\<lparr>bc := c\<rparr>)" "bc_inv nd nblk c"
    "absb nblk c = ?A\<lparr>vw := apply_writes (home_copies nblk s k) (vw ?A),
       dk := apply_writes (home_copies nblk s k) (dk ?A), rf := (\<lambda>b. of_bool (\<not> r \<and> b \<in> set (drop k (logged ?l)))),
       tr := tr ?A @ home_copies nblk s k\<rparr>"
    using Suc by auto
  have home: "unat ?b < nblk" "\<not> in_log ?l ?b" using ll L(2) by (auto simp: log_lists_def)
  have ne: "?a \<noteq> ?b" using B(2) home(2) by metis
  have dr: "drop k (logged ?l) = ?b # drop (Suc k) (logged ?l)" using L(3) kn by (simp add: Cons_nth_drop_Suc)
  have nd: "?b \<notin> set (drop (Suc k) (logged ?l))" using dist distinct_drop[of "logged ?l" k] dr by simp
  have rfc: "rf (absb nblk c) d = of_bool (\<not> r \<and> d \<in> set (drop k (logged ?l)))" "\<not> bz (absb nblk c) d" for d
    unfolding c(3) using nbz by simp_all
  have room: "card ({?a, ?b} \<union> {b. 0 < rf (absb nblk c) b}) \<le> NBUF"
    unfolding rfc(1) by (rule card_room[of _ "logged ?l"]) (use L dist in \<open>auto dest: in_set_dropD\<close>)
  have small: "rf (absb nblk c) d < 2 ^ 32 - 1" for d unfolding rfc(1) by simp
  have pos: "0 < rf (absb nblk c) ?b" if "\<not> r" unfolding rfc(1) dr using that by simp
  have nl: "vw (absb nblk c) ?a = vw ?A ?a" "dk (absb nblk c) ?a = dk ?A ?a"
  proof -
    have "?a \<notin> fst ` set (home_copies nblk s k)"
    proof
      assume "?a \<in> fst ` set (home_copies nblk s k)"
      then obtain t where t: "t < k" "?a = logged ?l ! t" by (auto simp: home_copies_def)
      then have "logged ?l ! t \<in> set (logged ?l)" using L(3) kn by simp
      then show False using B(2) t(2) ll unfolding log_lists_def by metis
    qed
    then show "vw (absb nblk c) ?a = vw ?A ?a" "dk (absb nblk c) ?a = dk ?A ?a"
      unfolding c(3) by (simp_all add: apply_writes_other)
  qed
  have ca: "0 < rf (absb nblk c) ?a \<or> vw (absb nblk c) ?a = dk (absb nblk c) ?a"
    unfolding nl using clean[OF kn] by simp
  let ?s = "s\<lparr>bc := c\<rparr>"
  let ?P = "\<lambda>c'. bc_inv nd nblk c' \<and> absb nblk c' = (absb nblk c)\<lparr>vw := (vw (absb nblk c))(?b := vw (absb nblk c) ?a),
       dk := (dk (absb nblk c))(?b := vw (absb nblk c) ?a),
       rf := (rf (absb nblk c))(?b := if \<not> r then rf (absb nblk c) ?b - 1 else rf (absb nblk c) ?b),
       tr := tr (absb nblk c) @ [(?b, vw (absb nblk c) ?a)]\<rparr>"
  have "\<exists>c'. ?body k ?s = Inr (?s\<lparr>bc := c'\<rparr>) \<and> ?P c'"
    by (rule install_body[where a = ?a and b = ?b and u = "\<not> r"])
      (use bcache.copy_from[OF c(2) ne B(3) home(1) rfc(2) rfc(2) small small pos ca room] geo L(1) in \<open>simp_all add: log_geo_def\<close>)
  then obtain c' where c': "?body k ?s = Inr (?s\<lparr>bc := c'\<rparr>)" "?P c'" by blast
  have run: "rfold ?body [0..<Suc k] s = Inr (s\<lparr>bc := c'\<rparr>)" using c(1) c'(1) by (simp add: rfold_append)
  have rf': "(rf (absb nblk c))(?b := if \<not> r then rf (absb nblk c) ?b - 1 else rf (absb nblk c) ?b) =
      (\<lambda>b. of_bool (\<not> r \<and> b \<in> set (drop (Suc k) (logged ?l))))"
    unfolding fun_eq_iff fun_upd_apply rfc(1) dr using nd by auto
  have "absb nblk c' = ?A\<lparr>vw := apply_writes (home_copies nblk s (Suc k)) (vw ?A),
       dk := apply_writes (home_copies nblk s (Suc k)) (dk ?A),
       rf := (\<lambda>b. of_bool (\<not> r \<and> b \<in> set (drop (Suc k) (logged ?l)))), tr := tr ?A @ home_copies nblk s (Suc k)\<rparr>"
    using c'(2) unfolding rf' nl copies_Suc by (simp add: c(3))
  then show ?case using c'(2) run by blast
qed

lemma write_head_run:
  fixes s :: "'d lsys"
  assumes inv: "bc_inv nd nblk (bc s)" and geo: "log_geo nblk (lg s)" and n: "0 \<le> lh_n (lg s)" "lh_n (lg s) \<le> int LOGSIZE"
    and nbz: "\<not> bz (absb nblk (bc s)) (lstart (lg s))" and rf0: "rf (absb nblk (bc s)) (lstart (lg s)) = 0"
    and room: "card {b. 0 < rf (absb nblk (bc s)) b} < NBUF"
  shows "\<exists>c. write_head s = Inr (s\<lparr>bc := c\<rparr>) \<and> bc_inv nd nblk c \<and> length (vw (absb nblk (bc s)) (lstart (lg s))) = BSIZE \<and>
     absb nblk c = (absb nblk (bc s))\<lparr>
       vw := (vw (absb nblk (bc s)))(lstart (lg s) := enc_hdr (lg s) (vw (absb nblk (bc s)) (lstart (lg s)))),
       dk := (dk (absb nblk (bc s)))(lstart (lg s) := enc_hdr (lg s) (vw (absb nblk (bc s)) (lstart (lg s)))),
       tr := tr (absb nblk (bc s)) @ [(lstart (lg s), enc_hdr (lg s) (vw (absb nblk (bc s)) (lstart (lg s))))]\<rparr>"
proof -
  let ?l = "lg s" and ?b = "lstart (lg s)"
  have b: "unat ?b < nblk" "ldev ?l = ROOTDEV" using geo by (auto simp: log_geo_def)
  have sm: "rf (absb nblk (bc s)) ?b < 2 ^ 32 - 1" using rf0 by simp
  have e: "length (enc_hdr ?l d) = BSIZE" if "length d = BSIZE" for d by (rule enc_hdr_props(1)[OF n that])
  obtain c where c: "rbind (bread ROOTDEV ?b (bc s)) (\<lambda>(i, s1). rbind (bwrite i (set_data i (enc_hdr ?l (get_data s1 i)) s1)) (brelse i)) = Inr c"
    "bc_inv nd nblk c" "length (vw (absb nblk (bc s)) ?b) = BSIZE"
    "absb nblk c = (absb nblk (bc s))\<lparr>vw := (vw (absb nblk (bc s)))(?b := enc_hdr ?l (vw (absb nblk (bc s)) ?b)),
       dk := (dk (absb nblk (bc s)))(?b := enc_hdr ?l (vw (absb nblk (bc s)) ?b)),
       tr := tr (absb nblk (bc s)) @ [(?b, enc_hdr ?l (vw (absb nblk (bc s)) ?b))]\<rparr>"
    using bcache.modify_write[where f = "enc_hdr ?l", OF inv b(1) nbz sm disjI2[OF room] e] by blast
  have w: "write_hdr ?l d = Inr (enc_hdr ?l d)" for d using n by (intro write_hdr_enc) simp
  have "write_head s = Inr (s\<lparr>bc := c\<rparr>)"
    using c(1) b(2) by (auto simp: write_head_def w rbind_eq_Inr split: prod.splits)
  then show ?thesis using c(2-4) by blast
qed


section \<open>Commit\<close>

text \<open>Idle, with every change that is not on the disk in the log, and an empty log on the disk.\<close>

definition log_clean :: "nat \<Rightarrow> nat \<Rightarrow> 'd lsys \<Rightarrow> bool" where
  "log_clean nd nblk s \<longleftrightarrow> log_idle nd nblk s \<and>
     (\<forall>b. b \<notin> set (logged (lg s)) \<longrightarrow> vw (absb nblk (bc s)) b = dk (absb nblk (bc s)) b) \<and>
     hdr_n (dk (absb nblk (bc s)) (lstart (lg s))) = 0"

definition new_copies :: "nat \<Rightarrow> 'd lsys \<Rightarrow> (u32 \<times> byte list) list" where
  "new_copies nblk s = map (\<lambda>t. (logged (lg s) ! t, vw (absb nblk (bc s)) (logged (lg s) ! t))) [0..<nat (lh_n (lg s))]"

text \<open>The writes of a commit, in the order in which they reach the disk.\<close>

definition commit_writes :: "nat \<Rightarrow> 'd lsys \<Rightarrow> (u32 \<times> byte list) list" where
  "commit_writes nblk s =
     (let l = lg s; h = enc_hdr l (vw (absb nblk (bc s)) (lstart l))
      in log_copies nblk s (nat (lh_n l)) @ (lstart l, h) # new_copies nblk s @ [(lstart l, enc_hdr (l\<lparr>lh_n := 0\<rparr>) h)])"

lemma lists_small: "log_lists nblk l \<Longrightarrow> nat (lh_n l) < nat (lsize l) \<and> lh_n l \<le> int LOGSIZE \<and> length (logged l) = nat (lh_n l) \<and> length (logged l) \<le> 29"
  by (auto simp: log_lists_def log_geo_def logged_def LOGSIZE_def MAXOPBLOCKS_def)

lemma lstart_props:
  assumes "log_lists nblk l"
  shows "in_log l (lstart l)" "lstart l \<notin> set (logged l)"
    "\<And>t. t < nat (lh_n l) \<Longrightarrow> lstart l \<noteq> log_block l t"
proof -
  have geo: "log_geo nblk l" using assms by (simp add: log_lists_def)
  show i: "in_log l (lstart l)" using geo by (simp add: in_log_def log_geo_def)
  then show "lstart l \<notin> set (logged l)" using assms by (auto simp: log_lists_def)
  show "lstart l \<noteq> log_block l t" if "t < nat (lh_n l)" for t
    using log_block_props(4)[OF geo, of t] lists_small[OF assms] that by simp
qed

lemma refs_room: "set xs = R \<Longrightarrow> length xs \<le> 29 \<Longrightarrow> card R < NBUF"
  using card_length[of xs] by (auto simp: NBUF_def)

lemma commit_run:
  fixes s :: "'d lsys"
  assumes idle: "log_idle nd nblk s" and n: "0 < lh_n (lg s)"
    and clean: "\<And>b. b \<notin> set (logged (lg s)) \<Longrightarrow> vw (absb nblk (bc s)) b = dk (absb nblk (bc s)) b"
  shows "\<exists>c. commit s = Inr (s\<lparr>bc := c, lg := (lg s)\<lparr>lh_n := 0\<rparr>\<rparr>) \<and> bc_inv nd nblk c \<and>
     absb nblk c = (absb nblk (bc s))\<lparr>vw := apply_writes (commit_writes nblk s) (vw (absb nblk (bc s))),
       dk := apply_writes (commit_writes nblk s) (dk (absb nblk (bc s))), rf := (\<lambda>_. 0),
       tr := tr (absb nblk (bc s)) @ commit_writes nblk s\<rparr>"
proof -
  let ?l = "lg s" and ?A = "absb nblk (bc s)" and ?n = "nat (lh_n (lg s))" and ?b = "lstart (lg s)"
  have ll: "log_lists nblk ?l" and geo: "log_geo nblk ?l" and nbz: "\<And>b. \<not> bz ?A b"
    and rfA: "\<And>b. rf ?A b = of_bool (b \<in> set (logged ?l))"
    using idle by (simp_all add: log_idle_def log_lists_def)
  note sm = lists_small[OF ll] and st = lstart_props[OF ll]
  have room: "card {b. 0 < rf ?A b} < NBUF" unfolding rfA by (rule refs_room[of "logged ?l"]) (use sm in auto)
  obtain c1 where c1: "write_log s = Inr (s\<lparr>bc := c1\<rparr>)" "bc_inv nd nblk c1"
    "absb nblk c1 = ?A\<lparr>vw := apply_writes (log_copies nblk s ?n) (vw ?A),
       dk := apply_writes (log_copies nblk s ?n) (dk ?A), tr := tr ?A @ log_copies nblk s ?n\<rparr>"
    using write_log_run[OF idle order_refl] unfolding write_log_def by blast
  have stw: "?b \<notin> fst ` set (log_copies nblk s ?n)" 
  proof
    assume "?b \<in> fst ` set (log_copies nblk s ?n)"
    then obtain t where "t < ?n" "?b = log_block ?l t" by (auto simp: log_copies_def)
    then show False using st(3) by blast
  qed
  let ?h = "enc_hdr ?l (vw ?A ?b)"
  have v1: "vw (absb nblk c1) ?b = vw ?A ?b" unfolding c1(3) using apply_writes_other[OF stw] by simp
  obtain c2 where c2: "write_head (s\<lparr>bc := c1\<rparr>) = Inr (s\<lparr>bc := c2\<rparr>)" "bc_inv nd nblk c2" "length (vw ?A ?b) = BSIZE"
    "absb nblk c2 = (absb nblk c1)\<lparr>vw := (vw (absb nblk c1))(?b := ?h), dk := (dk (absb nblk c1))(?b := ?h),
       tr := tr (absb nblk c1) @ [(?b, ?h)]\<rparr>"
    using write_head_run[of nd nblk "s\<lparr>bc := c1\<rparr>"] c1(2) geo n sm nbz rfA st(2) room v1 c1(3) by auto
  let ?s2 = "s\<lparr>bc := c2\<rparr>"
  have vl: "vw (absb nblk c2) (log_block ?l t) = vw ?A (logged ?l ! t)" "dk (absb nblk c2) (log_block ?l t) = vw ?A (logged ?l ! t)"
    if "t < ?n" for t
  proof -
    have "log_block ?l t \<noteq> ?b" using st(3)[OF that] by simp
    moreover have "apply_writes (log_copies nblk s ?n) D (log_block ?l t) = vw ?A (logged ?l ! t)" for D
      unfolding log_copies_def using log_block_inj[OF geo] sm that by (intro apply_writes_map) auto
    ultimately show "vw (absb nblk c2) (log_block ?l t) = vw ?A (logged ?l ! t)"
      "dk (absb nblk c2) (log_block ?l t) = vw ?A (logged ?l ! t)" unfolding c2(4) c1(3) by simp_all
  qed
  have rf2: "rf (absb nblk c2) = (\<lambda>b. of_bool (\<not> False \<and> b \<in> set (logged ?l)))" unfolding c2(4) c1(3) using rfA by auto
  have nbz2: "\<not> bz (absb nblk c2) b" for b unfolding c2(4) c1(3) using nbz by simp
  have hc: "home_copies nblk ?s2 ?n = new_copies nblk s" unfolding home_copies_def new_copies_def using vl by simp
  obtain c3 where c3: "install_trans False ?s2 = Inr (s\<lparr>bc := c3\<rparr>)" "bc_inv nd nblk c3"
    "absb nblk c3 = (absb nblk c2)\<lparr>vw := apply_writes (new_copies nblk s) (vw (absb nblk c2)),
       dk := apply_writes (new_copies nblk s) (dk (absb nblk c2)), rf := (\<lambda>_. 0), tr := tr (absb nblk c2) @ new_copies nblk s\<rparr>"
    using install_run[of nd nblk ?s2 False ?n] c2(2) ll nbz2 rf2 vl sm unfolding install_trans_def hc by auto
  have "?b \<notin> fst ` set (new_copies nblk s)" using st(2) sm by (auto simp: new_copies_def)
  from apply_writes_other[OF this] have v3: "vw (absb nblk c3) ?b = ?h" by (simp add: c3(3) c2(4))
  let ?l4 = "?l\<lparr>lh_n := 0\<rparr>" let ?h4 = "enc_hdr ?l4 ?h" let ?s3 = "s\<lparr>bc := c3, lg := ?l4\<rparr>"
  have geo4: "log_geo nblk ?l4" using geo by (simp add: log_geo_def)
  have pre: "bc_inv nd nblk (bc ?s3)" "log_geo nblk (lg ?s3)" "0 \<le> lh_n (lg ?s3)" "lh_n (lg ?s3) \<le> int LOGSIZE"
    "\<not> bz (absb nblk (bc ?s3)) (lstart (lg ?s3))" "rf (absb nblk (bc ?s3)) (lstart (lg ?s3)) = 0"
    "card {b. 0 < rf (absb nblk (bc ?s3)) b} < NBUF"
    using c3(2) geo4 nbz2 by (simp_all add: c3(3) NBUF_def)
  have "\<exists>c. write_head ?s3 = Inr (?s3\<lparr>bc := c\<rparr>) \<and> bc_inv nd nblk c \<and>
    absb nblk c = (absb nblk c3)\<lparr>vw := (vw (absb nblk c3))(?b := ?h4), dk := (dk (absb nblk c3))(?b := ?h4),
       tr := tr (absb nblk c3) @ [(?b, ?h4)]\<rparr>"
    using write_head_run[OF pre] v3 by auto
  then obtain c4 where c4: "write_head ?s3 = Inr (?s3\<lparr>bc := c4\<rparr>)" "bc_inv nd nblk c4"
    "absb nblk c4 = (absb nblk c3)\<lparr>vw := (vw (absb nblk c3))(?b := ?h4), dk := (dk (absb nblk c3))(?b := ?h4),
       tr := tr (absb nblk c3) @ [(?b, ?h4)]\<rparr>" by blast
  have eq: "?s3\<lparr>bc := c4\<rparr> = s\<lparr>bc := c4, lg := ?l4\<rparr>" by (cases s) simp
  have cs: "commit s = Inr (s\<lparr>bc := c4, lg := ?l4\<rparr>)"
    using n c1(1) c2(1) c3(1) c4(1)[unfolded eq] by (simp add: commit_def)
  have "absb nblk c4 = ?A\<lparr>vw := apply_writes (commit_writes nblk s) (vw ?A), dk := apply_writes (commit_writes nblk s) (dk ?A),
       rf := (\<lambda>_. 0), tr := tr ?A @ commit_writes nblk s\<rparr>"
    unfolding c4(3) c3(3) c2(4) c1(3) commit_writes_def Let_def by simp
  then show ?thesis using cs c4(2) by blast
qed


section \<open>Recovery\<close>

text \<open>The state after a restart with the contents \<open>D\<close> of the disk: an empty cache.\<close>

definition rebooted :: "nat \<Rightarrow> nat \<Rightarrow> (u32 \<Rightarrow> byte list) \<Rightarrow> 'd lsys \<Rightarrow> bool" where
  "rebooted nd nblk D r \<longleftrightarrow> bc_inv nd nblk (bc r) \<and> vw (absb nblk (bc r)) = D \<and> dk (absb nblk (bc r)) = D \<and>
     rf (absb nblk (bc r)) = (\<lambda>_. 0) \<and> bz (absb nblk (bc r)) = (\<lambda>_. False) \<and> length (lh_block (lg r)) = LOGSIZE"

text \<open>The log found on a disk.\<close>

definition disk_log :: "(u32 \<Rightarrow> byte list) \<Rightarrow> u32 \<Rightarrow> u32 list" where
  "disk_log D st = map (\<lambda>i. get32l (4 + 4 * i) (D st)) [0..<nat (hdr_n (D st))]"

lemma read_head_run:
  fixes r :: "'d lsys"
  assumes reb: "rebooted nd nblk D r" and geo: "log_geo nblk (lg r)"
    and n: "0 \<le> hdr_n (D (lstart (lg r)))" "hdr_n (D (lstart (lg r))) \<le> int LOGSIZE"
  shows "\<exists>c bs. read_head r = Inr (r\<lparr>bc := c, lg := (lg r)\<lparr>lh_n := hdr_n (D (lstart (lg r))), lh_block := bs\<rparr>\<rparr>) \<and>
     bc_inv nd nblk c \<and> absb nblk c = absb nblk (bc r) \<and> length bs = LOGSIZE \<and> length (D (lstart (lg r))) = BSIZE \<and>
     take (nat (hdr_n (D (lstart (lg r))))) bs = disk_log D (lstart (lg r))"
proof -
  let ?b = "lstart (lg r)" and ?A = "absb nblk (bc r)"
  have A: "bc_inv nd nblk (bc r)" "vw ?A = D" "dk ?A = D" "rf ?A = (\<lambda>_. 0)" "bz ?A = (\<lambda>_. False)"
    "length (lh_block (lg r)) = LOGSIZE"
    using reb by (simp_all add: rebooted_def)
  have b: "unat ?b < nblk" "ldev (lg r) = ROOTDEV" using geo by (auto simp: log_geo_def)
  have rd0: "\<not> bz ?A ?b" "rf ?A ?b < 2 ^ 32 - 1" "0 < rf ?A ?b \<or> card {b. 0 < rf ?A b} < NBUF"
    using A(4,5) by (simp_all add: NBUF_def)
  obtain i c1 where c1: "bread ROOTDEV ?b (bc r) = Inr (i, c1)" "bc_inv nd nblk c1" "held c1 i ?b"
    "absb nblk c1 = ?A\<lparr>rf := (rf ?A)(?b := rf ?A ?b + 1), bz := (bz ?A)(?b := True)\<rparr>"
    using bcache.rd_ok[OF A(1) b(1) rd0] by blast
  have g: "get_data c1 i = D ?b" "length (D ?b) = BSIZE" using bcache.hd_facts[OF c1(2,3)] c1(4) A(2) by simp_all
  obtain c2 where c2: "brelse i c1 = Inr c2" "bc_inv nd nblk c2"
    "absb nblk c2 = (absb nblk c1)\<lparr>rf := (rf (absb nblk c1))(?b := rf (absb nblk c1) ?b - 1), bz := (bz (absb nblk c1))(?b := False)\<rparr>"
    using bcache.rel_ok[OF c1(2,3)] c1(4) A(2,3) by auto
  have "absb nblk c2 = ?A" unfolding c2(3) c1(4) using rd0(1) by (simp add: fun_upd_idem)
  let ?n = "nat (hdr_n (D ?b))"
  have nn: "?n \<le> LOGSIZE" using n(2) by linarith
  obtain bs where bs: "read_head_loop (D ?b) [0..<?n] ((lg r)\<lparr>lh_n := hdr_n (D ?b)\<rparr>) =
      Inr ((lg r)\<lparr>lh_n := hdr_n (D ?b), lh_block := bs\<rparr>)" "length bs = LOGSIZE" "\<forall>i<?n. bs ! i = get32l (4 + 4 * i) (D ?b)"
    using read_head_loop_run[of ?n "D ?b" "(lg r)\<lparr>lh_n := hdr_n (D ?b)\<rparr>"] nn g(2) A(6) by auto
  have "read_head r = Inr (r\<lparr>bc := c2, lg := (lg r)\<lparr>lh_n := hdr_n (D ?b), lh_block := bs\<rparr>\<rparr>)"
    using c1(1) c2(1) bs(1) b(2) g(1) by (simp add: read_head_def Let_def)
  moreover have "take ?n bs = disk_log D ?b"
    by (rule nth_equalityI) (use bs(2,3) nn in \<open>auto simp: disk_log_def\<close>)
  ultimately show ?thesis using c2(2) \<open>absb nblk c2 = ?A\<close> bs(2) g(2) by blast
qed

lemma recover_run:
  fixes r :: "'d lsys"
  assumes reb: "rebooted nd nblk D r" and geo: "log_geo nblk (lg r)"
    and n: "0 \<le> hdr_n (D (lstart (lg r)))" "hdr_n (D (lstart (lg r))) < lsize (lg r)"
    and L: "distinct (disk_log D (lstart (lg r)))" "\<forall>b \<in> set (disk_log D (lstart (lg r))). unat b < nblk \<and> \<not> in_log (lg r) b"
  shows "\<exists>r' bs. recover_from_log r = Inr r' \<and> bc_inv nd nblk (bc r') \<and> lg r' = (lg r)\<lparr>lh_n := 0, lh_block := bs\<rparr> \<and>
     length bs = LOGSIZE \<and> rf (absb nblk (bc r')) = (\<lambda>_. 0) \<and> bz (absb nblk (bc r')) = (\<lambda>_. False) \<and>
     vw (absb nblk (bc r')) = dk (absb nblk (bc r')) \<and> hdr_n (dk (absb nblk (bc r')) (lstart (lg r))) = 0 \<and>
     (\<forall>b. b \<noteq> lstart (lg r) \<longrightarrow> dk (absb nblk (bc r')) b = apply_writes (map (\<lambda>t. (disk_log D (lstart (lg r)) ! t,
          D (log_block (lg r) t))) [0..<nat (hdr_n (D (lstart (lg r))))]) D b)"
proof -
  let ?b = "lstart (lg r)" let ?n = "hdr_n (D ?b)"
  have ls: "lsize (lg r) \<le> int LOGSIZE" using geo by (simp add: log_geo_def)
  obtain c bs where c: "read_head r = Inr (r\<lparr>bc := c, lg := (lg r)\<lparr>lh_n := ?n, lh_block := bs\<rparr>\<rparr>)"
    "bc_inv nd nblk c" "absb nblk c = absb nblk (bc r)" "length bs = LOGSIZE" "length (D ?b) = BSIZE"
    "take (nat ?n) bs = disk_log D ?b"
    using read_head_run[OF reb geo n(1)] n(2) ls by auto
  let ?l = "(lg r)\<lparr>lh_n := ?n, lh_block := bs\<rparr>" let ?s = "r\<lparr>bc := c, lg := ?l\<rparr>"
  have A: "vw (absb nblk c) = D" "dk (absb nblk c) = D" "rf (absb nblk c) = (\<lambda>_. 0)" "bz (absb nblk c) = (\<lambda>_. False)"
    unfolding c(3) using reb by (simp_all add: rebooted_def)
  have lo: "logged ?l = disk_log D ?b" using c(6) by (simp add: logged_def)
  have lb: "log_block ?l = log_block (lg r)" by (simp add: log_block_def fun_eq_iff)
  have ll: "log_lists nblk ?l"
    unfolding log_lists_def lo using geo c(4) n L by (simp add: log_geo_def in_log_def)
  let ?W = "map (\<lambda>t. (disk_log D ?b ! t, D (log_block (lg r) t))) [0..<nat ?n]"
  have hc: "home_copies nblk ?s (nat ?n) = ?W" by (simp add: home_copies_def lo lb A)
  obtain c2 where c2: "install_trans True ?s = Inr (?s\<lparr>bc := c2\<rparr>)" "bc_inv nd nblk c2"
    "absb nblk c2 = (absb nblk c)\<lparr>vw := apply_writes ?W D, dk := apply_writes ?W D, rf := (\<lambda>_. 0), tr := tr (absb nblk c) @ ?W\<rparr>"
    using install_run[of nd nblk ?s True "nat ?n"] c(2) ll A unfolding install_trans_def hc by auto
  let ?l3 = "?l\<lparr>lh_n := 0\<rparr>" let ?s3 = "r\<lparr>bc := c2, lg := ?l3\<rparr>"
  have geo3: "log_geo nblk ?l3" using geo c(4) by (simp add: log_geo_def)
  have pre: "bc_inv nd nblk (bc ?s3)" "log_geo nblk (lg ?s3)" "0 \<le> lh_n (lg ?s3)" "lh_n (lg ?s3) \<le> int LOGSIZE"
    "\<not> bz (absb nblk (bc ?s3)) (lstart (lg ?s3))" "rf (absb nblk (bc ?s3)) (lstart (lg ?s3)) = 0"
    "card {b. 0 < rf (absb nblk (bc ?s3)) b} < NBUF"
    using c2(2) geo3 A by (simp_all add: c2(3) NBUF_def)
  obtain c3 where c3: "write_head ?s3 = Inr (?s3\<lparr>bc := c3\<rparr>)" "bc_inv nd nblk c3"
    "length (vw (absb nblk c2) ?b) = BSIZE"
    "absb nblk c3 = (absb nblk c2)\<lparr>vw := (vw (absb nblk c2))(?b := enc_hdr ?l3 (vw (absb nblk c2) ?b)),
       dk := (dk (absb nblk c2))(?b := enc_hdr ?l3 (vw (absb nblk c2) ?b)),
       tr := tr (absb nblk c2) @ [(?b, enc_hdr ?l3 (vw (absb nblk c2) ?b))]\<rparr>"
    using write_head_run[OF pre] by auto
  have run: "recover_from_log r = Inr (?s3\<lparr>bc := c3\<rparr>)"
    using c(1) c2(1) c3(1) by (simp add: recover_from_log_def)
  have h: "hdr_n (enc_hdr ?l3 (vw (absb nblk c2) ?b)) = 0" using enc_hdr_props(2)[of ?l3] c3(3) by simp
  show ?thesis
    by (rule exI[of _ "?s3\<lparr>bc := c3\<rparr>"], rule exI[of _ bs], unfold run)
      (use c3(2) c3(4) c2(3) A h c(4) in simp)
qed


section \<open>Crashes during a commit\<close>

lemma new_copies_logged:
  assumes "log_lists nblk (lg s)" "b \<in> set (logged (lg s))"
  shows "apply_writes (new_copies nblk s) D b = vw (absb nblk (bc s)) b"
proof -
  have len: "length (logged (lg s)) = nat (lh_n (lg s))" using lists_small[OF assms(1)] by simp
  have inj: "inj_on (\<lambda>t. logged (lg s) ! t) {0..<nat (lh_n (lg s))}"
    using assms(1) len by (auto simp: log_lists_def inj_on_def nth_eq_iff_index_eq)
  obtain t where t: "t < nat (lh_n (lg s))" "b = logged (lg s) ! t" using assms(2) len by (metis in_set_conv_nth)
  show ?thesis unfolding new_copies_def t(2) by (rule apply_writes_map[OF inj t(1)])
qed

lemma new_copies_vw:
  assumes "log_lists nblk (lg s)" "\<And>b. b \<notin> set (logged (lg s)) \<Longrightarrow> D b = vw (absb nblk (bc s)) b"
  shows "apply_writes (new_copies nblk s) D b = vw (absb nblk (bc s)) b"
proof (cases "b \<in> set (logged (lg s))")
  case True
  then show ?thesis by (rule new_copies_logged[OF assms(1)])
next
  case False
  then have "b \<notin> fst ` set (new_copies nblk s)"
    using lists_small[OF assms(1)] by (auto simp: new_copies_def)
  then show ?thesis using assms(2)[OF False] by (simp add: apply_writes_other)
qed

text \<open>The blocks of the disk after the first \<open>k\<close> writes of a commit, for the log that is found there.\<close>

lemma commit_prefix:
  fixes s :: "'d lsys"
  assumes cl: "log_clean nd nblk s" and len: "length (vw (absb nblk (bc s)) (lstart (lg s))) = BSIZE"
    and k: "k \<le> length (commit_writes nblk s)"
    and D: "D = apply_writes (take k (commit_writes nblk s)) (dk (absb nblk (bc s)))"
  shows "(hdr_n (D (lstart (lg s))) = 0 \<and> (\<forall>b. \<not> in_log (lg s) b \<longrightarrow> D b = dk (absb nblk (bc s)) b)) \<or>
     (hdr_n (D (lstart (lg s))) = 0 \<and> (\<forall>b. \<not> in_log (lg s) b \<longrightarrow> D b = vw (absb nblk (bc s)) b)) \<or>
     (hdr_n (D (lstart (lg s))) = lh_n (lg s) \<and> disk_log D (lstart (lg s)) = logged (lg s) \<and>
      (\<forall>t<nat (lh_n (lg s)). D (log_block (lg s) t) = vw (absb nblk (bc s)) (logged (lg s) ! t)) \<and>
      (\<forall>b. \<not> in_log (lg s) b \<longrightarrow> b \<notin> set (logged (lg s)) \<longrightarrow> D b = vw (absb nblk (bc s)) b))"
proof -
  let ?l = "lg s" and ?A = "absb nblk (bc s)" and ?n = "nat (lh_n (lg s))" and ?b = "lstart (lg s)"
  let ?W1 = "log_copies nblk s ?n" and ?W3 = "new_copies nblk s" and ?h = "enc_hdr ?l (vw ?A ?b)"
  have ll: "log_lists nblk ?l" and geo: "log_geo nblk ?l" and clean: "\<And>b. b \<notin> set (logged ?l) \<Longrightarrow> vw ?A b = dk ?A b"
    and h0: "hdr_n (dk ?A ?b) = 0"
    using cl by (simp_all add: log_clean_def log_idle_def log_lists_def)
  note sm = lists_small[OF ll] and st = lstart_props[OF ll]
  have n0: "0 \<le> lh_n ?l" using ll by (simp add: log_lists_def)
  note E = enc_hdr_props[OF n0 _ len]
  have W1: "fst ` set (take j ?W1) \<subseteq> {b. in_log ?l b \<and> b \<noteq> ?b}" for j
  proof
    fix x assume "x \<in> fst ` set (take j ?W1)"
    then have "x \<in> fst ` set ?W1" by (auto dest: in_set_takeD)
    then obtain t where t: "t < ?n" "x = log_block ?l t" by (auto simp: log_copies_def)
    then show "x \<in> {b. in_log ?l b \<and> b \<noteq> ?b}" using log_block_props(2,4)[OF geo, of t] sm by simp
  qed
  have W3: "fst ` set (take j ?W3) \<subseteq> set (logged ?l)" for j
    using sm by (auto simp: new_copies_def dest!: in_set_takeD)
  have home: "\<not> in_log ?l b" if "b \<in> set (logged ?l)" for b using ll that by (auto simp: log_lists_def)
  have lw: "length ?W1 = ?n" "length ?W3 = ?n" by (simp_all add: log_copies_def new_copies_def)
  have cw: "commit_writes nblk s = ?W1 @ (?b, ?h) # ?W3 @ [(?b, enc_hdr (?l\<lparr>lh_n := 0\<rparr>) ?h)]" by (simp add: commit_writes_def Let_def)
  consider "k \<le> ?n" | j where "k = ?n + 1 + j" "j \<le> ?n" | "k = 2 * ?n + 2"
  proof -
    have kk: "k \<le> 2 * ?n + 2" using k unfolding cw by (simp add: lw)
    have "k = ?n + 1 + (k - ?n - 1) \<and> k - ?n - 1 \<le> ?n" if "\<not> k \<le> ?n" "k \<noteq> 2 * ?n + 2" using that kk by linarith
    then show ?thesis using that by blast
  qed
  then show ?thesis
  proof cases
    case 1
    have D1: "D = apply_writes (take k ?W1) (dk ?A)" unfolding D cw using 1 lw by simp
    have "D ?b = dk ?A ?b" unfolding D1 using W1[of k] by (intro apply_writes_other) auto
    moreover have "D b = dk ?A b" if "\<not> in_log ?l b" for b unfolding D1 using W1[of k] that by (intro apply_writes_other) auto
    ultimately show ?thesis using h0 by simp
  next
    case 2
    let ?D2 = "(apply_writes ?W1 (dk ?A))(?b := ?h)"
    have "take k (commit_writes nblk s) = ?W1 @ (?b, ?h) # take j ?W3"
      unfolding cw using 2 lw by (simp add: take_Cons')
    then have D2: "D = apply_writes (take j ?W3) ?D2" unfolding D by simp
    have Db: "D ?b = ?h" unfolding D2 using W3[of j] st(2) by (subst apply_writes_other) auto
    have "D (log_block ?l t) = vw ?A (logged ?l ! t)" if "t < ?n" for t
    proof -
      have i: "in_log ?l (log_block ?l t)" "log_block ?l t \<noteq> ?b" using log_block_props(2,4)[OF geo, of t] sm that by auto
      have "D (log_block ?l t) = apply_writes ?W1 (dk ?A) (log_block ?l t)"
        unfolding D2 using W3[of j] home i by (subst apply_writes_other) auto
      also have "\<dots> = vw ?A (logged ?l ! t)"
        unfolding log_copies_def using log_block_inj[OF geo] sm that by (intro apply_writes_map) auto
      finally show ?thesis .
    qed
    moreover have "D b = vw ?A b" if "\<not> in_log ?l b" "b \<notin> set (logged ?l)" for b
    proof -
      have "D b = apply_writes ?W1 (dk ?A) b" unfolding D2 using W3[of j] that st(1) by (subst apply_writes_other) auto
      also have "\<dots> = dk ?A b" using W1[of ?n] lw that by (intro apply_writes_other) auto
      finally show ?thesis using clean[OF that(2)] by simp
    qed
    moreover have "hdr_n (D ?b) = lh_n ?l" unfolding Db using E(2) sm by simp
    moreover have "disk_log D ?b = logged ?l"
      unfolding disk_log_def Db using E(2,3) sm by (intro nth_equalityI) (auto simp: logged_def)
    ultimately show ?thesis by blast
  next
    case 3
    let ?D2 = "(apply_writes ?W1 (dk ?A))(?b := ?h)" and ?h4 = "enc_hdr (?l\<lparr>lh_n := 0\<rparr>) ?h"
    have D3: "D = (apply_writes ?W3 ?D2)(?b := ?h4)" unfolding D using 3 by (simp add: cw lw)
    have "hdr_n (D ?b) = 0" unfolding D3 using enc_hdr_props(2)[of "?l\<lparr>lh_n := 0\<rparr>" ?h] E(1) sm by simp
    moreover have "D b = vw ?A b" if nl: "\<not> in_log ?l b" for b
    proof -
      have "D b = apply_writes ?W3 ?D2 b" unfolding D3 using nl st(1) by auto
      also have "\<dots> = apply_writes ?W3 (vw ?A) b"
      proof (cases "b \<in> set (logged ?l)")
        case True
        then show ?thesis using new_copies_logged[OF ll] by simp
      next
        case False
        then have "b \<notin> fst ` set ?W3" using W3[of ?n] lw by auto
        moreover have "apply_writes ?W1 (dk ?A) b = dk ?A b" using nl W1[of ?n] lw by (intro apply_writes_other) auto
        moreover have "b \<noteq> ?b" using nl st(1) by blast
        ultimately have "apply_writes ?W3 ?D2 b = dk ?A b" "apply_writes ?W3 (vw ?A) b = vw ?A b"
          by (simp_all add: apply_writes_other)
        then show ?thesis using clean[OF False] by simp
      qed
      also have "\<dots> = vw ?A b" by (rule new_copies_vw[OF ll]) simp
      finally show ?thesis .
    qed
    ultimately show ?thesis by blast
  qed
qed


lemma crash_recovery:
  fixes s r :: "'d lsys"
  assumes cl: "log_clean nd nblk s" and len: "length (vw (absb nblk (bc s)) (lstart (lg s))) = BSIZE"
    and k: "k \<le> length (commit_writes nblk s)"
    and reb: "rebooted nd nblk (apply_writes (take k (commit_writes nblk s)) (dk (absb nblk (bc s)))) r"
    and same: "lstart (lg r) = lstart (lg s)" "lsize (lg r) = lsize (lg s)" "ldev (lg r) = ldev (lg s)"
  shows "\<exists>r'. recover_from_log r = Inr r' \<and> log_clean nd nblk r' \<and> lh_n (lg r') = 0 \<and>
     ((\<forall>b. \<not> in_log (lg s) b \<longrightarrow> dk (absb nblk (bc r')) b = dk (absb nblk (bc s)) b) \<or>
      (\<forall>b. \<not> in_log (lg s) b \<longrightarrow> dk (absb nblk (bc r')) b = vw (absb nblk (bc s)) b))"
proof -
  let ?l = "lg s" and ?A = "absb nblk (bc s)" and ?b = "lstart (lg s)"
  let ?D = "apply_writes (take k (commit_writes nblk s)) (dk ?A)"
  have ll: "log_lists nblk ?l" and geo: "log_geo nblk ?l"
    using cl by (simp_all add: log_clean_def log_idle_def log_lists_def)
  note sm = lists_small[OF ll] and st = lstart_props[OF ll]
  have geor: "log_geo nblk (lg r)" using geo same reb by (simp add: log_geo_def rebooted_def)
  have lr: "log_block (lg r) = log_block ?l" "in_log (lg r) = in_log ?l" by (auto simp: fun_eq_iff log_block_def in_log_def same)
  note P = commit_prefix[OF cl len k refl]
  have hn: "0 \<le> hdr_n (?D ?b)" "hdr_n (?D ?b) < lsize ?l" using P ll by (auto simp: log_lists_def log_geo_def)
  have dl: "disk_log ?D ?b = [] \<or> disk_log ?D ?b = logged ?l" using P by (auto simp: disk_log_def)
  have L: "distinct (disk_log ?D ?b)" "\<forall>b \<in> set (disk_log ?D ?b). unat b < nblk \<and> \<not> in_log ?l b"
    using dl ll by (auto simp: log_lists_def)
  obtain r' bs where r': "recover_from_log r = Inr r'" "bc_inv nd nblk (bc r')" "lg r' = (lg r)\<lparr>lh_n := 0, lh_block := bs\<rparr>"
     "length bs = LOGSIZE" "rf (absb nblk (bc r')) = (\<lambda>_. 0)" "bz (absb nblk (bc r')) = (\<lambda>_. False)"
     "vw (absb nblk (bc r')) = dk (absb nblk (bc r'))" "hdr_n (dk (absb nblk (bc r')) ?b) = 0"
     "\<And>b. b \<noteq> ?b \<Longrightarrow> dk (absb nblk (bc r')) b = apply_writes (map (\<lambda>t. (disk_log ?D ?b ! t,
          ?D (log_block ?l t))) [0..<nat (hdr_n (?D ?b))]) ?D b"
    using recover_run[OF reb geor] hn L unfolding lr same by blast
  have lg': "lh_n (lg r') = 0" "lstart (lg r') = ?b" "log_geo nblk (lg r')" "logged (lg r') = []" "1 \<le> lsize (lg r')"
    using geor r'(4) by (simp_all add: r'(3) same log_geo_def logged_def)
  have clean: "log_clean nd nblk r'"
    using lg' r'(2,5,6,7,8) by (simp add: log_clean_def log_idle_def log_lists_def)
  have nst: "b \<noteq> ?b" if "\<not> in_log ?l b" for b using that st(1) by blast
  from P show ?thesis
  proof (elim disjE conjE)
    assume a: "hdr_n (?D ?b) = 0" "\<forall>b. \<not> in_log ?l b \<longrightarrow> ?D b = dk ?A b"
    then have "\<forall>b. \<not> in_log ?l b \<longrightarrow> dk (absb nblk (bc r')) b = dk ?A b" using r'(9) nst by simp
    then show ?thesis using r'(1) clean lg'(1) by blast
  next
    assume a: "hdr_n (?D ?b) = 0" "\<forall>b. \<not> in_log ?l b \<longrightarrow> ?D b = vw ?A b"
    then have "\<forall>b. \<not> in_log ?l b \<longrightarrow> dk (absb nblk (bc r')) b = vw ?A b" using r'(9) nst by simp
    then show ?thesis using r'(1) clean lg'(1) by blast
  next
    assume a: "hdr_n (?D ?b) = lh_n ?l" "disk_log ?D ?b = logged ?l"
      "\<forall>t<nat (lh_n ?l). ?D (log_block ?l t) = vw ?A (logged ?l ! t)"
      "\<forall>b. \<not> in_log ?l b \<longrightarrow> b \<notin> set (logged ?l) \<longrightarrow> ?D b = vw ?A b"
    have w: "map (\<lambda>t. (disk_log ?D ?b ! t, ?D (log_block ?l t))) [0..<nat (hdr_n (?D ?b))] = new_copies nblk s"
      unfolding a(1,2) new_copies_def using a(3) by simp
    have "dk (absb nblk (bc r')) b = vw ?A b" if "\<not> in_log ?l b" for b
    proof -
      have "dk (absb nblk (bc r')) b = apply_writes (new_copies nblk s) ?D b" using r'(9)[OF nst[OF that]] unfolding w .
      also have "\<dots> = apply_writes (new_copies nblk s) (\<lambda>b. if in_log ?l b then vw ?A b else ?D b) b"
        using that by (intro apply_writes_cong) simp
      also have "\<dots> = vw ?A b" by (rule new_copies_vw[OF ll]) (use a(4) in simp)
      finally show ?thesis .
    qed
    then show ?thesis using r'(1) clean lg'(1) by blast
  qed
qed


section \<open>Operations inside a transaction\<close>

text \<open>The state while the blocks in \<open>H\<close> are locked by the current operation.\<close>

definition log_txn :: "nat \<Rightarrow> nat \<Rightarrow> u32 set \<Rightarrow> 'd lsys \<Rightarrow> bool" where
  "log_txn nd nblk H s \<longleftrightarrow> bc_inv nd nblk (bc s) \<and> log_lists nblk (lg s) \<and>
     (\<forall>b. bz (absb nblk (bc s)) b \<longleftrightarrow> b \<in> H) \<and>
     (\<forall>b. rf (absb nblk (bc s)) b = of_bool (b \<in> set (logged (lg s))) + of_bool (b \<in> H)) \<and>
     (\<forall>b. b \<notin> set (logged (lg s)) \<longrightarrow> b \<notin> H \<longrightarrow> vw (absb nblk (bc s)) b = dk (absb nblk (bc s)) b) \<and>
     hdr_n (dk (absb nblk (bc s)) (lstart (lg s))) = 0"

lemma log_txn_empty: "log_txn nd nblk {} s \<longleftrightarrow> log_clean nd nblk s"
  by (auto simp: log_txn_def log_clean_def log_idle_def)

lemma txn_bread:
  fixes s :: "'d lsys"
  assumes t: "log_txn nd nblk H s" and b: "unat b < nblk" "b \<notin> H" and room: "card (set (logged (lg s)) \<union> H) < NBUF"
  shows "\<exists>i c. bread ROOTDEV b (bc s) = Inr (i, c) \<and> held c i b \<and> log_txn nd nblk (insert b H) (s\<lparr>bc := c\<rparr>) \<and>
     get_data c i = vw (absb nblk (bc s)) b \<and> vw (absb nblk c) = vw (absb nblk (bc s)) \<and> dk (absb nblk c) = dk (absb nblk (bc s)) \<and>
     (\<forall>j d. held (bc s) j d \<longrightarrow> held c j d \<and> j \<noteq> i)"
proof -
  let ?A = "absb nblk (bc s)"
  have T: "bc_inv nd nblk (bc s)" "\<And>b. bz ?A b \<longleftrightarrow> b \<in> H" "\<And>b. rf ?A b = of_bool (b \<in> set (logged (lg s))) + of_bool (b \<in> H)"
    using t by (simp_all add: log_txn_def)
  have e: "{b. 0 < rf ?A b} = set (logged (lg s)) \<union> H" unfolding T(3) by auto
  have pre: "\<not> bz ?A b" "rf ?A b < 2 ^ 32 - 1" "0 < rf ?A b \<or> card {b. 0 < rf ?A b} < NBUF"
    using T(2) b(2) room unfolding e by (simp_all add: T(3))
  obtain i c where c: "bread ROOTDEV b (bc s) = Inr (i, c)" "bc_inv nd nblk c" "held c i b"
    "absb nblk c = ?A\<lparr>rf := (rf ?A)(b := rf ?A b + 1), bz := (bz ?A)(b := True)\<rparr>"
    "\<forall>j d. held (bc s) j d \<longrightarrow> j \<noteq> i \<and> held c j d"
    using bcache.rd_ok[OF T(1) b(1) pre] by blast
  have g: "get_data c i = vw ?A b" using bcache.hd_facts[OF c(2,3)] c(4) by simp
  have "log_txn nd nblk (insert b H) (s\<lparr>bc := c\<rparr>)"
    using t c(2) b(2) by (auto simp: log_txn_def c(4))
  then show ?thesis using c g by (intro exI[of _ i] exI[of _ c]) simp
qed

lemma txn_set:
  fixes s :: "'d lsys"
  assumes t: "log_txn nd nblk H s" and h: "held (bc s) i b" and d: "length d = BSIZE"
  shows "log_txn nd nblk H (s\<lparr>bc := set_data i d (bc s)\<rparr>)"
    "vw (absb nblk (set_data i d (bc s))) = (vw (absb nblk (bc s)))(b := d)" "dk (absb nblk (set_data i d (bc s))) = dk (absb nblk (bc s))"
    "held (bc s) j c \<Longrightarrow> held (set_data i d (bc s)) j c"
proof -
  have inv: "bc_inv nd nblk (bc s)" using t by (simp add: log_txn_def)
  have p: "bc_inv nd nblk (set_data i d (bc s))"
    "absb nblk (set_data i d (bc s)) = (absb nblk (bc s))\<lparr>vw := (vw (absb nblk (bc s)))(b := d)\<rparr>"
    using bcache.put_ok[OF inv h d] by simp_all
  have "b \<in> H" using bcache.hd_facts[OF inv h] t by (simp add: log_txn_def)
  then show "log_txn nd nblk H (s\<lparr>bc := set_data i d (bc s)\<rparr>)" using t p by (auto simp: log_txn_def)
  show "vw (absb nblk (set_data i d (bc s))) = (vw (absb nblk (bc s)))(b := d)"
    "dk (absb nblk (set_data i d (bc s))) = dk (absb nblk (bc s))" using p(2) by simp_all
  show "held (set_data i d (bc s)) j c" if "held (bc s) j c" using bcache.put_ok[OF inv h d] that by simp
qed

lemma find_logged_run:
  assumes "log_lists nblk l"
  shows "\<exists>i. find_logged l b [0..<nat (lh_n l)] = Inr i \<and> (if b \<in> set (logged l) then i < nat (lh_n l) \<and> logged l ! i = b else i = nat (lh_n l))"
proof -
  have "\<exists>i. find_logged l b [m..<nat (lh_n l)] = Inr i \<and>
     (if b \<in> set (drop m (logged l)) then i < nat (lh_n l) \<and> logged l ! i = b else i = nat (lh_n l))" if "m \<le> nat (lh_n l)" for m
    using that
  proof (induction "nat (lh_n l) - m" arbitrary: m)
    case 0
    then show ?case using lists_small[OF assms] by simp
  next
    case (Suc k)
    have m: "m < nat (lh_n l)" using Suc(2) by simp
    note L = logged_nth[OF assms m]
    have dr: "drop m (logged l) = logged l ! m # drop (Suc m) (logged l)" using L(3) m by (simp add: Cons_nth_drop_Suc)
    show ?case
    proof (cases "logged l ! m = b")
      case True
      then show ?thesis using m L(1) dr by (intro exI[of _ m]) (simp add: upt_conv_Cons)
    next
      case False
      have "k = nat (lh_n l) - Suc m" "Suc m \<le> nat (lh_n l)" using Suc(2) by simp_all
      from Suc(1)[OF this] show ?thesis using m L(1) dr False by (simp add: upt_conv_Cons)
    qed
  qed
  from this[of 0] show ?thesis by simp
qed

lemma log_write_run:
  fixes s :: "'d lsys"
  assumes inv: "bc_inv nd nblk (bc s)" and h: "held (bc s) i b" and ll: "log_lists nblk (lg s)"
    and sp: "lh_n (lg s) < lsize (lg s) - 1" and o: "1 \<le> outstanding (lg s)" and b: "\<not> in_log (lg s) b"
    and m: "rf (absb nblk (bc s)) b < 2 ^ 32 - 1"
  shows "\<exists>l c. log_write i s = Inr (s\<lparr>bc := c, lg := l\<rparr>) \<and> log_lists nblk l \<and> set (logged l) = insert b (set (logged (lg s))) \<and>
     l = (lg s)\<lparr>lh_n := (if b \<in> set (logged (lg s)) then lh_n (lg s) else lh_n (lg s) + 1), lh_block := lh_block l\<rparr> \<and>
     bc_inv nd nblk c \<and> (\<forall>j d. held (bc s) j d \<longrightarrow> held c j d) \<and>
     absb nblk c = (absb nblk (bc s))\<lparr>rf := (rf (absb nblk (bc s)))(b := rf (absb nblk (bc s)) b + of_bool (b \<notin> set (logged (lg s))))\<rparr>"
proof -
  let ?l = "lg s" and ?n = "nat (lh_n (lg s))"
  note sm = lists_small[OF ll]
  have geo: "log_geo nblk ?l" "0 \<le> lh_n ?l" "distinct (logged ?l)" "\<forall>b \<in> set (logged ?l). unat b < nblk \<and> \<not> in_log ?l b"
    using ll by (simp_all add: log_lists_def)
  have ls: "lsize ?l \<le> 30" "length (lh_block ?l) = 30" using geo(1) by (simp_all add: log_geo_def LOGSIZE_def MAXOPBLOCKS_def)
  have bn: "b_blockno (bufs (bc s) i) = b" "unat b < nblk" using h heldD(9)[OF inv h] by (simp_all add: held_def cores_def)
  obtain k where k: "find_logged ?l b [0..<?n] = Inr k"
    "if b \<in> set (logged ?l) then k < ?n \<and> logged ?l ! k = b else k = ?n"
    using find_logged_run[OF ll] by blast
  have kL: "k < LOGSIZE" using k(2) sp ls(1) geo(2) by (auto simp: LOGSIZE_def MAXOPBLOCKS_def split: if_splits)
  have start: "log_write i s = (let l1 = ?l\<lparr>lh_block := (lh_block ?l)[k := b]\<rparr> in
        if int k = lh_n l1 then Inr (s\<lparr>bc := bpin i (bc s), lg := l1\<lparr>lh_n := lh_n l1 + 1\<rparr>\<rparr>) else Inr (s\<lparr>lg := l1\<rparr>))"
    using sp o ls(1) kL k(1) unfolding log_write_def Let_def bn(1) by (simp add: LOGSIZE_def MAXOPBLOCKS_def)
  show ?thesis
  proof (cases "b \<in> set (logged ?l)")
    case True
    then have kk: "k < ?n" "logged ?l ! k = b" using k(2) by simp_all
    have "lh_block ?l ! k = b" using kk by (simp add: logged_def)
    then have "(lh_block ?l)[k := b] = lh_block ?l" by (metis list_update_id)
    then have "log_write i s = Inr s" using start kk(1) by (simp add: Let_def)
    then show ?thesis using True ll inv by (intro exI[of _ ?l] exI[of _ "bc s"]) (auto simp: fun_upd_idem)
  next
    case False
    then have kk: "k = ?n" using k(2) by simp
    let ?l1 = "?l\<lparr>lh_n := lh_n ?l + 1, lh_block := (lh_block ?l)[?n := b]\<rparr>"
    have run: "log_write i s = Inr (s\<lparr>bc := bpin i (bc s), lg := ?l1\<rparr>)"
      using start kk geo(2) by (simp add: Let_def)
    have lo: "logged ?l1 = logged ?l @ [b]"
    proof -
      have "?n < length (lh_block ?l)" using sp ls geo(2) by linarith
      then show ?thesis using geo(2) by (simp add: logged_def nat_add_distrib take_Suc_conv_app_nth)
    qed
    have il: "in_log ?l1 = in_log ?l" by (simp add: fun_eq_iff in_log_def)
    have "log_lists nblk ?l1"
      unfolding log_lists_def lo il using geo False b bn(2) sp by (auto simp: log_geo_def)
    moreover have "set (logged ?l1) = insert b (set (logged ?l))" unfolding lo by auto
    moreover note bcache.pin_ok[OF inv h m]
    ultimately show ?thesis using run False by (intro exI[of _ ?l1] exI[of _ "bpin i (bc s)"]) simp
  qed
qed


text \<open>What an operation leaves alone of the log: its place, and the number of operations.\<close>

definition same_log :: "logst \<Rightarrow> logst \<Rightarrow> bool" where
  "same_log l l' \<longleftrightarrow> lstart l' = lstart l \<and> lsize l' = lsize l \<and> ldev l' = ldev l \<and> outstanding l' = outstanding l \<and>
     committing l' = committing l"

lemma txn_log_write:
  fixes s :: "'d lsys"
  assumes t: "log_txn nd nblk H s" and h: "held (bc s) i b"
    and sp: "lh_n (lg s) < lsize (lg s) - 1" and o: "1 \<le> outstanding (lg s)" and b: "\<not> in_log (lg s) b"
  shows "\<exists>s'. log_write i s = Inr s' \<and> log_txn nd nblk H s' \<and> same_log (lg s) (lg s') \<and>
     set (logged (lg s')) = insert b (set (logged (lg s))) \<and>
     lh_n (lg s') = (if b \<in> set (logged (lg s)) then lh_n (lg s) else lh_n (lg s) + 1) \<and>
     vw (absb nblk (bc s')) = vw (absb nblk (bc s)) \<and> dk (absb nblk (bc s')) = dk (absb nblk (bc s)) \<and>
     (\<forall>j d. held (bc s) j d \<longrightarrow> held (bc s') j d)"
proof -
  let ?A = "absb nblk (bc s)"
  have T: "bc_inv nd nblk (bc s)" "log_lists nblk (lg s)" "\<And>b. bz ?A b \<longleftrightarrow> b \<in> H"
    "\<And>b. rf ?A b = of_bool (b \<in> set (logged (lg s))) + of_bool (b \<in> H)"
    using t by (simp_all add: log_txn_def)
  have m: "rf ?A b < 2 ^ 32 - 1" unfolding T(4) by simp
  obtain l c where l: "log_write i s = Inr (s\<lparr>bc := c, lg := l\<rparr>)" "log_lists nblk l" "set (logged l) = insert b (set (logged (lg s)))"
     "l = (lg s)\<lparr>lh_n := (if b \<in> set (logged (lg s)) then lh_n (lg s) else lh_n (lg s) + 1), lh_block := lh_block l\<rparr>"
     "bc_inv nd nblk c" "\<forall>j d. held (bc s) j d \<longrightarrow> held c j d"
     "absb nblk c = ?A\<lparr>rf := (rf ?A)(b := rf ?A b + of_bool (b \<notin> set (logged (lg s))))\<rparr>"
    using log_write_run[OF T(1) h T(2) sp o b m] by blast
  have st: "lstart l = lstart (lg s)" "same_log (lg s) l" and n: "lh_n l = (if b \<in> set (logged (lg s)) then lh_n (lg s) else lh_n (lg s) + 1)"
    by (subst l(4); simp add: same_log_def)+
  have bH: "b \<in> H" using bcache.hd_facts[OF T(1) h] T(3) by simp
  have "log_txn nd nblk H (s\<lparr>bc := c, lg := l\<rparr>)"
    using t l(2,5) bH st(1) by (auto simp: log_txn_def l(3,7))
  then show ?thesis using l st n by (intro exI[of _ "s\<lparr>bc := c, lg := l\<rparr>"]) simp
qed

lemma txn_brelse:
  fixes s :: "'d lsys"
  assumes t: "log_txn nd nblk H s" and h: "held (bc s) i b"
    and c: "b \<in> set (logged (lg s)) \<or> vw (absb nblk (bc s)) b = dk (absb nblk (bc s)) b"
  shows "\<exists>c. brelse i (bc s) = Inr c \<and> log_txn nd nblk (H - {b}) (s\<lparr>bc := c\<rparr>) \<and>
     vw (absb nblk c) = vw (absb nblk (bc s)) \<and> dk (absb nblk c) = dk (absb nblk (bc s)) \<and>
     (\<forall>j d. j \<noteq> i \<longrightarrow> held (bc s) j d \<longrightarrow> held c j d)"
proof -
  let ?A = "absb nblk (bc s)"
  have T: "bc_inv nd nblk (bc s)" "\<And>b. bz ?A b \<longleftrightarrow> b \<in> H"
    "\<And>b. rf ?A b = of_bool (b \<in> set (logged (lg s))) + of_bool (b \<in> H)"
    using t by (simp_all add: log_txn_def)
  have bH: "b \<in> H" using bcache.hd_facts[OF T(1) h] T(2) by simp
  have cl: "vw ?A b = dk ?A b" if "rf ?A b = 1" using that c bH unfolding T(3) by (auto split: if_splits)
  obtain c where c': "brelse i (bc s) = Inr c" "bc_inv nd nblk c"
    "absb nblk c = ?A\<lparr>rf := (rf ?A)(b := rf ?A b - 1), bz := (bz ?A)(b := False)\<rparr>"
    "\<forall>j d. j \<noteq> i \<longrightarrow> held (bc s) j d \<longrightarrow> held c j d"
    using bcache.rel_ok[OF T(1) h cl] by blast
  have "log_txn nd nblk (H - {b}) (s\<lparr>bc := c\<rparr>)"
    using t c'(2) bH c by (auto simp: log_txn_def c'(3))
  then show ?thesis using c' by (intro exI[of _ c]) simp
qed

section \<open>Properties\<close>

lemma end_op_run:
  fixes s :: "'d lsys"
  assumes cl: "log_clean nd nblk s" and o: "outstanding (lg s) = 1" "\<not> committing (lg s)"
  shows "\<exists>s' ws. end_op s = Inr s' \<and> log_clean nd nblk s' \<and> lh_n (lg s') = 0 \<and> outstanding (lg s') = 0 \<and> \<not> committing (lg s') \<and>
     (\<forall>b. \<not> in_log (lg s) b \<longrightarrow> vw (absb nblk (bc s')) b = vw (absb nblk (bc s)) b \<and> dk (absb nblk (bc s')) b = vw (absb nblk (bc s)) b) \<and>
     tr (absb nblk (bc s')) = tr (absb nblk (bc s)) @ ws \<and>
     (ws = [] \<or> ws = commit_writes nblk s)"
proof -
  let ?A = "absb nblk (bc s)" and ?l = "(lg s)\<lparr>outstanding := 0, committing := True\<rparr>"
  let ?s = "s\<lparr>lg := ?l\<rparr>"
  have ll: "log_lists nblk (lg s)" and cln: "\<And>b. b \<notin> set (logged (lg s)) \<Longrightarrow> vw ?A b = dk ?A b"
    and inv: "bc_inv nd nblk (bc s)"
    using cl by (simp_all add: log_clean_def log_idle_def)
  have lo: "logged ?l = logged (lg s)" "in_log ?l = in_log (lg s)" by (simp_all add: logged_def fun_eq_iff in_log_def)
  have ll': "log_lists nblk ?l" using ll unfolding log_lists_def lo by (simp add: log_geo_def)
  have idle: "log_idle nd nblk ?s" using cl ll' lo(1) by (simp add: log_clean_def log_idle_def)
  have e: "end_op s = rbind (commit ?s) (\<lambda>s1. Inr (s1\<lparr>lg := (lg s1)\<lparr>committing := False\<rparr>\<rparr>))"
    using o by (simp add: end_op_def Let_def)
  show ?thesis
  proof (cases "0 < lh_n (lg s)")
    case False
    then have n: "lh_n (lg s) = 0" "logged (lg s) = []" using ll by (auto simp: log_lists_def logged_def)
    then have "commit ?s = Inr ?s" by (simp add: commit_def)
    then have run: "end_op s = Inr (s\<lparr>lg := (lg s)\<lparr>outstanding := 0, committing := False\<rparr>\<rparr>)" by (simp add: e)
    have "log_lists nblk ((lg s)\<lparr>outstanding := 0, committing := False\<rparr>)"
      using ll n by (simp add: log_lists_def log_geo_def logged_def)
    then show ?thesis
      by (intro exI[of _ "s\<lparr>lg := (lg s)\<lparr>outstanding := 0, committing := False\<rparr>\<rparr>"] exI[of _ "[]"])
        (use run cl n cln in \<open>simp add: log_clean_def log_idle_def logged_def\<close>)
  next
    case True
    obtain c where c: "commit ?s = Inr (?s\<lparr>bc := c, lg := ?l\<lparr>lh_n := 0\<rparr>\<rparr>)" "bc_inv nd nblk c"
      "absb nblk c = ?A\<lparr>vw := apply_writes (commit_writes nblk ?s) (vw ?A),
       dk := apply_writes (commit_writes nblk ?s) (dk ?A), rf := (\<lambda>_. 0), tr := tr ?A @ commit_writes nblk ?s\<rparr>"
      using commit_run[OF idle] True cln lo(1) by auto
    have cw: "commit_writes nblk ?s = commit_writes nblk s"
      by (simp add: commit_writes_def log_copies_def new_copies_def lo Let_def enc_hdr_def log_block_def)
    let ?s' = "s\<lparr>bc := c, lg := (lg s)\<lparr>outstanding := 0, committing := False, lh_n := 0\<rparr>\<rparr>"
    have run: "end_op s = Inr ?s'" unfolding e c(1) by simp
    have len: "length (vw ?A (lstart (lg s))) = BSIZE"
      using inv ll by (intro length_vw) (auto simp: log_lists_def log_geo_def)
    note P = commit_prefix[OF cl len order_refl refl, unfolded take_all_iff[THEN iffD2, OF order_refl]]
    have nb: "\<And>b. \<not> bz ?A b" using cl by (simp add: log_clean_def log_idle_def)
    let ?W = "commit_writes nblk s"
    have all: "?W = log_copies nblk s (nat (lh_n (lg s))) @ (lstart (lg s), enc_hdr (lg s) (vw ?A (lstart (lg s)))) # new_copies nblk s @
        [(lstart (lg s), enc_hdr ((lg s)\<lparr>lh_n := 0\<rparr>) (enc_hdr (lg s) (vw ?A (lstart (lg s)))))]"
      by (simp add: commit_writes_def Let_def)
    have st: "in_log (lg s) (lstart (lg s))" by (rule lstart_props[OF ll])
    have last: "apply_writes ?W D (lstart (lg s)) = enc_hdr ((lg s)\<lparr>lh_n := 0\<rparr>) (enc_hdr (lg s) (vw ?A (lstart (lg s))))" for D
      unfolding all by simp
    have h0: "hdr_n (apply_writes ?W D (lstart (lg s))) = 0" for D
      unfolding last using enc_hdr_props(2)[of "(lg s)\<lparr>lh_n := 0\<rparr>"] enc_hdr_props(1)[of "lg s"] len ll lists_small[OF ll]
      by (simp add: log_lists_def)
    have lgd: "apply_writes ?W D b = vw ?A b" if "b \<in> set (logged (lg s))" for D b
    proof -
      have "b \<noteq> lstart (lg s)" using lstart_props(2)[OF ll] that by blast
      then show ?thesis unfolding all using new_copies_logged[OF ll that] by simp
    qed
    have eq: "apply_writes ?W (vw ?A) b = apply_writes ?W (dk ?A) b" for b
      by (cases "b \<in> set (logged (lg s))") (use lgd cln in \<open>auto intro: apply_writes_cong\<close>)
    have home: "apply_writes ?W (dk ?A) b = vw ?A b" if "\<not> in_log (lg s) b" for b
    proof (cases "b \<in> set (logged (lg s))")
      case False
      have nc: "b \<notin> fst ` set (log_copies nblk s (nat (lh_n (lg s))))"
        using that log_block_props(2)[of nblk "lg s"] ll lists_small[OF ll] by (auto simp: log_copies_def log_lists_def)
      have nn: "b \<notin> fst ` set (new_copies nblk s)" using False lists_small[OF ll] by (auto simp: new_copies_def)
      have "b \<noteq> lstart (lg s)" using that st by blast
      then have "apply_writes ?W (dk ?A) b = dk ?A b" unfolding all by (simp add: apply_writes_other nc nn)
      then show ?thesis using cln[OF False] by simp
    qed (rule lgd)
    have "log_clean nd nblk ?s'"
      using c(2) ll nb h0 eq by (simp add: log_clean_def log_idle_def log_lists_def log_geo_def logged_def c(3)[unfolded cw])
    then show ?thesis
      by (intro exI[of _ ?s'] exI[of _ ?W]) (use run home eq in \<open>simp add: c(3)[unfolded cw]\<close>)
  qed
qed


text \<open>An empty log of the size \<^verbatim>\<open>mkfs\<close> gives it, on the zeroed disk.\<close>

definition boot_log :: logst where
  "boot_log = \<lparr>lstart = 2, lsize = 30, outstanding = 0, committing = False, ldev = ROOTDEV, lh_n = 0, lh_block = replicate LOGSIZE 0\<rparr>"

definition boot_lsys :: "(nat \<Rightarrow> nat \<Rightarrow> byte list) lsys" where
  "boot_lsys = \<lparr>bc = boot_bsys 2, lg = boot_log\<rparr>"

lemma hdr_zero: "hdr_n (replicate BSIZE 0) = 0"
  by (simp add: hdr_n_def get32l_def bytes_at_def BSIZE_def rd32_def)

lemma boot_clean:
  assumes "outstanding l = k" "l = boot_log\<lparr>outstanding := k\<rparr>"
  shows "log_clean 2 2000 \<lparr>bc = boot_bsys 2, lg = l\<rparr>"
proof -
  have n: "(2000 :: nat) \<le> 2 ^ 31" by simp
  note B = boot_bsys_ok[OF n, of 2]
  have ll: "log_lists 2000 l" unfolding assms(2)
    by (simp add: log_lists_def log_geo_def logged_def boot_log_def LOGSIZE_def MAXOPBLOCKS_def)
  show ?thesis
    unfolding log_clean_def log_idle_def lsys.simps B(2)
    using B(1) ll assms(2) by (simp add: boot_log_def logged_def hdr_zero)
qed

lemma log_modify:
  fixes s :: "'d lsys"
  assumes "log_clean nd nblk s" "unat b < nblk" "\<not> in_log (lg s) b" "1 \<le> outstanding (lg s)"
    and "lh_n (lg s) < lsize (lg s) - 1" "length d = BSIZE"
  shows "\<exists>i c s1 c'. bread ROOTDEV b (bc s) = Inr (i, c) \<and> get_data c i = vw (absb nblk (bc s)) b \<and>
     log_write i (s\<lparr>bc := set_data i d c\<rparr>) = Inr s1 \<and>
     brelse i (bc s1) = Inr c' \<and> log_clean nd nblk (s1\<lparr>bc := c'\<rparr>) \<and> same_log (lg s) (lg s1) \<and>
     vw (absb nblk c') = (vw (absb nblk (bc s)))(b := d) \<and> dk (absb nblk c') = dk (absb nblk (bc s)) \<and>
     set (logged (lg s1)) = insert b (set (logged (lg s))) \<and>
     lh_n (lg s1) = (if b \<in> set (logged (lg s)) then lh_n (lg s) else lh_n (lg s) + 1)"
proof -
  have t: "log_txn nd nblk {} s" using assms(1) by (simp add: log_txn_empty)
  have ll: "log_lists nblk (lg s)" using t by (simp add: log_txn_def)
  have room: "card (set (logged (lg s)) \<union> {}) < NBUF"
    using lists_small[OF ll] card_length[of "logged (lg s)"] by (simp add: NBUF_def)
  obtain i c where c: "bread ROOTDEV b (bc s) = Inr (i, c)" "held c i b" "log_txn nd nblk {b} (s\<lparr>bc := c\<rparr>)"
    "vw (absb nblk c) = vw (absb nblk (bc s))" "dk (absb nblk c) = dk (absb nblk (bc s))"
    "get_data c i = vw (absb nblk (bc s)) b"
    using txn_bread[OF t assms(2) _ room] by auto
  let ?s = "s\<lparr>bc := set_data i d c\<rparr>"
  have p: "log_txn nd nblk {b} ?s" "vw (absb nblk (bc ?s)) = (vw (absb nblk (bc s)))(b := d)"
    "dk (absb nblk (bc ?s)) = dk (absb nblk (bc s))" "held (bc ?s) i b"
    using txn_set[OF c(3), of i b d] c(2,4,5) assms(6) by simp_all
  obtain s1 where s1: "log_write i ?s = Inr s1" "log_txn nd nblk {b} s1" "same_log (lg s) (lg s1)"
    "set (logged (lg s1)) = insert b (set (logged (lg s)))"
    "lh_n (lg s1) = (if b \<in> set (logged (lg s)) then lh_n (lg s) else lh_n (lg s) + 1)"
    "vw (absb nblk (bc s1)) = vw (absb nblk (bc ?s))" "dk (absb nblk (bc s1)) = dk (absb nblk (bc ?s))" "held (bc s1) i b"
    using txn_log_write[OF p(1,4)] assms(3-5) p(4) by auto
  obtain c' where c': "brelse i (bc s1) = Inr c'" "log_txn nd nblk ({b} - {b}) (s1\<lparr>bc := c'\<rparr>)"
    "vw (absb nblk c') = vw (absb nblk (bc s1))" "dk (absb nblk c') = dk (absb nblk (bc s1))"
    using txn_brelse[OF s1(2,8)] s1(4) by blast
  show ?thesis
    by (intro exI[of _ i] exI[of _ c] exI[of _ s1] exI[of _ c'])
      (use c(1,6) s1 c' p log_txn_empty in auto)
qed

text \<open>
  C11: a transaction is atomic under crashes.  When the last outstanding operation ends,
  \<^verbatim>\<open>end_op\<close> commits: every block outside the log is on the disk with its new contents.  Let the
  machine stop after any number of the disk writes made on the way: \<^verbatim>\<open>initlog\<close> after the restart
  succeeds, and the blocks outside the log are all as before the transaction or all as after it.
\<close>

theorem end_op_crash_safe:
  fixes s :: "'d lsys"
  assumes "log_clean nd nblk s" "outstanding (lg s) = 1" "\<not> committing (lg s)"
    and "sb_logstart sb = lstart (lg s)" "sint (sb_nlog sb) = lsize (lg s)"
  shows "\<exists>s' ws. end_op s = Inr s' \<and> log_clean nd nblk s' \<and>
     (\<forall>b. \<not> in_log (lg s) b \<longrightarrow> dk (absb nblk (bc s')) b = vw (absb nblk (bc s)) b) \<and>
     tr (absb nblk (bc s')) = tr (absb nblk (bc s)) @ ws \<and>
     (\<forall>k \<le> length ws. \<forall>r :: 'd lsys. rebooted nd nblk (apply_writes (take k ws) (dk (absb nblk (bc s)))) r \<longrightarrow>
        (\<exists>r'. initlog ROOTDEV sb r = Inr r' \<and> log_clean nd nblk r' \<and> lh_n (lg r') = 0 \<and>
          ((\<forall>b. \<not> in_log (lg s) b \<longrightarrow> dk (absb nblk (bc r')) b = dk (absb nblk (bc s)) b) \<or>
           (\<forall>b. \<not> in_log (lg s) b \<longrightarrow> dk (absb nblk (bc r')) b = vw (absb nblk (bc s)) b))))"
proof -
  obtain s' ws where s': "end_op s = Inr s'" "log_clean nd nblk s'"
    "\<forall>b. \<not> in_log (lg s) b \<longrightarrow> vw (absb nblk (bc s')) b = vw (absb nblk (bc s)) b \<and> dk (absb nblk (bc s')) b = vw (absb nblk (bc s)) b"
    "tr (absb nblk (bc s')) = tr (absb nblk (bc s)) @ ws" "ws = [] \<or> ws = commit_writes nblk s"
    using end_op_run[OF assms(1-3)] by blast
  have geo: "log_geo nblk (lg s)" and inv: "bc_inv nd nblk (bc s)" and ll: "log_lists nblk (lg s)"
    using assms(1) by (simp_all add: log_clean_def log_idle_def log_lists_def)
  have len: "length (vw (absb nblk (bc s)) (lstart (lg s))) = BSIZE"
    using inv geo by (intro length_vw) (auto simp: log_geo_def)
  have rec: "\<exists>r'. initlog ROOTDEV sb r = Inr r' \<and> log_clean nd nblk r' \<and> lh_n (lg r') = 0 \<and>
          ((\<forall>b. \<not> in_log (lg s) b \<longrightarrow> dk (absb nblk (bc r')) b = dk (absb nblk (bc s)) b) \<or>
           (\<forall>b. \<not> in_log (lg s) b \<longrightarrow> dk (absb nblk (bc r')) b = vw (absb nblk (bc s)) b))"
    if k: "k \<le> length ws" and r: "rebooted nd nblk (apply_writes (take k ws) (dk (absb nblk (bc s)))) r" for k and r :: "'d lsys"
  proof -
    let ?r = "r\<lparr>lg := (lg r)\<lparr>lstart := lstart (lg s), lsize := lsize (lg s), ldev := ROOTDEV\<rparr>\<rparr>"
    obtain j where j: "j \<le> length (commit_writes nblk s)" "take k ws = take j (commit_writes nblk s)"
      using s'(5) k by (cases "ws = []") (auto intro: that[of 0])
    have "rebooted nd nblk (apply_writes (take j (commit_writes nblk s)) (dk (absb nblk (bc s)))) ?r"
      using r unfolding j(2) by (simp add: rebooted_def)
    from crash_recovery[OF assms(1) len j(1) this] geo
    have "\<exists>r'. recover_from_log ?r = Inr r' \<and> log_clean nd nblk r' \<and> lh_n (lg r') = 0 \<and>
          ((\<forall>b. \<not> in_log (lg s) b \<longrightarrow> dk (absb nblk (bc r')) b = dk (absb nblk (bc s)) b) \<or>
           (\<forall>b. \<not> in_log (lg s) b \<longrightarrow> dk (absb nblk (bc r')) b = vw (absb nblk (bc s)) b))"
      by (simp add: log_geo_def)
    moreover have "initlog ROOTDEV sb r = recover_from_log ?r"
      unfolding initlog_def assms(4,5) by (simp add: LOGSIZE_def MAXOPBLOCKS_def BSIZE_def)
    ultimately show ?thesis by simp
  qed
  show ?thesis
    using s'(1-4) rec by blast
qed

theorem end_op_crash_safe_witness:
  "\<exists>s :: (nat \<Rightarrow> nat \<Rightarrow> byte list) lsys. lh_n (lg s) = 1 \<and> vw (absb 2000 (bc s)) 50 = replicate BSIZE 7 \<and>
     (\<exists>s' ws. end_op s = Inr s' \<and> dk (absb 2000 (bc s')) 50 = replicate BSIZE 7 \<and>
       tr (absb 2000 (bc s')) = tr (absb 2000 (bc s)) @ ws)"
proof -
  let ?s = "\<lparr>bc = boot_bsys 2, lg = boot_log\<lparr>outstanding := 1\<rparr>\<rparr>"
  have c: "log_clean 2 2000 ?s" by (rule boot_clean) simp_all
  have pre: "unat (50 :: u32) < 2000" "\<not> in_log (lg ?s) 50" "1 \<le> outstanding (lg ?s)"
    "lh_n (lg ?s) < lsize (lg ?s) - 1" "length (replicate BSIZE (7 :: byte)) = BSIZE"
    by (simp_all add: in_log_def boot_log_def)
  obtain s1 :: "(nat \<Rightarrow> nat \<Rightarrow> byte list) lsys" and c' where w: "log_clean 2 2000 (s1\<lparr>bc := c'\<rparr>)" "same_log (lg ?s) (lg s1)"
     "vw (absb 2000 c') = (vw (absb 2000 (bc ?s)))(50 := replicate BSIZE 7)"
     "lh_n (lg s1) = (if 50 \<in> set (logged (lg ?s)) then lh_n (lg ?s) else lh_n (lg ?s) + 1)"
    using log_modify[OF c pre] by blast
  let ?t = "s1\<lparr>bc := c'\<rparr>"
  define sb where "sb = \<lparr>sb_magic = 0, sb_size = 2000, sb_nblocks = 0, sb_ninodes = 200, sb_nlog = 30, sb_logstart = 2,
      sb_inodestart = 32, sb_bmapstart = 45\<rparr>"
  have t: "outstanding (lg ?t) = 1" "\<not> committing (lg ?t)" "sb_logstart sb = lstart (lg ?t)" "sint (sb_nlog sb) = lsize (lg ?t)"
    using w(2) by (simp_all add: same_log_def boot_log_def sb_def)
  have o: "\<not> in_log (lg ?t) 50" using w(2) by (simp add: same_log_def boot_log_def in_log_def)
  have e: "lh_n (lg ?t) = 1" "vw (absb 2000 (bc ?t)) 50 = replicate BSIZE 7" using w(3,4) by (simp_all add: boot_log_def logged_def)
  obtain s' ws where "end_op ?t = Inr s'" "dk (absb 2000 (bc s')) 50 = vw (absb 2000 (bc ?t)) 50"
    "tr (absb 2000 (bc s')) = tr (absb 2000 (bc ?t)) @ ws"
    using end_op_crash_safe[OF w(1) t] o by blast
  then show ?thesis using e by metis
qed

text \<open>
  C22: inside a transaction, reading a block, changing it and calling \<^verbatim>\<open>log_write\<close> makes the change
  visible to every later reader while the disk stays as it is, pins the block, and records it once
  however often it is written; nothing else changes.
\<close>

theorem log_write_defers:
  fixes s :: "'d lsys"
  assumes "log_clean nd nblk s" "unat b < nblk" "\<not> in_log (lg s) b" "1 \<le> outstanding (lg s)"
    and "lh_n (lg s) < lsize (lg s) - 1" "length d = BSIZE"
  shows "\<exists>i c s1 c'. bread ROOTDEV b (bc s) = Inr (i, c) \<and> log_write i (s\<lparr>bc := set_data i d c\<rparr>) = Inr s1 \<and>
     brelse i (bc s1) = Inr c' \<and> log_clean nd nblk (s1\<lparr>bc := c'\<rparr>) \<and> same_log (lg s) (lg s1) \<and>
     vw (absb nblk c') = (vw (absb nblk (bc s)))(b := d) \<and> dk (absb nblk c') = dk (absb nblk (bc s)) \<and>
     set (logged (lg s1)) = insert b (set (logged (lg s))) \<and>
     lh_n (lg s1) = (if b \<in> set (logged (lg s)) then lh_n (lg s) else lh_n (lg s) + 1)"
  using log_modify[OF assms] by blast

theorem log_write_defers_witness:
  "\<exists>i c s1 c'. bread ROOTDEV 50 (boot_bsys 2) = Inr (i, c) \<and>
     log_write i \<lparr>bc = set_data i (replicate BSIZE 7) c, lg = boot_log\<lparr>outstanding := 1\<rparr>\<rparr> = Inr s1 \<and>
     brelse i (bc s1) = Inr c' \<and> vw (absb 2000 c') 50 = replicate BSIZE 7 \<and> dk (absb 2000 c') 50 = replicate BSIZE 0 \<and> lh_n (lg s1) = 1"
proof -
  have n: "(2000 :: nat) \<le> 2 ^ 31" by simp
  note B = boot_bsys_ok[OF n, of 2]
  let ?s = "\<lparr>bc = boot_bsys 2, lg = boot_log\<lparr>outstanding := 1\<rparr>\<rparr>"
  have c: "log_clean 2 2000 ?s" by (rule boot_clean) simp_all
  have pre: "unat (50 :: u32) < 2000" "\<not> in_log (lg ?s) 50" "1 \<le> outstanding (lg ?s)"
    "lh_n (lg ?s) < lsize (lg ?s) - 1" "length (replicate BSIZE (7 :: byte)) = BSIZE"
    by (simp_all add: in_log_def boot_log_def)
  obtain i c s1 c' where w: "bread ROOTDEV 50 (bc ?s) = Inr (i, c)" "log_write i (?s\<lparr>bc := set_data i (replicate BSIZE 7) c\<rparr>) = Inr s1"
     "brelse i (bc s1) = Inr c'" "vw (absb 2000 c') = (vw (absb 2000 (bc ?s)))(50 := replicate BSIZE 7)"
     "dk (absb 2000 c') = dk (absb 2000 (bc ?s))" "lh_n (lg s1) = (if 50 \<in> set (logged (lg ?s)) then lh_n (lg ?s) else lh_n (lg ?s) + 1)"
    using log_write_defers[OF c pre] by blast
  show ?thesis
    by (intro exI[of _ i] exI[of _ c] exI[of _ s1] exI[of _ c'])
      (use w B(2) in \<open>simp add: boot_log_def logged_def\<close>)
qed




end
