(* ===== verification/Fs.thy ===== *)
theory Fs
  imports Log
begin

text \<open>
  \<^verbatim>\<open>kernel/fs.c\<close> up to the contents of inodes: superblock, free-block bitmap, inode table, block map of
  an inode, truncation, reading and writing.  An inode pointer is an index into \<^verbatim>\<open>itable.inode\<close>, a
  null pointer is \<open>None\<close>.  Sections under \<^verbatim>\<open>itable.lock\<close> are one step.  Bytes go to and come from the caller
  through an argument: \<open>co tot bs m\<close> is \<^verbatim>\<open>either_copyout\<close> of \<open>bs\<close> to the destination advanced by \<open>tot\<close> in
  the memory \<open>m\<close>, with whether it succeeded, and \<open>ci tot n\<close> are the bytes \<^verbatim>\<open>either_copyin\<close> has copied from the source advanced by
  \<open>tot\<close>, with whether it succeeded.
\<close>

section \<open>Constants and state\<close>

definition ROOTINO :: u32 where [const_simps]: "ROOTINO = 1"
definition FSMAGIC :: u32 where [const_simps]: "FSMAGIC = 0x10203040"
definition NDIRECT :: nat where [const_simps]: "NDIRECT = 12"
definition NINDIRECT :: nat where [const_simps]: "NINDIRECT = BSIZE div 4"
definition MAXFILE :: nat where [const_simps]: "MAXFILE = NDIRECT + NINDIRECT"
definition IPB :: nat where [const_simps]: "IPB = BSIZE div 64"
definition BPB :: nat where [const_simps]: "BPB = BSIZE * 8"
definition NINODE :: nat where [const_simps]: "NINODE = 50"
definition T_DIR :: u16 where [const_simps]: "T_DIR = 1"

record inode =
  i_dev :: u32
  i_inum :: u32
  i_ref :: int
  i_lock :: sleeplock
  i_valid :: bool
  i_type :: u16
  i_major :: u16
  i_minor :: u16
  i_nlink :: u16
  i_size :: u32
  i_addrs :: "u32 list"

record 'd fsys =
  ls :: "'d lsys"
  sb :: superblock
  itable :: "inode list"
  cwd :: nat

definition IBLOCK :: "u32 \<Rightarrow> superblock \<Rightarrow> u32" where
  "IBLOCK i b = i div of_nat IPB + sb_inodestart b"

definition BBLOCK :: "u32 \<Rightarrow> superblock \<Rightarrow> u32" where
  "BBLOCK b s = b div of_nat BPB + sb_bmapstart s"

section \<open>Buffers and the log, seen from here\<close>

definition fbread :: "u32 \<Rightarrow> u32 \<Rightarrow> 'd fsys \<Rightarrow> (nat \<times> 'd fsys) result" where
  "fbread dev b s = rbind (bread dev b (bc (ls s))) (\<lambda>(i, c). Inr (i, s\<lparr>ls := (ls s)\<lparr>bc := c\<rparr>\<rparr>))"

definition fbrelse :: "nat \<Rightarrow> 'd fsys \<Rightarrow> 'd fsys result" where
  "fbrelse i s = rbind (brelse i (bc (ls s))) (\<lambda>c. Inr (s\<lparr>ls := (ls s)\<lparr>bc := c\<rparr>\<rparr>))"

definition flog_write :: "nat \<Rightarrow> 'd fsys \<Rightarrow> 'd fsys result" where
  "flog_write i s = rbind (log_write i (ls s)) (\<lambda>l. Inr (s\<lparr>ls := l\<rparr>))"

definition fdata :: "nat \<Rightarrow> 'd fsys \<Rightarrow> byte list" where
  "fdata i s = get_data (bc (ls s)) i"

definition fset :: "nat \<Rightarrow> byte list \<Rightarrow> 'd fsys \<Rightarrow> 'd fsys" where
  "fset i d s = s\<lparr>ls := (ls s)\<lparr>bc := set_data i d (bc (ls s))\<rparr>\<rparr>"

definition upd_inode :: "nat \<Rightarrow> (inode \<Rightarrow> inode) \<Rightarrow> 'd fsys \<Rightarrow> 'd fsys" where
  "upd_inode ip f s = s\<lparr>itable := (itable s)[ip := f (itable s ! ip)]\<rparr>"

abbreviation ino :: "nat \<Rightarrow> 'd fsys \<Rightarrow> inode" where
  "ino ip s \<equiv> itable s ! ip"

abbreviation pid :: "'d fsys \<Rightarrow> int" where
  "pid s \<equiv> cur (bc (ls s))"

section \<open>The superblock\<close>

definition read_superblock :: "byte list \<Rightarrow> superblock" where
  "read_superblock d = \<lparr>sb_magic = get32l 0 d, sb_size = get32l 4 d, sb_nblocks = get32l 8 d, sb_ninodes = get32l 12 d,
     sb_nlog = get32l 16 d, sb_logstart = get32l 20 d, sb_inodestart = get32l 24 d, sb_bmapstart = get32l 28 d\<rparr>"

definition readsb :: "u32 \<Rightarrow> 'd fsys \<Rightarrow> 'd fsys result" where
  "readsb dev s = rbind (fbread dev 1 s) (\<lambda>(bp, s1). fbrelse bp (s1\<lparr>sb := read_superblock (fdata bp s1)\<rparr>))"

definition fsinit :: "u32 \<Rightarrow> 'd fsys \<Rightarrow> 'd fsys result" where
  "fsinit dev s =
     rbind (readsb dev s) (\<lambda>s1.
       if sb_magic (sb s1) \<noteq> FSMAGIC then Inl (Panic ''invalid file system'')
       else rbind (initlog dev (sb s1) (ls s1)) (\<lambda>l. Inr (s1\<lparr>ls := l\<rparr>)))"

section \<open>Blocks\<close>

definition bzero :: "u32 \<Rightarrow> u32 \<Rightarrow> 'd fsys \<Rightarrow> 'd fsys result" where
  "bzero dev bno s =
     rbind (fbread dev bno s) (\<lambda>(bp, s1).
     rbind (flog_write bp (fset bp (replicate BSIZE 0) s1)) (fbrelse bp))"

definition bit_set :: "nat \<Rightarrow> byte list \<Rightarrow> bool" where
  "bit_set bi d \<longleftrightarrow> d ! (bi div 8) AND push_bit (bi mod 8) 1 \<noteq> 0"

definition set_bit_in :: "nat \<Rightarrow> byte list \<Rightarrow> byte list" where
  "set_bit_in bi d = d[bi div 8 := d ! (bi div 8) OR push_bit (bi mod 8) 1]"

definition clear_bit_in :: "nat \<Rightarrow> byte list \<Rightarrow> byte list" where
  "clear_bit_in bi d = d[bi div 8 := d ! (bi div 8) AND NOT (push_bit (bi mod 8) 1)]"

text \<open>The outer loop of \<^verbatim>\<open>balloc\<close>, over the first block number of each bitmap block.\<close>

fun balloc_scan :: "u32 \<Rightarrow> nat list \<Rightarrow> 'd fsys \<Rightarrow> (u32 \<times> 'd fsys) result" where
  "balloc_scan dev [] s = Inr (0, s)"
| "balloc_scan dev (b # bs) s =
     rbind (fbread dev (BBLOCK (of_nat b) (sb s)) s) (\<lambda>(bp, s1).
       case find (\<lambda>bi. \<not> bit_set bi (fdata bp s1)) [0..<min BPB (unat (sb_size (sb s1)) - b)] of
         Some bi \<Rightarrow>
           rbind (flog_write bp (fset bp (set_bit_in bi (fdata bp s1)) s1)) (\<lambda>s2.
           rbind (fbrelse bp s2) (\<lambda>s3.
           rbind (bzero dev (of_nat (b + bi)) s3) (\<lambda>s4. Inr (of_nat (b + bi), s4))))
       | None \<Rightarrow> rbind (fbrelse bp s1) (balloc_scan dev bs))"

definition balloc :: "u32 \<Rightarrow> 'd fsys \<Rightarrow> (u32 \<times> 'd fsys) result" where
  "balloc dev s = balloc_scan dev (map (\<lambda>k. k * BPB) [0..<(unat (sb_size (sb s)) + BPB - 1) div BPB]) s"

definition bfree :: "u32 \<Rightarrow> u32 \<Rightarrow> 'd fsys \<Rightarrow> 'd fsys result" where
  "bfree dev b s =
     rbind (fbread dev (BBLOCK b (sb s)) s) (\<lambda>(bp, s1).
       let bi = unat b mod BPB in
       if \<not> bit_set bi (fdata bp s1) then Inl (Panic ''freeing free block'')
       else rbind (flog_write bp (fset bp (clear_bit_in bi (fdata bp s1)) s1)) (fbrelse bp))"

section \<open>Inodes\<close>

text \<open>\<^verbatim>\<open>struct dinode\<close> number \<open>k\<close> of a block, 64 bytes each.\<close>

definition dinode_type :: "nat \<Rightarrow> byte list \<Rightarrow> u16" where
  "dinode_type k d = get16l (64 * k) d"

definition read_dinode :: "nat \<Rightarrow> byte list \<Rightarrow> inode \<Rightarrow> inode" where
  "read_dinode k d x = x\<lparr>i_type := get16l (64 * k) d, i_major := get16l (64 * k + 2) d, i_minor := get16l (64 * k + 4) d,
     i_nlink := get16l (64 * k + 6) d, i_size := get32l (64 * k + 8) d,
     i_addrs := map (\<lambda>j. get32l (64 * k + 12 + 4 * j) d) [0..<NDIRECT + 1]\<rparr>"

definition write_dinode :: "nat \<Rightarrow> inode \<Rightarrow> byte list \<Rightarrow> byte list" where
  "write_dinode k x d =
     fold (\<lambda>j. put32l (64 * k + 12 + 4 * j) (i_addrs x ! j)) [0..<NDIRECT + 1]
       (put32l (64 * k + 8) (i_size x)
       (put16l (64 * k + 6) (i_nlink x)
       (put16l (64 * k + 4) (i_minor x)
       (put16l (64 * k + 2) (i_major x)
       (put16l (64 * k) (i_type x) d)))))"

definition iinit :: "'d fsys \<Rightarrow> 'd fsys" where
  "iinit s = s\<lparr>itable := map (\<lambda>x. x\<lparr>i_lock := initsleeplock\<rparr>) (itable s)\<rparr>"

definition iget :: "u32 \<Rightarrow> u32 \<Rightarrow> 'd fsys \<Rightarrow> (nat \<times> 'd fsys) result" where
  "iget dev inum s =
     (case find (\<lambda>i. i_ref (ino i s) > 0 \<and> i_dev (ino i s) = dev \<and> i_inum (ino i s) = inum) [0..<NINODE] of
        Some ip \<Rightarrow> Inr (ip, upd_inode ip (\<lambda>x. x\<lparr>i_ref := i_ref x + 1\<rparr>) s)
      | None \<Rightarrow> (case find (\<lambda>i. i_ref (ino i s) = 0) [0..<NINODE] of
           None \<Rightarrow> Inl (Panic ''iget: no inodes'')
         | Some ip \<Rightarrow> Inr (ip, upd_inode ip (\<lambda>x. x\<lparr>i_dev := dev, i_inum := inum, i_ref := 1, i_valid := False\<rparr>) s)))"

fun ialloc_scan :: "u32 \<Rightarrow> u16 \<Rightarrow> nat list \<Rightarrow> 'd fsys \<Rightarrow> (nat option \<times> 'd fsys) result" where
  "ialloc_scan dev ty [] s = Inr (None, s)"
| "ialloc_scan dev ty (inum # is) s =
     rbind (fbread dev (IBLOCK (of_nat inum) (sb s)) s) (\<lambda>(bp, s1).
       if dinode_type (inum mod IPB) (fdata bp s1) = 0
       then rbind (flog_write bp (fset bp (put16l (64 * (inum mod IPB)) ty
              (splice (64 * (inum mod IPB)) (replicate 64 0) (fdata bp s1))) s1)) (\<lambda>s2.
            rbind (fbrelse bp s2) (\<lambda>s3.
            rbind (iget dev (of_nat inum) s3) (\<lambda>(ip, s4). Inr (Some ip, s4))))
       else rbind (fbrelse bp s1) (ialloc_scan dev ty is))"

definition ialloc :: "u32 \<Rightarrow> u16 \<Rightarrow> 'd fsys \<Rightarrow> (nat option \<times> 'd fsys) result" where
  "ialloc dev ty s = ialloc_scan dev ty [1..<unat (sb_ninodes (sb s))] s"

definition iupdate :: "nat \<Rightarrow> 'd fsys \<Rightarrow> 'd fsys result" where
  "iupdate ip s =
     rbind (fbread (i_dev (ino ip s)) (IBLOCK (i_inum (ino ip s)) (sb s)) s) (\<lambda>(bp, s1).
     rbind (flog_write bp (fset bp (write_dinode (unat (i_inum (ino ip s1)) mod IPB) (ino ip s1) (fdata bp s1)) s1)) (fbrelse bp))"

definition idup :: "nat \<Rightarrow> 'd fsys \<Rightarrow> nat \<times> 'd fsys" where
  "idup ip s = (ip, upd_inode ip (\<lambda>x. x\<lparr>i_ref := i_ref x + 1\<rparr>) s)"

definition ilock :: "nat \<Rightarrow> 'd fsys \<Rightarrow> 'd fsys result" where
  "ilock ip s =
     (if i_ref (ino ip s) < 1 then Inl (Panic ''ilock'')
      else rbind (acquiresleep (pid s) (i_lock (ino ip s))) (\<lambda>lk.
        let s1 = upd_inode ip (\<lambda>x. x\<lparr>i_lock := lk\<rparr>) s in
        if \<not> i_valid (ino ip s1)
        then rbind (fbread (i_dev (ino ip s1)) (IBLOCK (i_inum (ino ip s1)) (sb s1)) s1) (\<lambda>(bp, s2).
             rbind (fbrelse bp (upd_inode ip (read_dinode (unat (i_inum (ino ip s2)) mod IPB) (fdata bp s2)) s2)) (\<lambda>s3.
             let s4 = upd_inode ip (\<lambda>x. x\<lparr>i_valid := True\<rparr>) s3 in
             if i_type (ino ip s4) = 0 then Inl (Panic ''ilock: no type'') else Inr s4))
        else Inr s1))"

definition iunlock :: "nat \<Rightarrow> 'd fsys \<Rightarrow> 'd fsys result" where
  "iunlock ip s =
     (if \<not> holdingsleep (pid s) (i_lock (ino ip s)) \<or> i_ref (ino ip s) < 1 then Inl (Panic ''iunlock'')
      else Inr (upd_inode ip (\<lambda>x. x\<lparr>i_lock := releasesleep (i_lock x)\<rparr>) s))"

text \<open>\<^verbatim>\<open>itrunc\<close>: the direct blocks, then the blocks listed in the indirect block and that block itself.\<close>

definition itrunc_direct :: "nat \<Rightarrow> 'd fsys \<Rightarrow> 'd fsys result" where
  "itrunc_direct ip s =
     rfold (\<lambda>i s. if i_addrs (ino ip s) ! i \<noteq> 0
        then rbind (bfree (i_dev (ino ip s)) (i_addrs (ino ip s) ! i) s) (\<lambda>s1.
             Inr (upd_inode ip (\<lambda>x. x\<lparr>i_addrs := (i_addrs x)[i := 0]\<rparr>) s1))
        else Inr s) [0..<NDIRECT] s"

definition itrunc :: "nat \<Rightarrow> 'd fsys \<Rightarrow> 'd fsys result" where
  "itrunc ip s =
     rbind (itrunc_direct ip s) (\<lambda>s1.
     rbind (if i_addrs (ino ip s1) ! NDIRECT \<noteq> 0
        then rbind (fbread (i_dev (ino ip s1)) (i_addrs (ino ip s1) ! NDIRECT) s1) (\<lambda>(bp, s2).
             rbind (rfold (\<lambda>j s. let a = get32l (4 * j) (fdata bp s) in
                       if a \<noteq> 0 then bfree (i_dev (ino ip s)) a s else Inr s) [0..<NINDIRECT] s2) (\<lambda>s3.
             rbind (fbrelse bp s3) (\<lambda>s4.
             rbind (bfree (i_dev (ino ip s4)) (i_addrs (ino ip s4) ! NDIRECT) s4) (\<lambda>s5.
             Inr (upd_inode ip (\<lambda>x. x\<lparr>i_addrs := (i_addrs x)[NDIRECT := 0]\<rparr>) s5)))))
        else Inr s1) (\<lambda>s6.
     iupdate ip (upd_inode ip (\<lambda>x. x\<lparr>i_size := 0\<rparr>) s6)))"

definition iput :: "nat \<Rightarrow> 'd fsys \<Rightarrow> 'd fsys result" where
  "iput ip s =
     rbind (if i_ref (ino ip s) = 1 \<and> i_valid (ino ip s) \<and> i_nlink (ino ip s) = 0
        then rbind (acquiresleep (pid s) (i_lock (ino ip s))) (\<lambda>lk.
             rbind (itrunc ip (upd_inode ip (\<lambda>x. x\<lparr>i_lock := lk\<rparr>) s)) (\<lambda>s1.
             rbind (iupdate ip (upd_inode ip (\<lambda>x. x\<lparr>i_type := 0\<rparr>) s1)) (\<lambda>s2.
             Inr (upd_inode ip (\<lambda>x. x\<lparr>i_valid := False, i_lock := releasesleep (i_lock x)\<rparr>) s2))))
        else Inr s) (\<lambda>s3.
     Inr (upd_inode ip (\<lambda>x. x\<lparr>i_ref := i_ref x - 1\<rparr>) s3))"

definition iunlockput :: "nat \<Rightarrow> 'd fsys \<Rightarrow> 'd fsys result" where
  "iunlockput ip s = rbind (iunlock ip s) (iput ip)"

section \<open>Contents of inodes\<close>

definition bmap :: "nat \<Rightarrow> nat \<Rightarrow> 'd fsys \<Rightarrow> (u32 \<times> 'd fsys) result" where
  "bmap ip bn s =
     (if bn < NDIRECT
      then let addr = i_addrs (ino ip s) ! bn in
           if addr = 0
           then rbind (balloc (i_dev (ino ip s)) s) (\<lambda>(addr, s1).
                if addr = 0 then Inr (0, s1)
                else Inr (addr, upd_inode ip (\<lambda>x. x\<lparr>i_addrs := (i_addrs x)[bn := addr]\<rparr>) s1))
           else Inr (addr, s)
      else if bn - NDIRECT < NINDIRECT
      then rbind (let addr = i_addrs (ino ip s) ! NDIRECT in
             if addr = 0
             then rbind (balloc (i_dev (ino ip s)) s) (\<lambda>(addr, s1).
                  if addr = 0 then Inr (0, s1)
                  else Inr (addr, upd_inode ip (\<lambda>x. x\<lparr>i_addrs := (i_addrs x)[NDIRECT := addr]\<rparr>) s1))
             else Inr (addr, s)) (\<lambda>(ind, s2).
           if ind = 0 then Inr (0, s2)
           else rbind (fbread (i_dev (ino ip s2)) ind s2) (\<lambda>(bp, s3).
             let addr = get32l (4 * (bn - NDIRECT)) (fdata bp s3) in
             rbind (if addr = 0
               then rbind (balloc (i_dev (ino ip s3)) s3) (\<lambda>(addr, s4).
                    if addr \<noteq> 0
                    then rbind (flog_write bp (fset bp (put32l (4 * (bn - NDIRECT)) addr (fdata bp s4)) s4)) (\<lambda>s5. Inr (addr, s5))
                    else Inr (addr, s4))
               else Inr (addr, s3)) (\<lambda>(addr, s6).
             rbind (fbrelse bp s6) (\<lambda>s7. Inr (addr, s7)))))
      else Inl (Panic ''bmap: out of range''))"

record stat =
  st_dev :: u32
  st_ino :: u32
  st_type :: u16
  st_nlink :: u16
  st_size :: u64

definition stati :: "nat \<Rightarrow> 'd fsys \<Rightarrow> stat" where
  "stati ip s = \<lparr>st_dev = i_dev (ino ip s), st_ino = i_inum (ino ip s), st_type = i_type (ino ip s),
     st_nlink = i_nlink (ino ip s), st_size = ucast (i_size (ino ip s))\<rparr>"

function readi_loop :: "(nat \<Rightarrow> byte list \<Rightarrow> 'm \<Rightarrow> 'm \<times> bool) \<Rightarrow> nat \<Rightarrow> nat \<Rightarrow> nat \<Rightarrow> nat \<Rightarrow> 'm \<Rightarrow> 'd fsys \<Rightarrow> (int \<times> 'm \<times> 'd fsys) result" where
  "readi_loop co ip n tot off mm s =
     (if tot < n
      then rbind (bmap ip (off div BSIZE) s) (\<lambda>(addr, s1).
           if addr = 0 then Inr (int tot, mm, s1)
           else rbind (fbread (i_dev (ino ip s1)) addr s1) (\<lambda>(bp, s2).
             let m = min (n - tot) (BSIZE - off mod BSIZE) in
             case co tot (bytes_at (off mod BSIZE) m (fdata bp s2)) mm of
               (mm', ok) \<Rightarrow>
                 if \<not> ok then rbind (fbrelse bp s2) (\<lambda>s3. Inr (-1, mm', s3))
                 else rbind (fbrelse bp s2) (readi_loop co ip n (tot + m) (off + m) mm')))
      else Inr (int tot, mm, s))"
  by pat_completeness auto

termination readi_loop
  by (relation "measure (\<lambda>(co, ip, n, tot, off, mm, s). n - tot)") (auto simp: BSIZE_def)

declare readi_loop.simps [simp del]

definition readi :: "(nat \<Rightarrow> byte list \<Rightarrow> 'm \<Rightarrow> 'm \<times> bool) \<Rightarrow> nat \<Rightarrow> u32 \<Rightarrow> u32 \<Rightarrow> 'm \<Rightarrow> 'd fsys \<Rightarrow> (int \<times> 'm \<times> 'd fsys) result" where
  "readi co ip off n mm s =
     (if off > i_size (ino ip s) \<or> off + n < off then Inr (0, mm, s)
      else let n' = (if off + n > i_size (ino ip s) then i_size (ino ip s) - off else n)
           in readi_loop co ip (unat n') 0 (unat off) mm s)"

function writei_loop :: "(nat \<Rightarrow> nat \<Rightarrow> byte list \<times> bool) \<Rightarrow> nat \<Rightarrow> nat \<Rightarrow> nat \<Rightarrow> nat \<Rightarrow> 'd fsys \<Rightarrow> (nat \<times> nat \<times> 'd fsys) result" where
  "writei_loop ci ip n tot off s =
     (if tot < n
      then rbind (bmap ip (off div BSIZE) s) (\<lambda>(addr, s1).
           if addr = 0 then Inr (tot, off, s1)
           else rbind (fbread (i_dev (ino ip s1)) addr s1) (\<lambda>(bp, s2).
             let m = min (n - tot) (BSIZE - off mod BSIZE) in
             case ci tot m of (bs, ok) \<Rightarrow>
               let s3 = fset bp (splice (off mod BSIZE) bs (fdata bp s2)) s2 in
               if \<not> ok then rbind (fbrelse bp s3) (\<lambda>s4. Inr (tot, off, s4))
               else rbind (flog_write bp s3) (\<lambda>s4. rbind (fbrelse bp s4) (writei_loop ci ip n (tot + m) (off + m)))))
      else Inr (tot, off, s))"
  by pat_completeness auto

termination writei_loop
  by (relation "measure (\<lambda>(ci, ip, n, tot, off, s). n - tot)") (auto simp: BSIZE_def)

declare writei_loop.simps [simp del]

definition writei :: "(nat \<Rightarrow> nat \<Rightarrow> byte list \<times> bool) \<Rightarrow> nat \<Rightarrow> u32 \<Rightarrow> u32 \<Rightarrow> 'd fsys \<Rightarrow> (int \<times> 'd fsys) result" where
  "writei ci ip off n s =
     (if off > i_size (ino ip s) \<or> off + n < off then Inr (-1, s)
      else if off + n > of_nat (MAXFILE * BSIZE) then Inr (-1, s)
      else rbind (writei_loop ci ip (unat n) 0 (unat off) s) (\<lambda>(tot, off', s1).
           let s2 = (if of_nat off' > i_size (ino ip s1) then upd_inode ip (\<lambda>x. x\<lparr>i_size := of_nat off'\<rparr>) s1 else s1)
           in rbind (iupdate ip s2) (\<lambda>s3. Inr (int tot, s3))))"

section \<open>Blocks inside a transaction\<close>

lemma log_read:
  fixes s :: "'d lsys"
  assumes "log_clean nd nblk s" "unat b < nblk"
  shows "\<exists>i c c'. bread ROOTDEV b (bc s) = Inr (i, c) \<and> get_data c i = vw (absb nblk (bc s)) b \<and> brelse i c = Inr c' \<and>
     log_clean nd nblk (s\<lparr>bc := c'\<rparr>) \<and> vw (absb nblk c') = vw (absb nblk (bc s)) \<and> dk (absb nblk c') = dk (absb nblk (bc s))"
proof -
  have t: "log_txn nd nblk {} s" using assms(1) by (simp add: log_txn_empty)
  have ll: "log_lists nblk (lg s)" using t by (simp add: log_txn_def)
  have room: "card (set (logged (lg s)) \<union> {}) < NBUF"
    using lists_small[OF ll] card_length[of "logged (lg s)"] by (simp add: NBUF_def)
  obtain i c where c: "bread ROOTDEV b (bc s) = Inr (i, c)" "held c i b" "log_txn nd nblk {b} (s\<lparr>bc := c\<rparr>)"
    "get_data c i = vw (absb nblk (bc s)) b"
    "vw (absb nblk c) = vw (absb nblk (bc s))" "dk (absb nblk c) = dk (absb nblk (bc s))"
    using txn_bread[OF t assms(2) _ room] by auto
  have same: "b \<in> set (logged (lg s)) \<or> vw (absb nblk (bc s)) b = dk (absb nblk (bc s)) b"
    using assms(1) by (auto simp: log_clean_def)
  obtain c' where c': "brelse i c = Inr c'" "log_txn nd nblk ({b} - {b}) (s\<lparr>bc := c'\<rparr>)"
    "vw (absb nblk c') = vw (absb nblk c)" "dk (absb nblk c') = dk (absb nblk c)"
    using txn_brelse[OF c(3), of i b] c(2,5,6) same by auto
  show ?thesis
    by (intro exI[of _ i] exI[of _ c] exI[of _ c']) (use c c' log_txn_empty in auto)
qed

section \<open>Inodes on the disk\<close>

lemma bytes_at_put32l_other:
  "k + 4 \<le> length xs \<Longrightarrow> j + l \<le> length xs \<Longrightarrow> j + l \<le> k \<or> k + 4 \<le> j \<Longrightarrow> bytes_at j l (put32l k w xs) = bytes_at j l xs"
  by (simp add: put32l_def bytes_at_splice_other)

lemma put32s_bytes:
  assumes "k + 4 * n \<le> length xs" "j + l \<le> length xs" "j + l \<le> k \<or> k + 4 * n \<le> j"
  shows "bytes_at j l (fold (\<lambda>i. put32l (k + 4 * i) (w i)) [0..<n] xs) = bytes_at j l xs"
  using assms
proof (induction n)
  case (Suc n)
  let ?xs = "fold (\<lambda>i. put32l (k + 4 * i) (w i)) [0..<n] xs"
  have len: "length ?xs = length xs" using Suc.prems by (intro put32s_fold(1)) simp
  have "bytes_at j l (put32l (k + 4 * n) (w n) ?xs) = bytes_at j l ?xs"
    using Suc.prems len by (intro bytes_at_put32l_other) auto
  then show ?case using Suc by auto
qed simp

lemma write_dinode_length:
  "64 * k + 64 \<le> length d \<Longrightarrow> length (write_dinode k x d) = length d"
  unfolding write_dinode_def by (subst put32s_fold(1)) (simp_all add: NDIRECT_def)

lemma write_dinode_other:
  assumes "64 * k + 64 \<le> length d" "64 * j + 64 \<le> length d" "j \<noteq> k"
  shows "bytes_at (64 * j) 64 (write_dinode k x d) = bytes_at (64 * j) 64 d"
proof -
  have "64 * j + 64 \<le> 64 * k \<or> 64 * k + 64 \<le> 64 * j" using assms(3) by arith
  then show ?thesis unfolding write_dinode_def using assms(1,2)
    by (subst put32s_bytes) (auto simp: NDIRECT_def put16l_def put32l_def bytes_at_splice_other)
qed

lemma read_write_dinode:
  assumes "64 * k + 64 \<le> length d" "length (i_addrs x) = NDIRECT + 1"
  shows "read_dinode k (write_dinode k x d) y = y\<lparr>i_type := i_type x, i_major := i_major x, i_minor := i_minor x,
     i_nlink := i_nlink x, i_size := i_size x, i_addrs := i_addrs x\<rparr>"
proof -
  let ?d = "put32l (64 * k + 8) (i_size x) (put16l (64 * k + 6) (i_nlink x) (put16l (64 * k + 4) (i_minor x)
    (put16l (64 * k + 2) (i_major x) (put16l (64 * k) (i_type x) d))))"
  let ?e = "write_dinode k x d"
  have len: "length ?d = length d" using assms(1) by simp
  have lo: "get16l j ?e = get16l j ?d" if "j + 2 \<le> 64 * k + 12" for j
    unfolding write_dinode_def get16l_def using that assms(1) len by (subst put32s_bytes) (simp_all add: NDIRECT_def)
  have sz: "get32l (64 * k + 8) ?e = get32l (64 * k + 8) ?d"
    unfolding write_dinode_def get32l_def using assms(1) len by (subst put32s_bytes) (simp_all add: NDIRECT_def)
  have ad: "get32l (64 * k + 12 + 4 * j) ?e = i_addrs x ! j" if "j < NDIRECT + 1" for j
    unfolding write_dinode_def using that assms(1) len by (subst put32s_fold(3)) (simp_all add: NDIRECT_def)
  have "map (\<lambda>j. get32l (64 * k + 12 + 4 * j) ?e) [0..<NDIRECT + 1] = i_addrs x"
    using assms(2) ad by (intro nth_equalityI) (simp_all del: upt_Suc)
  then show ?thesis
    unfolding read_dinode_def using assms(1)
    by (simp add: lo sz get16l_put16l_other get16l_put32l_other get32l_put16l_other del: upt_Suc)
qed

section \<open>Writing an inode and reading it back\<close>

lemma IPB_slot: "64 * (n mod IPB) + 64 \<le> BSIZE"
proof -
  have "n mod 16 < 16" by simp
  then have "64 * (n mod 16) + 64 \<le> 1024" by arith
  then show ?thesis by (simp add: IPB_def BSIZE_def)
qed

lemma iupdate_run:
  fixes s :: "'d fsys"
  assumes "log_clean nd nblk (ls s)" "1 \<le> outstanding (lg (ls s))" "lh_n (lg (ls s)) < lsize (lg (ls s)) - 1"
    and "i_dev (ino ip s) = ROOTDEV" "IBLOCK (i_inum (ino ip s)) (sb s) = b" "unat b < nblk" "\<not> in_log (lg (ls s)) b"
  shows "\<exists>l. iupdate ip s = Inr (s\<lparr>ls := l\<rparr>) \<and> log_clean nd nblk l \<and> dk (absb nblk (bc l)) = dk (absb nblk (bc (ls s))) \<and>
     vw (absb nblk (bc l)) = (vw (absb nblk (bc (ls s))))
       (b := write_dinode (unat (i_inum (ino ip s)) mod IPB) (ino ip s) (vw (absb nblk (bc (ls s))) b))"
proof -
  let ?k = "unat (i_inum (ino ip s)) mod IPB"
  let ?d = "write_dinode ?k (ino ip s) (vw (absb nblk (bc (ls s))) b)"
  have inv: "bc_inv nd nblk (bc (ls s))" using assms(1) by (simp add: log_clean_def log_idle_def)
  have len: "length (vw (absb nblk (bc (ls s))) b) = BSIZE" using inv assms(6) by (rule length_vw)
  have d: "length ?d = BSIZE" using write_dinode_length[of ?k] IPB_slot len by simp
  obtain i c l c' where m: "bread ROOTDEV b (bc (ls s)) = Inr (i, c)" "get_data c i = vw (absb nblk (bc (ls s))) b"
    "log_write i ((ls s)\<lparr>bc := set_data i ?d c\<rparr>) = Inr l" "brelse i (bc l) = Inr c'" "log_clean nd nblk (l\<lparr>bc := c'\<rparr>)"
    "vw (absb nblk c') = (vw (absb nblk (bc (ls s))))(b := ?d)" "dk (absb nblk c') = dk (absb nblk (bc (ls s)))"
    using log_modify[OF assms(1,6,7,2,3) d] by blast
  have "iupdate ip s = Inr (s\<lparr>ls := l\<lparr>bc := c'\<rparr>\<rparr>)"
    unfolding iupdate_def assms(4,5) by (simp add: fbread_def flog_write_def fbrelse_def fset_def fdata_def m)
  then show ?thesis using m(5-7) by (intro exI[of _ "l\<lparr>bc := c'\<rparr>"]) simp
qed

lemma ilock_run:
  fixes s :: "'d fsys"
  assumes "log_clean nd nblk (ls s)" "ip < length (itable s)" "1 \<le> i_ref (ino ip s)" "\<not> sl_locked (i_lock (ino ip s))"
    and "\<not> i_valid (ino ip s)" "i_dev (ino ip s) = ROOTDEV" "IBLOCK (i_inum (ino ip s)) (sb s) = b" "unat b < nblk"
    and "z = (read_dinode (unat (i_inum (ino ip s)) mod IPB) (vw (absb nblk (bc (ls s))) b)
           ((ino ip s)\<lparr>i_lock := \<lparr>sl_locked = True, sl_pid = pid s\<rparr>\<rparr>))\<lparr>i_valid := True\<rparr>" "i_type z \<noteq> 0"
  shows "\<exists>l. ilock ip s = Inr (s\<lparr>ls := l, itable := (itable s)[ip := z]\<rparr>) \<and> log_clean nd nblk l \<and>
     vw (absb nblk (bc l)) = vw (absb nblk (bc (ls s))) \<and> dk (absb nblk (bc l)) = dk (absb nblk (bc (ls s)))"
proof -
  obtain i c c' where r: "bread ROOTDEV b (bc (ls s)) = Inr (i, c)" "get_data c i = vw (absb nblk (bc (ls s))) b" "brelse i c = Inr c'"
    "log_clean nd nblk ((ls s)\<lparr>bc := c'\<rparr>)" "vw (absb nblk c') = vw (absb nblk (bc (ls s)))" "dk (absb nblk c') = dk (absb nblk (bc (ls s)))"
    using log_read[OF assms(1,8)] by blast
  have ty: "i_type z = get16l (64 * (unat (i_inum (ino ip s)) mod IPB)) (vw (absb nblk (bc (ls s))) b)"
    unfolding assms(9) by (simp add: read_dinode_def)
  have lk: "x\<lparr>sl_locked := True, sl_pid := p\<rparr> = \<lparr>sl_locked = True, sl_pid = p\<rparr>" for x p by simp
  have "ilock ip s = Inr (s\<lparr>ls := (ls s)\<lparr>bc := c'\<rparr>, itable := (itable s)[ip := z]\<rparr>)"
    using assms(2-8,10) unfolding ilock_def assms(9) ty
    by (simp add: acquiresleep_def upd_inode_def fbread_def fbrelse_def fdata_def r read_dinode_def Let_def lk)
  then show ?thesis using r(4-6) by (intro exI[of _ "(ls s)\<lparr>bc := c'\<rparr>"]) simp
qed

text \<open>
  C34: an inode that \<^verbatim>\<open>iupdate\<close> has written in a transaction comes back from \<^verbatim>\<open>ilock\<close>.  \<^verbatim>\<open>iupdate\<close>
  succeeds, changes nothing on the disk yet, and in the cached blocks changes nothing but the 64 bytes of this
  inode.  When an entry of the table, the same or another one, is later filled from that inode number, \<^verbatim>\<open>ilock\<close>
  succeeds and gives type, device numbers, link count, size and block addresses as they were written.
\<close>

theorem iupdate_ilock:
  fixes s :: "'d fsys"
  assumes "log_clean nd nblk (ls s)" "1 \<le> outstanding (lg (ls s))" "lh_n (lg (ls s)) < lsize (lg (ls s)) - 1"
    and "i_dev (ino ip s) = ROOTDEV" "IBLOCK (i_inum (ino ip s)) (sb s) = b" "unat b < nblk" "\<not> in_log (lg (ls s)) b"
    and "i_type (ino ip s) \<noteq> 0" "length (i_addrs (ino ip s)) = NDIRECT + 1"
    and "jp < length (itable s)" "i_dev y = ROOTDEV" "i_inum y = i_inum (ino ip s)" "1 \<le> i_ref y" "\<not> i_valid y" "\<not> sl_locked (i_lock y)"
  shows "\<exists>s1 s2. iupdate ip s = Inr s1 \<and> itable s1 = itable s \<and>
     dk (absb nblk (bc (ls s1))) = dk (absb nblk (bc (ls s))) \<and>
     (\<forall>c. c \<noteq> b \<longrightarrow> vw (absb nblk (bc (ls s1))) c = vw (absb nblk (bc (ls s))) c) \<and>
     (\<forall>j < IPB. j \<noteq> unat (i_inum (ino ip s)) mod IPB \<longrightarrow>
        bytes_at (64 * j) 64 (vw (absb nblk (bc (ls s1))) b) = bytes_at (64 * j) 64 (vw (absb nblk (bc (ls s))) b)) \<and>
     ilock jp (s1\<lparr>itable := (itable s1)[jp := y]\<rparr>) = Inr s2 \<and> log_clean nd nblk (ls s2) \<and>
     ino jp s2 = (ino ip s)\<lparr>i_ref := i_ref y, i_valid := True, i_lock := \<lparr>sl_locked = True, sl_pid = pid s1\<rparr>\<rparr>"
proof -
  let ?k = "unat (i_inum (ino ip s)) mod IPB" and ?v = "vw (absb nblk (bc (ls s)))"
  have inv: "bc_inv nd nblk (bc (ls s))" using assms(1) by (simp add: log_clean_def log_idle_def)
  have len: "length (?v b) = BSIZE" using inv assms(6) by (rule length_vw)
  obtain l where u: "iupdate ip s = Inr (s\<lparr>ls := l\<rparr>)" "log_clean nd nblk l" "dk (absb nblk (bc l)) = dk (absb nblk (bc (ls s)))"
    "vw (absb nblk (bc l)) = ?v(b := write_dinode ?k (ino ip s) (?v b))"
    using iupdate_run[OF assms(1-7)] by blast
  have k: "64 * ?k + 64 \<le> length (?v b)" using IPB_slot len by simp
  let ?s1 = "s\<lparr>ls := l\<rparr>"
  let ?t = "?s1\<lparr>itable := (itable ?s1)[jp := y]\<rparr>"
  let ?w = "(ino ip s)\<lparr>i_ref := i_ref y, i_valid := True, i_lock := \<lparr>sl_locked = True, sl_pid = pid ?t\<rparr>\<rparr>"
  have w: "?w = (read_dinode (unat (i_inum (ino jp ?t)) mod IPB) (vw (absb nblk (bc (ls ?t))) b)
      ((ino jp ?t)\<lparr>i_lock := \<lparr>sl_locked = True, sl_pid = pid ?t\<rparr>\<rparr>))\<lparr>i_valid := True\<rparr>"
    using assms(4,10-12) by (simp add: u(4) read_write_dinode[OF k assms(9)])
  obtain l2 where r: "ilock jp ?t = Inr (?t\<lparr>ls := l2, itable := (itable ?t)[jp := ?w]\<rparr>)" "log_clean nd nblk l2"
    using ilock_run[OF _ _ _ _ _ _ _ assms(6) w] u(2) assms(5,8,10-15) by auto
  have o: "bytes_at (64 * j) 64 (write_dinode ?k (ino ip s) (?v b)) = bytes_at (64 * j) 64 (?v b)" if "j < IPB" "j \<noteq> ?k" for j
    using write_dinode_other[OF k _ that(2)] that(1) len by (simp add: IPB_def BSIZE_def)
  show ?thesis
    by (rule exI[of _ ?s1], rule exI[of _ "?t\<lparr>ls := l2, itable := (itable ?t)[jp := ?w]\<rparr>"]) (use u r o assms(10) in simp)
qed

text \<open>Inode 17 of an empty disk, with the second slot of inode block 33.\<close>

theorem iupdate_ilock_witness:
  "\<exists>(s :: (nat \<Rightarrow> nat \<Rightarrow> byte list) fsys) s1 s2 y. iupdate 0 s = Inr s1 \<and> i_addrs y = [] \<and>
     ilock 1 (s1\<lparr>itable := (itable s1)[1 := y]\<rparr>) = Inr s2 \<and> i_type (ino 1 s2) = 2 \<and> i_size (ino 1 s2) = 700 \<and>
     i_addrs (ino 1 s2) = 45 # replicate 12 0"
proof -
  define x where "x = \<lparr>i_dev = ROOTDEV, i_inum = 17, i_ref = 1, i_lock = initsleeplock, i_valid = True, i_type = 2, i_major = 0,
    i_minor = 0, i_nlink = 1, i_size = 700, i_addrs = 45 # replicate 12 0\<rparr>"
  define y where "y = x\<lparr>i_valid := False, i_type := 0, i_size := 0, i_addrs := []\<rparr>"
  define b where "b = \<lparr>sb_magic = FSMAGIC, sb_size = 2000, sb_nblocks = 1954, sb_ninodes = 200, sb_nlog = 30, sb_logstart = 2,
    sb_inodestart = 32, sb_bmapstart = 45\<rparr>"
  define s :: "(nat \<Rightarrow> nat \<Rightarrow> byte list) fsys" where
    "s = \<lparr>ls = \<lparr>bc = boot_bsys 2, lg = boot_log\<lparr>outstanding := 1\<rparr>\<rparr>, sb = b, itable = [x, x], cwd = 0\<rparr>"
  have c: "log_clean 2 2000 (ls s)" unfolding s_def fsys.simps by (rule boot_clean) simp_all
  have l: "1 \<le> outstanding (lg (ls s))" "lh_n (lg (ls s)) < lsize (lg (ls s)) - 1" "\<not> in_log (lg (ls s)) 33"
    by (simp_all add: s_def boot_log_def in_log_def)
  have i: "i_dev (ino 0 s) = ROOTDEV" "IBLOCK (i_inum (ino 0 s)) (sb s) = 33" "i_type (ino 0 s) \<noteq> 0" "length (i_addrs (ino 0 s)) = NDIRECT + 1"
    by (simp_all add: s_def x_def b_def IBLOCK_def IPB_def BSIZE_def NDIRECT_def)
  have j: "1 < length (itable s)" "i_dev y = ROOTDEV" "i_inum y = i_inum (ino 0 s)" "1 \<le> i_ref y" "\<not> i_valid y" "\<not> sl_locked (i_lock y)"
    by (simp_all add: s_def y_def x_def initsleeplock_def)
  have b: "unat (33 :: u32) < 2000" by simp
  obtain s1 s2 where r: "iupdate 0 s = Inr s1" "ilock 1 (s1\<lparr>itable := (itable s1)[1 := y]\<rparr>) = Inr s2"
    "ino 1 s2 = (ino 0 s)\<lparr>i_ref := i_ref y, i_valid := True, i_lock := \<lparr>sl_locked = True, sl_pid = pid s1\<rparr>\<rparr>"
    using iupdate_ilock[OF c l(1,2) i(1,2) b l(3) i(3,4) j] by blast
  have "i_type (ino 1 s2) = 2" "i_size (ino 1 s2) = 700" "i_addrs (ino 1 s2) = 45 # replicate 12 0"
    unfolding r(3) by (simp_all add: s_def x_def)
  moreover have "i_addrs y = []" by (simp add: y_def)
  ultimately show ?thesis using r(1,2) by blast
qed

end
