(* ===== verification/Names.thy ===== *)
theory Names
  imports Fs
begin

text \<open>
  Directories and paths, the last part of \<^verbatim>\<open>kernel/fs.c\<close>.  A path is the list of its characters before
  the terminating zero, a name the 14 bytes of a \<^verbatim>\<open>char name[DIRSIZ]\<close>, which has no terminator when
  all of them are used.  The size of a directory is at most \<^verbatim>\<open>MAXFILE*BSIZE\<close>, so offsets into it do not
  wrap around.
\<close>

section \<open>Directories\<close>

definition DIRSIZ :: nat where [const_simps]: "DIRSIZ = 14"

text \<open>\<^verbatim>\<open>strncmp(s, t, DIRSIZ)\<close> from character \<open>k\<close> on; a string ends with a zero or with its buffer.\<close>

definition char_at :: "byte list \<Rightarrow> nat \<Rightarrow> byte" where
  "char_at s k = (if k < length s then s ! k else 0)"

function namecmp_from :: "nat \<Rightarrow> byte list \<Rightarrow> byte list \<Rightarrow> int" where
  "namecmp_from k s t =
     (if k < DIRSIZ \<and> char_at s k \<noteq> 0 \<and> char_at s k = char_at t k then namecmp_from (k + 1) s t
      else if k \<ge> DIRSIZ then 0
      else int (unat (char_at s k)) - int (unat (char_at t k)))"
  by pat_completeness auto

termination namecmp_from
  by (relation "measure (\<lambda>(k, s, t). DIRSIZ - k)") auto

declare namecmp_from.simps [simp del]

definition namecmp :: "byte list \<Rightarrow> byte list \<Rightarrow> int" where
  "namecmp s t = namecmp_from 0 s t"

definition de_inum :: "byte list \<Rightarrow> u16" where
  "de_inum de = get16l 0 de"

definition de_name :: "byte list \<Rightarrow> byte list" where
  "de_name de = bytes_at 2 DIRSIZ de"

text \<open>The copy of \<^verbatim>\<open>readi\<close> into the local variable \<^verbatim>\<open>de\<close> of the kernel.\<close>

definition to_local :: "nat \<Rightarrow> byte list \<Rightarrow> byte list \<Rightarrow> byte list \<times> bool" where
  "to_local tot bs de = (splice tot bs de, True)"

text \<open>
  The loops read \<^verbatim>\<open>dp->size\<close> in each round; \<^verbatim>\<open>dp\<close> is locked and \<^verbatim>\<open>readi\<close> does not assign it, so the size
  is an argument here.
\<close>

function dirlookup_loop :: "nat \<Rightarrow> byte list \<Rightarrow> nat \<Rightarrow> nat \<Rightarrow> byte list \<Rightarrow> 'd fsys \<Rightarrow> ((nat \<times> nat) option \<times> 'd fsys) result" where
  "dirlookup_loop dp nm sz off de s =
     (if off < sz
      then rbind (readi to_local dp (of_nat off) 16 de s) (\<lambda>(r, de', s1).
           if r \<noteq> 16 then Inl (Panic ''dirlookup read'')
           else if de_inum de' = 0 then dirlookup_loop dp nm sz (off + 16) de' s1
           else if namecmp nm (de_name de') = 0
           then rbind (iget (i_dev (ino dp s1)) (ucast (de_inum de')) s1) (\<lambda>(ip, s2). Inr (Some (ip, off), s2))
           else dirlookup_loop dp nm sz (off + 16) de' s1)
      else Inr (None, s))"
  by pat_completeness auto

termination dirlookup_loop
  by (relation "measure (\<lambda>(dp, nm, sz, off, de, s). sz - off)") auto

declare dirlookup_loop.simps [simp del]

definition dirlookup :: "nat \<Rightarrow> byte list \<Rightarrow> 'd fsys \<Rightarrow> ((nat \<times> nat) option \<times> 'd fsys) result" where
  "dirlookup dp nm s =
     (if i_type (ino dp s) \<noteq> T_DIR then Inl (Panic ''dirlookup not DIR'')
      else dirlookup_loop dp nm (unat (i_size (ino dp s))) 0 (replicate 16 0) s)"

text \<open>The search for an empty entry in \<^verbatim>\<open>dirlink\<close>: its offset, or the size of the directory.\<close>

function dirlink_loop :: "nat \<Rightarrow> nat \<Rightarrow> nat \<Rightarrow> byte list \<Rightarrow> 'd fsys \<Rightarrow> (nat \<times> byte list \<times> 'd fsys) result" where
  "dirlink_loop dp sz off de s =
     (if off < sz
      then rbind (readi to_local dp (of_nat off) 16 de s) (\<lambda>(r, de', s1).
           if r \<noteq> 16 then Inl (Panic ''dirlink read'')
           else if de_inum de' = 0 then Inr (off, de', s1)
           else dirlink_loop dp sz (off + 16) de' s1)
      else Inr (off, de, s))"
  by pat_completeness auto

termination dirlink_loop
  by (relation "measure (\<lambda>(dp, sz, off, de, s). sz - off)") auto

declare dirlink_loop.simps [simp del]

text \<open>\<^verbatim>\<open>strncpy(de.name, name, DIRSIZ)\<close>: the characters up to a zero, then zeros.\<close>

definition name_field :: "byte list \<Rightarrow> byte list" where
  "name_field nm = take DIRSIZ (takeWhile (\<lambda>c. c \<noteq> 0) nm @ replicate DIRSIZ 0)"

definition dirlink :: "nat \<Rightarrow> byte list \<Rightarrow> u32 \<Rightarrow> 'd fsys \<Rightarrow> (int \<times> 'd fsys) result" where
  "dirlink dp nm inum s =
     rbind (dirlookup dp nm s) (\<lambda>(r, s1). case r of
       Some (ip, off) \<Rightarrow> rbind (iput ip s1) (\<lambda>s2. Inr (-1, s2))
     | None \<Rightarrow> rbind (dirlink_loop dp (unat (i_size (ino dp s1))) 0 (replicate 16 0) s1) (\<lambda>(off, de, s2).
         let de' = put16l 0 (ucast inum) (splice 2 (name_field nm) de) in
         rbind (writei (\<lambda>tot m. (bytes_at tot m de', True)) dp (of_nat off) 16 s2) (\<lambda>(r, s3).
         if r \<noteq> 16 then Inr (-1, s3) else Inr (0, s3))))"

section \<open>Paths\<close>

abbreviation slash :: byte where
  "slash \<equiv> 47"

text \<open>\<^verbatim>\<open>skipelem\<close>: the rest of the path and the new contents of \<^verbatim>\<open>name\<close>.\<close>

definition skipelem :: "byte list \<Rightarrow> byte list \<Rightarrow> (byte list \<times> byte list) option" where
  "skipelem path nm =
     (let path1 = dropWhile (\<lambda>c. c = slash) path in
      if path1 = [] then None
      else let s = takeWhile (\<lambda>c. c \<noteq> slash) path1;
               path2 = dropWhile (\<lambda>c. c \<noteq> slash) path1;
               len = length s;
               nm' = (if len \<ge> DIRSIZ then splice 0 (take DIRSIZ s) nm else (splice 0 s nm)[len := 0])
           in Some (dropWhile (\<lambda>c. c = slash) path2, nm'))"

lemma skipelem_shorter:
  assumes "skipelem path nm = Some (rest, nm')"
  shows "length rest < length path"
proof -
  let ?p1 = "dropWhile (\<lambda>c. c = slash) path"
  have ne: "?p1 \<noteq> []" and rest: "rest = dropWhile (\<lambda>c. c = slash) (dropWhile (\<lambda>c. c \<noteq> slash) ?p1)"
    using assms by (auto simp: skipelem_def Let_def split: if_splits)
  obtain c cs where c: "?p1 = c # cs" using ne by (cases ?p1) auto
  have "c \<noteq> slash" using hd_dropWhile[OF ne] c by simp
  then have "dropWhile (\<lambda>c. c \<noteq> slash) ?p1 = dropWhile (\<lambda>c. c \<noteq> slash) cs" using c by simp
  then have "length rest \<le> length cs"
    unfolding rest using le_trans[OF length_dropWhile_le length_dropWhile_le, of "\<lambda>c. c = slash" "\<lambda>c. c \<noteq> slash" cs] by simp
  also have "\<dots> < length ?p1" using c by simp
  also have "\<dots> \<le> length path" by (rule length_dropWhile_le)
  finally show ?thesis .
qed

text \<open>The loop of \<^verbatim>\<open>namex\<close>: the inode found, with the name left in the buffer.\<close>

function namex_loop :: "bool \<Rightarrow> nat \<Rightarrow> byte list \<Rightarrow> byte list \<Rightarrow> 'd fsys \<Rightarrow> (nat option \<times> byte list \<times> 'd fsys) result" where
  "namex_loop nameiparent ip path nm s =
     (case skipelem path nm of
        None \<Rightarrow> if nameiparent then rbind (iput ip s) (\<lambda>s1. Inr (None, nm, s1)) else Inr (Some ip, nm, s)
      | Some (rest, nm') \<Rightarrow>
          rbind (ilock ip s) (\<lambda>s1.
          if i_type (ino ip s1) \<noteq> T_DIR then rbind (iunlockput ip s1) (\<lambda>s2. Inr (None, nm', s2))
          else if nameiparent \<and> rest = [] then rbind (iunlock ip s1) (\<lambda>s2. Inr (Some ip, nm', s2))
          else rbind (dirlookup ip nm' s1) (\<lambda>(r, s2). case r of
            None \<Rightarrow> rbind (iunlockput ip s2) (\<lambda>s3. Inr (None, nm', s3))
          | Some (nx, off) \<Rightarrow> rbind (iunlockput ip s2) (namex_loop nameiparent nx rest nm'))))"
  by pat_completeness auto

termination namex_loop
  by (relation "measure (\<lambda>(np, ip, path, nm, s). length path)") (auto dest: skipelem_shorter)

declare namex_loop.simps [simp del]

definition namex :: "byte list \<Rightarrow> bool \<Rightarrow> byte list \<Rightarrow> 'd fsys \<Rightarrow> (nat option \<times> byte list \<times> 'd fsys) result" where
  "namex path nameiparent nm s =
     (if path \<noteq> [] \<and> hd path = slash
      then rbind (iget ROOTDEV ROOTINO s) (\<lambda>(ip, s1). namex_loop nameiparent ip path nm s1)
      else case idup (cwd s) s of (ip, s1) \<Rightarrow> namex_loop nameiparent ip path nm s1)"

definition namei :: "byte list \<Rightarrow> 'd fsys \<Rightarrow> (nat option \<times> 'd fsys) result" where
  "namei path s = rbind (namex path False (replicate DIRSIZ 0) s) (\<lambda>(r, nm, s1). Inr (r, s1))"

definition nameiparent :: "byte list \<Rightarrow> byte list \<Rightarrow> 'd fsys \<Rightarrow> (nat option \<times> byte list \<times> 'd fsys) result" where
  "nameiparent path nm s = namex path True nm s"

section \<open>What a path means\<close>

text \<open>The elements of a path, cut to 14 characters: the pieces between slashes that are not empty.\<close>

fun pieces :: "byte list \<Rightarrow> byte list \<Rightarrow> byte list list" where
  "pieces acc [] = (if acc = [] then [] else [rev acc])"
| "pieces acc (c # cs) = (if c = slash then (if acc = [] then pieces [] cs else rev acc # pieces [] cs) else pieces (c # acc) cs)"

definition elems :: "byte list \<Rightarrow> byte list list" where
  "elems path = map (take DIRSIZ) (pieces [] path)"

text \<open>The names that \<^verbatim>\<open>namex\<close> takes from a path, one call of \<^verbatim>\<open>skipelem\<close> after the other.\<close>

function walk_names :: "byte list \<Rightarrow> byte list \<Rightarrow> byte list list" where
  "walk_names path nm = (case skipelem path nm of None \<Rightarrow> [] | Some (rest, nm') \<Rightarrow> nm' # walk_names rest nm')"
  by pat_completeness auto

termination walk_names
  by (relation "measure (\<lambda>(path, nm). length path)") (auto dest: skipelem_shorter)

declare walk_names.simps [simp del]

definition cstr :: "byte list \<Rightarrow> byte list" where
  "cstr nm = takeWhile (\<lambda>c. c \<noteq> 0) nm"

lemma pieces_word:
  "pieces acc (takeWhile (\<lambda>c. c \<noteq> slash) p @ q) = pieces (rev (takeWhile (\<lambda>c. c \<noteq> slash) p) @ acc) q"
  by (induction p arbitrary: acc) auto

lemma pieces_slashes: "pieces [] (dropWhile (\<lambda>c. c = slash) p) = pieces [] p"
  by (induction p) auto

lemma pieces_end:
  assumes "q = [] \<or> hd q = slash" "acc \<noteq> []"
  shows "pieces acc q = rev acc # pieces [] q"
  using assms by (cases q) auto

lemma pieces_skip:
  assumes "dropWhile (\<lambda>c. c = slash) path = p" "p \<noteq> []"
  shows "pieces [] path = takeWhile (\<lambda>c. c \<noteq> slash) p # pieces [] (dropWhile (\<lambda>c. c = slash) (dropWhile (\<lambda>c. c \<noteq> slash) p))"
proof -
  let ?w = "takeWhile (\<lambda>c. c \<noteq> slash) p" and ?q = "dropWhile (\<lambda>c. c \<noteq> slash) p"
  have w: "?w \<noteq> []"
  proof -
    have "hd p \<noteq> slash" using hd_dropWhile[of "\<lambda>c. c = slash" path] assms by simp
    then show ?thesis using assms(2) by (cases p) auto
  qed
  have q: "?q = [] \<or> hd ?q = slash" using hd_dropWhile[of "\<lambda>c. c \<noteq> slash" p] by auto
  have "pieces [] path = pieces [] p" using pieces_slashes[of path] assms(1) by simp
  also have "\<dots> = pieces [] (?w @ ?q)" by (simp only: takeWhile_dropWhile_id)
  also have "\<dots> = pieces (rev ?w) ?q" by (simp only: pieces_word append_Nil2)
  also have "\<dots> = ?w # pieces [] ?q" using pieces_end[OF q, of "rev ?w"] w by simp
  also have "pieces [] ?q = pieces [] (dropWhile (\<lambda>c. c = slash) ?q)" by (rule pieces_slashes[symmetric])
  finally show ?thesis .
qed

lemma skipelem_name:
  assumes "length nm = DIRSIZ" "0 \<notin> set w"
  shows "cstr (if length w \<ge> DIRSIZ then splice 0 (take DIRSIZ w) nm else (splice 0 w nm)[length w := 0]) = take DIRSIZ w"
    and "length (if length w \<ge> DIRSIZ then splice 0 (take DIRSIZ w) nm else (splice 0 w nm)[length w := 0]) = DIRSIZ"
proof -
  show "length (if length w \<ge> DIRSIZ then splice 0 (take DIRSIZ w) nm else (splice 0 w nm)[length w := 0]) = DIRSIZ"
    using assms(1) by (auto simp: splice_def)
  have all: "takeWhile (\<lambda>c. c \<noteq> 0) v = v" if "set v \<subseteq> set w" for v using that assms(2) by (auto simp: takeWhile_eq_all_conv)
  show "cstr (if length w \<ge> DIRSIZ then splice 0 (take DIRSIZ w) nm else (splice 0 w nm)[length w := 0]) = take DIRSIZ w"
  proof (cases "length w \<ge> DIRSIZ")
    case True
    then have "splice 0 (take DIRSIZ w) nm = take DIRSIZ w" using assms(1) by (simp add: splice_def)
    then show ?thesis using True all[of "take DIRSIZ w"] by (simp add: cstr_def set_take_subset)
  next
    case False
    then obtain x xs where d: "drop (length w) nm = x # xs" using assms(1) by (cases "drop (length w) nm") auto
    have "(splice 0 w nm)[length w := 0] = w @ 0 # xs" by (simp add: splice_def d list_update_append)
    moreover have "takeWhile (\<lambda>c. c \<noteq> 0) (w @ 0 # xs) = w" using all[of w] assms(2) by (simp add: takeWhile_append)
    ultimately show ?thesis using False by (simp add: cstr_def)
  qed
qed

text \<open>
  C32: the names that path lookup takes from a path one after the other with \<^verbatim>\<open>skipelem\<close> are its
  elements: the non-empty pieces between slashes, cut to 14 characters, in order, whatever the
  buffer for the name held before; and each call leaves a shorter path, so the walk ends.
\<close>

theorem path_elements:
  assumes "0 \<notin> set path" "length nm = DIRSIZ"
  shows "map cstr (walk_names path nm) = elems path"
  using assms
proof (induction path nm rule: walk_names.induct)
  case (1 path nm)
  let ?p = "dropWhile (\<lambda>c. c = slash) path"
  show ?case
  proof (cases "?p = []")
    case True
    then have "pieces [] path = []" by (metis True pieces.simps(1) pieces_slashes)
    moreover have "walk_names path nm = []" using True by (subst walk_names.simps) (simp add: skipelem_def)
    ultimately show ?thesis by (simp add: elems_def)
  next
    case False
    let ?w = "takeWhile (\<lambda>c. c \<noteq> slash) ?p"
    let ?r = "dropWhile (\<lambda>c. c = slash) (dropWhile (\<lambda>c. c \<noteq> slash) ?p)"
    define nm' where "nm' = (if length ?w \<ge> DIRSIZ then splice 0 (take DIRSIZ ?w) nm else (splice 0 ?w nm)[length ?w := 0])"
    have sk: "skipelem path nm = Some (?r, nm')" using False by (simp add: skipelem_def Let_def nm'_def)
    have w0: "0 \<notin> set ?w" "0 \<notin> set ?r" using 1(2) by (auto dest!: set_takeWhileD set_dropWhileD)
    have nm: "cstr nm' = take DIRSIZ ?w" "length nm' = DIRSIZ"
      unfolding nm'_def by (rule skipelem_name[OF 1(3) w0(1)])+
    have "map cstr (walk_names ?r nm') = elems ?r" using 1(1)[OF sk refl w0(2) nm(2)] .
    then show ?thesis using sk nm(1) pieces_skip[OF refl False] by (subst walk_names.simps) (simp add: elems_def)
  qed
qed

theorem path_elements_witness:
  "map cstr (walk_names [47, 47, 97, 47, 98, 99, 47] (replicate 14 1)) = [[97], [98, 99]]"
proof -
  have "map cstr (walk_names [47, 47, 97, 47, 98, 99, 47] (replicate 14 1)) = elems [47, 47, 97, 47, 98, 99, 47]"
    by (rule path_elements) (simp_all add: DIRSIZ_def)
  then show ?thesis by (simp add: elems_def DIRSIZ_def)
qed

end
