(* ===== verification/Ring.thy ===== *)
theory Ring
  imports Prelude
begin

text \<open>
  Ring buffers: an array of \<open>N\<close> cells and two free-running counters, of which only the
  remainder modulo \<open>N\<close> indexes the array.  The counters are words, and \<open>N\<close> divides the number of
  their values, so that they may wrap around.  The pipe, the console and the serial line use
  such buffers; \<open>fifo\<close> is the interface they provide.
\<close>

section \<open>The interface\<close>

locale fifo =
  fixes ok :: "'s \<Rightarrow> bool"
    and q :: "'s \<Rightarrow> 'a list"
    and cap :: nat
    and put :: "'a \<Rightarrow> 's \<Rightarrow> 's"
    and get :: "'s \<Rightarrow> 'a \<times> 's"
  assumes put_ok: "ok s \<Longrightarrow> length (q s) < cap \<Longrightarrow> ok (put x s) \<and> q (put x s) = q s @ [x]"
    and get_ok: "ok s \<Longrightarrow> q s = x # xs \<Longrightarrow> fst (get s) = x \<and> ok (snd (get s)) \<and> q (snd (get s)) = xs"
    and q_cap: "ok s \<Longrightarrow> length (q s) \<le> cap"
begin

lemma put_many:
  "ok s \<Longrightarrow> length (q s) + length xs \<le> cap \<Longrightarrow> ok (fold put xs s) \<and> q (fold put xs s) = q s @ xs"
proof (induction xs arbitrary: s)
  case (Cons x xs)
  then have "ok (put x s)" "q (put x s) = q s @ [x]" using put_ok[of s x] by auto
  with Cons show ?case by simp
qed simp

fun take_out :: "nat \<Rightarrow> 's \<Rightarrow> 'a list \<times> 's" where
  "take_out 0 s = ([], s)"
| "take_out (Suc n) s = (case get s of (x, s1) \<Rightarrow> case take_out n s1 of (xs, s2) \<Rightarrow> (x # xs, s2))"

lemma take_out_ok:
  "ok s \<Longrightarrow> n \<le> length (q s) \<Longrightarrow> fst (take_out n s) = take n (q s) \<and> ok (snd (take_out n s)) \<and>
   q (snd (take_out n s)) = drop n (q s)"
proof (induction n arbitrary: s)
  case (Suc n)
  then obtain x xs where q: "q s = x # xs" by (cases "q s") auto
  obtain y s1 where g: "get s = (y, s1)" by (cases "get s")
  with get_ok[OF Suc.prems(1) q] have "y = x" "ok s1" "q s1 = xs" by auto
  with Suc.IH[of s1] Suc.prems(2) q g show ?case by (auto split: prod.split)
qed simp

text \<open>What goes in comes out in the same order.\<close>

lemma put_take:
  "ok s \<Longrightarrow> q s = [] \<Longrightarrow> length xs \<le> cap \<Longrightarrow> fst (take_out (length xs) (fold put xs s)) = xs"
  using put_many[of s xs] take_out_ok[of "fold put xs s" "length xs"] by simp

end

section \<open>Arrays with counters\<close>

definition ring :: "nat \<Rightarrow> 'a list \<Rightarrow> 'l::len word \<Rightarrow> 'l word \<Rightarrow> 'a list" where
  "ring N cells r w = map (\<lambda>k. cells ! (unat (r + of_nat k) mod N)) [0..<unat (w - r)]"

definition ring_ok :: "nat \<Rightarrow> 'a list \<Rightarrow> 'l::len word \<Rightarrow> 'l word \<Rightarrow> bool" where
  "ring_ok N cells r w \<longleftrightarrow> length cells = N \<and> 0 < N \<and> N < 2 ^ LENGTH('l) \<and> N dvd 2 ^ LENGTH('l) \<and> unat (w - r) \<le> N"

lemma length_ring [simp]: "length (ring N cells r w) = unat (w - r)"
  by (simp add: ring_def)

lemma ring_empty: "ring N cells r w = [] \<longleftrightarrow> r = w"
  by (auto simp: ring_def unat_eq_0)

lemma unat_add_mod:
  fixes r :: "'l::len word"
  assumes "N dvd 2 ^ LENGTH('l)"
  shows "unat (r + of_nat k) mod N = (unat r + k) mod N"
proof -
  have "unat (r + of_nat k) mod N = (unat r + k) mod 2 ^ LENGTH('l) mod N"
    by (simp add: unat_word_ariths unat_of_nat mod_simps)
  also have "\<dots> = (unat r + k) mod N" using assms by (rule mod_mod_cancel)
  finally show ?thesis .
qed

lemma unat_inc: "Suc (unat (x :: 'l::len word)) < 2 ^ LENGTH('l) \<Longrightarrow> unat (x + 1) = Suc (unat x)"
  by (simp add: unat_word_ariths)

lemma unat_dec: "x \<noteq> 0 \<Longrightarrow> unat ((x :: 'l::len word) - 1) = unat x - 1"
  by (simp add: unat_minus_one)

lemma ring_put:
  fixes r w :: "'l::len word"
  assumes ok: "ring_ok N cells r w" and room: "unat (w - r) < N"
  shows "ring N (cells[unat w mod N := x]) r (w + 1) = ring N cells r w @ [x]"
    and "ring_ok N (cells[unat w mod N := x]) r (w + 1)"
proof -
  have N: "length cells = N" "0 < N" "N < 2 ^ LENGTH('l)" "N dvd 2 ^ LENGTH('l)" using ok by (simp_all add: ring_ok_def)
  have e: "w + 1 - r = (w - r) + 1" by (simp add: algebra_simps)
  have u: "unat (w + 1 - r) = Suc (unat (w - r))" unfolding e by (rule unat_inc) (use room N(3) in simp)
  have wr: "w = r + of_nat (unat (w - r))" by simp
  have wm: "unat w mod N = (unat r + unat (w - r)) mod N" using unat_add_mod[OF N(4), of r "unat (w - r)"] wr by simp
  have ne: "(unat r + k) mod N \<noteq> unat w mod N" if "k < unat (w - r)" for k
  proof
    assume "(unat r + k) mod N = unat w mod N"
    then have "(unat r + unat (w - r)) mod N = (unat r + k) mod N" using wm by simp
    then have "N dvd unat r + unat (w - r) - (unat r + k)" by (rule mod_eq_dvd_iff_nat[THEN iffD1, rotated]) (use that in simp)
    then have "N dvd unat (w - r) - k" by simp
    with that room show False by (auto dest!: dvd_imp_le)
  qed
  have lt: "unat w mod N < length cells" using N by simp
  show "ring N (cells[unat w mod N := x]) r (w + 1) = ring N cells r w @ [x]"
  proof (rule nth_equalityI)
    show "length (ring N (cells[unat w mod N := x]) r (w + 1)) = length (ring N cells r w @ [x])" using u by simp
    fix k
    assume "k < length (ring N (cells[unat w mod N := x]) r (w + 1))"
    then have k: "k < Suc (unat (w - r))" using u by simp
    show "ring N (cells[unat w mod N := x]) r (w + 1) ! k = (ring N cells r w @ [x]) ! k"
    proof (cases "k = unat (w - r)")
      case True
      then show ?thesis using u lt wm by (simp add: ring_def unat_add_mod[OF N(4)] nth_append)
    next
      case False
      then have "k < unat (w - r)" using k by simp
      then show ?thesis using u ne[of k] by (simp add: ring_def unat_add_mod[OF N(4)] nth_append)
    qed
  qed
  show "ring_ok N (cells[unat w mod N := x]) r (w + 1)" using ok room u by (simp add: ring_ok_def)
qed

lemma ring_get:
  fixes r w :: "'l::len word"
  assumes ok: "ring_ok N cells r w" and ne: "r \<noteq> w"
  shows "ring N cells r w = cells ! (unat r mod N) # ring N cells (r + 1) w"
    and "ring_ok N cells (r + 1) w"
proof -
  have "w - r \<noteq> 0" using ne by simp
  then have p: "0 < unat (w - r)" by (simp add: unat_gt_0)
  have e: "w - (r + 1) = (w - r) - 1" by (simp add: algebra_simps)
  have u: "unat (w - (r + 1)) = unat (w - r) - 1" unfolding e by (rule unat_dec) fact
  then have s: "unat (w - r) = Suc (unat (w - (r + 1)))" using p by simp
  show "ring N cells r w = cells ! (unat r mod N) # ring N cells (r + 1) w"
    unfolding ring_def s by (simp add: upt_conv_Cons map_Suc_upt[symmetric] comp_def ac_simps del: upt_Suc)
  show "ring_ok N cells (r + 1) w" using ok u by (auto simp: ring_ok_def)
qed

end
