(* ===== verification/Pipe.thy ===== *)
theory Pipe
  imports Ring
begin

text \<open>
  \<^verbatim>\<open>kernel/pipe.c\<close>.  The lock of a pipe is held from the start of an operation to its end or to
  a \<^verbatim>\<open>sleep\<close>, so what runs without interruption is the part of \<^verbatim>\<open>pipewrite\<close> or \<^verbatim>\<open>piperead\<close> from
  the head of its loop to a return or to a sleep.  The functions below run such a part: they
  return the result or the place where the caller sleeps, with the channels that were woken up
  on the way.  User memory is an argument: \<open>ci i\<close> is the byte \<^verbatim>\<open>copyin\<close> gets from \<open>addr + i\<close>, and
  \<open>co i\<close> whether \<^verbatim>\<open>copyout\<close> to \<open>addr + i\<close> succeeds.
\<close>

section \<open>Model\<close>

definition PIPESIZE :: nat where [const_simps]: "PIPESIZE = 512"

record pipe =
  data :: "byte list"
  nread :: u32
  nwrite :: u32
  readopen :: bool
  writeopen :: bool

text \<open>The channels a process can sleep on: \<^verbatim>\<open>&pi->nread\<close> and \<^verbatim>\<open>&pi->nwrite\<close>.\<close>

datatype chan = ChanRead | ChanWrite

datatype outcome =
    Returned int
  | Asleep chan nat    \<comment> \<open>with the value of the local \<^verbatim>\<open>i\<close>\<close>

text \<open>The fields \<^verbatim>\<open>pipealloc\<close> sets; the contents of the page are what they were.\<close>

definition pipealloc_init :: "byte list \<Rightarrow> pipe" where
  "pipealloc_init page = \<lparr>data = page, nread = 0, nwrite = 0, readopen = True, writeopen = True\<rparr>"

text \<open>\<^verbatim>\<open>pipeclose\<close>: the pipe, the channel woken up, and whether the page is freed.\<close>

definition pipeclose :: "bool \<Rightarrow> pipe \<Rightarrow> pipe \<times> chan \<times> bool" where
  "pipeclose writable pi =
     (let (pi', c) = (if writable then (pi\<lparr>writeopen := False\<rparr>, ChanRead) else (pi\<lparr>readopen := False\<rparr>, ChanWrite))
      in (pi', c, \<not> readopen pi' \<and> \<not> writeopen pi'))"

definition pipe_put :: "byte \<Rightarrow> pipe \<Rightarrow> pipe" where
  "pipe_put ch pi = pi\<lparr>data := (data pi)[unat (nwrite pi) mod PIPESIZE := ch], nwrite := nwrite pi + 1\<rparr>"

definition pipe_get :: "pipe \<Rightarrow> byte \<times> pipe" where
  "pipe_get pi = (data pi ! (unat (nread pi) mod PIPESIZE), pi\<lparr>nread := nread pi + 1\<rparr>)"

function pipewrite :: "(nat \<Rightarrow> byte option) \<Rightarrow> bool \<Rightarrow> nat \<Rightarrow> nat \<Rightarrow> pipe \<Rightarrow> outcome \<times> pipe \<times> chan list" where
  "pipewrite ci killed n i pi =
     (if i < n
      then if \<not> readopen pi \<or> killed then (Returned (-1), pi, [])
           else if nwrite pi = nread pi + of_nat PIPESIZE then (Asleep ChanWrite i, pi, [ChanRead])
           else case ci i of
                  None \<Rightarrow> (Returned (int i), pi, [ChanRead])
                | Some ch \<Rightarrow> pipewrite ci killed n (i + 1) (pipe_put ch pi)
      else (Returned (int i), pi, [ChanRead]))"
  by pat_completeness auto

termination pipewrite
  by (relation "measure (\<lambda>(ci, killed, n, i, pi). n - i)") auto

declare pipewrite.simps [simp del]

text \<open>The copying loop of \<^verbatim>\<open>piperead\<close>: the bytes taken out, and how many of them arrived.\<close>

function piperead_copy :: "(nat \<Rightarrow> bool) \<Rightarrow> nat \<Rightarrow> nat \<Rightarrow> pipe \<Rightarrow> byte list \<times> nat \<times> pipe" where
  "piperead_copy co n i pi =
     (if i < n \<and> nread pi \<noteq> nwrite pi
      then case pipe_get pi of (ch, pi') \<Rightarrow>
             if \<not> co i then ([ch], i, pi')
             else case piperead_copy co n (i + 1) pi' of (bs, k, pi'') \<Rightarrow> (ch # bs, k, pi'')
      else ([], i, pi))"
  by pat_completeness auto

termination piperead_copy
  by (relation "measure (\<lambda>(co, n, i, pi). n - i)") auto

declare piperead_copy.simps [simp del]

definition piperead :: "(nat \<Rightarrow> bool) \<Rightarrow> bool \<Rightarrow> nat \<Rightarrow> pipe \<Rightarrow> outcome \<times> byte list \<times> pipe \<times> chan list" where
  "piperead co killed n pi =
     (if nread pi = nwrite pi \<and> writeopen pi
      then if killed then (Returned (-1), [], pi, []) else (Asleep ChanRead 0, [], pi, [])
      else case piperead_copy co n 0 pi of (bs, k, pi') \<Rightarrow> (Returned (int k), bs, pi', [ChanWrite]))"

section \<open>The pipe is a queue of at most 512 bytes\<close>

definition pipe_ok :: "pipe \<Rightarrow> bool" where
  "pipe_ok pi \<longleftrightarrow> ring_ok PIPESIZE (data pi) (nread pi) (nwrite pi)"

definition pipe_queue :: "pipe \<Rightarrow> byte list" where
  "pipe_queue pi = ring PIPESIZE (data pi) (nread pi) (nwrite pi)"

lemma pipe_full: "pipe_ok pi \<Longrightarrow> nwrite pi = nread pi + of_nat PIPESIZE \<longleftrightarrow> length (pipe_queue pi) = PIPESIZE"
proof
  assume "length (pipe_queue pi) = PIPESIZE"
  then have "of_nat (unat (nwrite pi - nread pi)) = (of_nat PIPESIZE :: u32)" by (simp add: pipe_queue_def)
  then show "nwrite pi = nread pi + of_nat PIPESIZE" by (simp add: algebra_simps)
qed (simp add: pipe_queue_def PIPESIZE_def)

interpretation pipeq: fifo pipe_ok pipe_queue PIPESIZE pipe_put pipe_get
proof unfold_locales
  show "pipe_ok (pipe_put x s) \<and> pipe_queue (pipe_put x s) = pipe_queue s @ [x]"
    if "pipe_ok s" "length (pipe_queue s) < PIPESIZE" for s x
    using that ring_put[of PIPESIZE "data s" "nread s" "nwrite s"]
    by (simp add: pipe_ok_def pipe_queue_def pipe_put_def)
  show "fst (pipe_get s) = x \<and> pipe_ok (snd (pipe_get s)) \<and> pipe_queue (snd (pipe_get s)) = xs"
    if "pipe_ok s" "pipe_queue s = x # xs" for s x xs
  proof -
    have "nread s \<noteq> nwrite s" using that(2) ring_empty[of PIPESIZE "data s" "nread s" "nwrite s"] by (auto simp: pipe_queue_def)
    with that ring_get[of PIPESIZE "data s" "nread s" "nwrite s"] show ?thesis
      by (simp add: pipe_ok_def pipe_queue_def pipe_get_def)
  qed
  show "length (pipe_queue s) \<le> PIPESIZE" if "pipe_ok s" for s
    using that by (simp add: pipe_ok_def pipe_queue_def ring_ok_def)
qed

lemma pipe_empty: "pipe_queue pi = [] \<longleftrightarrow> nread pi = nwrite pi"
  unfolding pipe_queue_def by (rule ring_empty)

lemma pipealloc_ok: "length page = PIPESIZE \<Longrightarrow> pipe_ok (pipealloc_init page) \<and> pipe_queue (pipealloc_init page) = []"
  by (simp add: pipe_ok_def pipe_queue_def pipealloc_init_def ring_ok_def ring_def PIPESIZE_def)

section \<open>One run of the writer and of the reader\<close>

lemma pipe_put_simps [simp]:
  "nread (pipe_put ch pi) = nread pi" "nwrite (pipe_put ch pi) = nwrite pi + 1"
  "readopen (pipe_put ch pi) = readopen pi" "writeopen (pipe_put ch pi) = writeopen pi"
  by (simp_all add: pipe_put_def)

text \<open>Whatever happens, the writer appends bytes of the caller's buffer in order.\<close>

lemma pipewrite_appends:
  assumes "pipe_ok pi" "pipewrite ci killed n i pi = (out, pi', wk)"
  shows "\<exists>k. pipe_ok pi' \<and> pipe_queue pi' = pipe_queue pi @ map (\<lambda>j. the (ci j)) [i..<i + k] \<and>
     nwrite pi' = nwrite pi + of_nat k \<and> length (pipe_queue pi) + k \<le> PIPESIZE"
  using assms
proof (induction ci killed n i pi arbitrary: out pi' wk rule: pipewrite.induct)
  case (1 ci killed n i pi)
  note run = 1(3)[unfolded pipewrite.simps[of ci killed n i pi]]
  have cap: "length (pipe_queue pi) \<le> PIPESIZE" by (rule pipeq.q_cap[OF 1(2)])
  show ?case
  proof (cases "i < n \<and> readopen pi \<and> \<not> killed \<and> nwrite pi \<noteq> nread pi + of_nat PIPESIZE \<and> ci i \<noteq> None")
    case True
    then obtain ch where ch: "ci i = Some ch" by auto
    have room: "length (pipe_queue pi) < PIPESIZE" using cap pipe_full[OF 1(2)] True by auto
    have p: "pipe_ok (pipe_put ch pi)" "pipe_queue (pipe_put ch pi) = pipe_queue pi @ [ch]"
      using pipeq.put_ok[OF 1(2) room] by simp_all
    have rec: "pipewrite ci killed n (i + 1) (pipe_put ch pi) = (out, pi', wk)" using run True ch by simp
    have c: "i < n" "\<not> (\<not> readopen pi \<or> killed)" "nwrite pi \<noteq> nread pi + of_nat PIPESIZE" using True by auto
    obtain k where k: "pipe_ok pi'"
       "pipe_queue pi' = pipe_queue (pipe_put ch pi) @ map (\<lambda>j. the (ci j)) [i + 1..<i + 1 + k]"
       "nwrite pi' = nwrite (pipe_put ch pi) + of_nat k" "length (pipe_queue (pipe_put ch pi)) + k \<le> PIPESIZE"
      using 1(1)[OF c ch p(1) rec] by blast
    have "[i..<i + Suc k] = i # [i + 1..<i + 1 + k]" by (simp add: upt_conv_Cons del: upt_Suc)
    then show ?thesis
      by (intro exI[of _ "Suc k"]) (use k p ch in \<open>simp add: ac_simps del: upt_Suc\<close>)
  next
    case False
    then have "pi' = pi" using run by (auto split: if_splits option.splits)
    then show ?thesis using 1(2) cap by (intro exI[of _ 0]) simp
  qed
qed

text \<open>With a reader there and good addresses: all that fits is written.\<close>

lemma pipewrite_run:
  assumes "pipe_ok pi" "readopen pi" "\<forall>j<n. ci j \<noteq> None" "i \<le> n"
  defines "free \<equiv> PIPESIZE - length (pipe_queue pi)"
  shows "\<exists>pi'. pipewrite ci False n i pi = (if n - i \<le> free then (Returned (int n), pi', [ChanRead])
        else (Asleep ChanWrite (i + free), pi', [ChanRead])) \<and>
     pipe_ok pi' \<and> readopen pi' \<and> writeopen pi' = writeopen pi \<and>
     pipe_queue pi' = pipe_queue pi @ map (\<lambda>j. the (ci j)) [i..<min n (i + free)]"
  using assms(1-4) unfolding free_def
proof (induction "n - i" arbitrary: i pi)
  case 0
  then have e: "i = n" by simp
  then have "pipewrite ci False n i pi = (Returned (int n), pi, [ChanRead])" by (subst pipewrite.simps) simp
  then show ?case using e 0 by (intro exI[of _ pi]) simp
next
  case (Suc m)
  have lt: "i < n" using Suc(2) by simp
  have cap: "length (pipe_queue pi) \<le> PIPESIZE" by (rule pipeq.q_cap[OF Suc(3)])
  show ?case
  proof (cases "length (pipe_queue pi) = PIPESIZE")
    case True
    then have "pipewrite ci False n i pi = (Asleep ChanWrite i, pi, [ChanRead])"
      using lt Suc(4) pipe_full[OF Suc(3)] by (subst pipewrite.simps) simp
    then show ?thesis using True lt Suc(3,4) by (intro exI[of _ pi]) simp
  next
    case False
    then have room: "length (pipe_queue pi) < PIPESIZE" using cap by simp
    obtain ch where ch: "ci i = Some ch" using Suc(5) lt by auto
    have p: "pipe_ok (pipe_put ch pi)" "pipe_queue (pipe_put ch pi) = pipe_queue pi @ [ch]"
      using pipeq.put_ok[OF Suc(3) room] by simp_all
    have step: "pipewrite ci False n i pi = pipewrite ci False n (i + 1) (pipe_put ch pi)"
      using lt Suc(4) pipe_full[OF Suc(3)] False ch by (subst pipewrite.simps) simp
    let ?f = "PIPESIZE - length (pipe_queue pi)"
    have f: "PIPESIZE - length (pipe_queue (pipe_put ch pi)) = ?f - 1" using p(2) by simp
    have fp: "0 < ?f" using room by simp
    have m: "m = n - (i + 1)" using Suc(2) by simp
    obtain pi' where pi': "pipewrite ci False n (i + 1) (pipe_put ch pi) =
         (if n - (i + 1) \<le> ?f - 1 then (Returned (int n), pi', [ChanRead])
          else (Asleep ChanWrite (i + 1 + (?f - 1)), pi', [ChanRead]))"
       "pipe_ok pi'" "readopen pi'" "writeopen pi' = writeopen pi"
       "pipe_queue pi' = pipe_queue (pipe_put ch pi) @ map (\<lambda>j. the (ci j)) [i + 1..<min n (i + 1 + (?f - 1))]"
      using Suc(1)[OF m p(1) _ Suc(5)] Suc(4) lt unfolding f by auto
    have e: "i + 1 + (?f - 1) = i + ?f" using fp by simp
    have c: "n - (i + 1) \<le> ?f - 1 \<longleftrightarrow> n - i \<le> ?f" using fp lt by linarith
    have "[i..<min n (i + ?f)] = i # [i + 1..<min n (i + ?f)]" using fp lt by (simp add: upt_conv_Cons)
    then have "pipe_queue pi' = pipe_queue pi @ map (\<lambda>j. the (ci j)) [i..<min n (i + ?f)]"
      using pi'(5)[unfolded e p(2)] ch by simp
    then show ?thesis
      unfolding step pi'(1) e c using pi'(2-4) by blast
  qed
qed

lemma piperead_copy_takes:
  assumes "pipe_ok pi" "piperead_copy co n i pi = (bs, k, pi')"
  shows "pipe_ok pi' \<and> pipe_queue pi = bs @ pipe_queue pi' \<and>
     nwrite pi' = nwrite pi \<and> readopen pi' = readopen pi \<and> writeopen pi' = writeopen pi"
  using assms
proof (induction co n i pi arbitrary: bs k pi' rule: piperead_copy.induct)
  case (1 co n i pi)
  note run = 1(3)[unfolded piperead_copy.simps[of co n i pi]]
  show ?case
  proof (cases "i < n \<and> nread pi \<noteq> nwrite pi")
    case True
    then obtain x xs where q: "pipe_queue pi = x # xs" using pipe_empty[of pi] by (cases "pipe_queue pi") auto
    obtain ch pi1 where g: "pipe_get pi = (ch, pi1)" by (cases "pipe_get pi")
    have p: "ch = x" "pipe_ok pi1" "pipe_queue pi1 = xs" using pipeq.get_ok[OF 1(2) q] g by simp_all
    have f: "nwrite pi1 = nwrite pi" "readopen pi1 = readopen pi" "writeopen pi1 = writeopen pi"
      using g by (auto simp: pipe_get_def)
    show ?thesis
    proof (cases "co i")
      case True
      obtain bs1 k1 pi2 where rec: "piperead_copy co n (i + 1) pi1 = (bs1, k1, pi2)"
        by (cases "piperead_copy co n (i + 1) pi1")
      have "\<not> \<not> co i" using True by simp
      from 1(1)[OF \<open>i < n \<and> nread pi \<noteq> nwrite pi\<close> g[symmetric] this p(2) rec] run g rec True
      show ?thesis using \<open>i < n \<and> nread pi \<noteq> nwrite pi\<close> p q f by auto
    next
      case False
      then show ?thesis using run g \<open>i < n \<and> nread pi \<noteq> nwrite pi\<close> p q f by auto
    qed
  qed (use run 1(2) in auto)
qed

lemma piperead_copy_run:
  assumes "pipe_ok pi" "\<forall>j<n. co j" "i \<le> n"
  shows "\<exists>pi'. piperead_copy co n i pi = (take (n - i) (pipe_queue pi), i + min (n - i) (length (pipe_queue pi)), pi') \<and>
     pipe_queue pi' = drop (n - i) (pipe_queue pi)"
  using assms
proof (induction "n - i" arbitrary: i pi)
  case 0
  then have "piperead_copy co n i pi = ([], i, pi)" by (subst piperead_copy.simps) simp
  then show ?case using 0 by simp
next
  case (Suc m)
  have lt: "i < n" using Suc(2) by simp
  show ?case
  proof (cases "pipe_queue pi")
    case Nil
    then have "piperead_copy co n i pi = ([], i, pi)" using pipe_empty[of pi] by (subst piperead_copy.simps) simp
    then show ?thesis using Nil by simp
  next
    case (Cons x xs)
    then have ne: "nread pi \<noteq> nwrite pi" using pipe_empty[of pi] by auto
    obtain ch pi1 where g: "pipe_get pi = (ch, pi1)" by (cases "pipe_get pi")
    have p: "ch = x" "pipe_ok pi1" "pipe_queue pi1 = xs" using pipeq.get_ok[OF Suc(3) Cons] g by simp_all
    have m: "m = n - (i + 1)" "n - i = Suc (n - (i + 1))" using Suc(2) by simp_all
    obtain pi' where pi': "piperead_copy co n (i + 1) pi1 = (take (n - (i + 1)) xs, i + 1 + min (n - (i + 1)) (length xs), pi')"
       "pipe_queue pi' = drop (n - (i + 1)) xs"
      using Suc(1)[OF m(1) p(2) Suc(4)] lt p(3) by auto
    have "piperead_copy co n i pi = (x # take (n - (i + 1)) xs, i + 1 + min (n - (i + 1)) (length xs), pi')"
      using lt ne g Suc(4) pi'(1) p(1) by (subst piperead_copy.simps) simp
    then show ?thesis using pi'(2) Cons m(2) by simp
  qed
qed

section \<open>Any interleaving\<close>

text \<open>A pipe with what was put into it and what was taken out of it so far.\<close>

record psys =
  pp :: pipe
  sent :: "byte list"
  got :: "byte list"

inductive pipe_step :: "psys \<Rightarrow> psys \<Rightarrow> bool" where
  pwrite: "pipewrite ci killed n i (pp s) = (out, pi', wk) \<Longrightarrow>
    pipe_step s (s\<lparr>pp := pi', sent := sent s @ map (\<lambda>j. the (ci j)) [i..<i + unat (nwrite pi' - nwrite (pp s))]\<rparr>)"
| pread: "piperead co killed n (pp s) = (out, bs, pi', wk) \<Longrightarrow> pipe_step s (s\<lparr>pp := pi', got := got s @ bs\<rparr>)"
| pclose: "pipeclose writable (pp s) = (pi', c, freed) \<Longrightarrow> pipe_step s (s\<lparr>pp := pi'\<rparr>)"

definition pipe_start :: "byte list \<Rightarrow> psys" where
  "pipe_start page = \<lparr>pp = pipealloc_init page, sent = [], got = []\<rparr>"

definition pipe_inv :: "psys \<Rightarrow> bool" where
  "pipe_inv s \<longleftrightarrow> pipe_ok (pp s) \<and> sent s = got s @ pipe_queue (pp s)"

lemma pipe_step_inv: "pipe_step s s' \<Longrightarrow> pipe_inv s \<Longrightarrow> pipe_inv s'"
proof (induction rule: pipe_step.induct)
  case (pwrite ci killed n i s out pi' wk)
  obtain k where k: "pipe_ok pi'" "pipe_queue pi' = pipe_queue (pp s) @ map (\<lambda>j. the (ci j)) [i..<i + k]"
     "nwrite pi' = nwrite (pp s) + of_nat k" "length (pipe_queue (pp s)) + k \<le> PIPESIZE"
    using pipewrite_appends[OF _ pwrite(1)] pwrite(2) by (auto simp: pipe_inv_def)
  have "nwrite pi' - nwrite (pp s) = of_nat k" using k(3) by simp
  then have "unat (nwrite pi' - nwrite (pp s)) = unat (of_nat k :: u32)" by (simp only:)
  also have "\<dots> = k" using k(4) by (simp add: unat_of_nat PIPESIZE_def)
  finally show ?case using k(1,2) pwrite(2) by (simp add: pipe_inv_def)
next
  case (pread co killed n s out bs pi' wk)
  obtain bs1 k1 pi1 where c: "piperead_copy co n 0 (pp s) = (bs1, k1, pi1)" by (cases "piperead_copy co n 0 (pp s)")
  have ok: "pipe_ok (pp s)" using pread(2) by (simp add: pipe_inv_def)
  from pread(1) c have "bs = [] \<and> pi' = pp s \<or> bs = bs1 \<and> pi' = pi1"
    by (auto simp: piperead_def split: if_splits)
  then show ?case using pread(2) piperead_copy_takes[OF ok c] by (auto simp: pipe_inv_def)
next
  case (pclose writable s pi' c freed)
  then show ?case
    by (auto simp: pipeclose_def pipe_inv_def pipe_ok_def pipe_queue_def Let_def split: if_splits)
qed

text \<open>
  C15: a pipe is first-in first-out under every interleaving of writers, readers and closes, also
  when calls sleep, fail or are killed in the middle and when the counters wrap around: what was
  put in is what was taken out followed by what is in the buffer, at most 512 bytes.
\<close>

theorem pipe_fifo:
  assumes "length page = PIPESIZE" "pipe_step\<^sup>*\<^sup>* (pipe_start page) s"
  shows "sent s = got s @ pipe_queue (pp s) \<and> length (pipe_queue (pp s)) \<le> PIPESIZE"
proof -
  have "pipe_inv s" using assms(2)
  proof (induction rule: rtranclp_induct)
    case base
    show ?case using pipealloc_ok[OF assms(1)] by (simp add: pipe_inv_def pipe_start_def)
  qed (rule pipe_step_inv)
  then show ?thesis using pipeq.q_cap by (simp add: pipe_inv_def)
qed

theorem pipe_fifo_witness:
  "\<exists>s. pipe_step\<^sup>*\<^sup>* (pipe_start (replicate 512 0)) s \<and> sent s = [7] \<and>
     sent s = got s @ pipe_queue (pp s) \<and> length (pipe_queue (pp s)) \<le> PIPESIZE"
proof -
  have page: "length (replicate 512 0 :: byte list) = PIPESIZE" by (simp add: PIPESIZE_def)
  let ?s = "pipe_start (replicate 512 0)"
  have p: "pp ?s = pipealloc_init (replicate 512 0)" "sent ?s = []" by (simp_all add: pipe_start_def)
  have room: "nwrite (pp ?s) \<noteq> nread (pp ?s) + of_nat PIPESIZE" by (simp add: p pipealloc_init_def PIPESIZE_def)
  have w: "pipewrite (\<lambda>_. Some 7) False 1 0 (pp ?s) = (Returned 1, pipe_put 7 (pp ?s), [ChanRead])"
    using room by (subst pipewrite.simps, subst pipewrite.simps) (simp add: p pipealloc_init_def)
  have "unat (nwrite (pipe_put 7 (pp ?s)) - nwrite (pp ?s)) = 1" by (simp add: pipe_put_def)
  then have "pipe_step ?s (?s\<lparr>pp := pipe_put 7 (pp ?s), sent := [7]\<rparr>)"
    using pipe_step.pwrite[OF w] p(2) by simp
  then have "pipe_step\<^sup>*\<^sup>* ?s (?s\<lparr>pp := pipe_put 7 (pp ?s), sent := [7]\<rparr>)" by (rule r_into_rtranclp)
  from this pipe_fifo[OF page this] show ?thesis by (intro exI[of _ "?s\<lparr>pp := pipe_put 7 (pp ?s), sent := [7]\<rparr>"]) simp
qed

text \<open>
  C24: a reader that empties some room lets a sleeping writer go on: when \<^verbatim>\<open>pipewrite\<close> is asleep
  on a full pipe, a \<^verbatim>\<open>piperead\<close> of at least one byte returns bytes and wakes it up, and the
  resumed \<^verbatim>\<open>pipewrite\<close> gets further before it sleeps again or returns.
\<close>

theorem pipe_progress:
  assumes "pipe_ok pi" "readopen pi" "length (pipe_queue pi) = PIPESIZE" "\<forall>j<n. ci j \<noteq> None" "i < n" "0 < m" "\<forall>j<m. co j"
  shows "pipewrite ci False n i pi = (Asleep ChanWrite i, pi, [ChanRead]) \<and>
     (\<exists>k bs pi'. piperead co False m pi = (Returned (int k), bs, pi', [ChanWrite]) \<and> 0 < k \<and> bs = take k (pipe_queue pi) \<and>
       (\<exists>i' pi''. i < i' \<and> (pipewrite ci False n i pi' = (Asleep ChanWrite i', pi'', [ChanRead]) \<or>
                            pipewrite ci False n i pi' = (Returned (int i'), pi'', [ChanRead]))))"
proof -
  have full: "nwrite pi = nread pi + of_nat PIPESIZE" using pipe_full[OF assms(1)] assms(3) by simp
  have sl: "pipewrite ci False n i pi = (Asleep ChanWrite i, pi, [ChanRead])"
    using assms(2,5) full by (subst pipewrite.simps) simp
  have ne: "nread pi \<noteq> nwrite pi" using pipe_empty[of pi] assms(3) by (auto simp: PIPESIZE_def)
  define k where "k = min m PIPESIZE"
  have k: "0 < k" using assms(6) by (simp add: k_def PIPESIZE_def)
  obtain pi' where pi': "piperead_copy co m 0 pi = (take m (pipe_queue pi), k, pi')" "pipe_queue pi' = drop m (pipe_queue pi)"
    using piperead_copy_run[OF assms(1,7), of 0] assms(3) by (auto simp: k_def)
  have t: "take m (pipe_queue pi) = take k (pipe_queue pi)" using assms(3) by (simp add: k_def min_def)
  have rd: "piperead co False m pi = (Returned (int k), take k (pipe_queue pi), pi', [ChanWrite])"
    using ne pi'(1) t by (simp add: piperead_def)
  have ok': "pipe_ok pi'" "readopen pi'" using piperead_copy_takes[OF assms(1) pi'(1)] assms(2) by simp_all
  let ?f = "PIPESIZE - length (pipe_queue pi')"
  have f: "0 < ?f" using pi'(2) assms(3,6) by (simp add: PIPESIZE_def)
  obtain pi'' where w: "pipewrite ci False n i pi' = (if n - i \<le> ?f then (Returned (int n), pi'', [ChanRead])
        else (Asleep ChanWrite (i + ?f), pi'', [ChanRead]))"
    using pipewrite_run[OF ok' assms(4), of i] assms(5) by auto
  have "\<exists>i' pi''. i < i' \<and> (pipewrite ci False n i pi' = (Asleep ChanWrite i', pi'', [ChanRead]) \<or>
                            pipewrite ci False n i pi' = (Returned (int i'), pi'', [ChanRead]))"
    unfolding w using f assms(5) by (cases "n - i \<le> ?f") (auto intro!: exI[of _ "i + ?f"])
  with sl rd k show ?thesis by blast
qed

theorem pipe_progress_witness:
  "\<exists>pi. length (pipe_queue pi) = PIPESIZE \<and> pipewrite (\<lambda>_. Some 7) False 513 512 pi = (Asleep ChanWrite 512, pi, [ChanRead]) \<and>
     (\<exists>k bs pi'. piperead (\<lambda>_. True) False 1 pi = (Returned (int k), bs, pi', [ChanWrite]) \<and> 0 < k)"
proof -
  let ?p = "pipealloc_init (replicate 512 0)"
  have ok: "pipe_ok ?p" "pipe_queue ?p = []" using pipealloc_ok[of "replicate 512 0"] by (simp_all add: PIPESIZE_def)
  have o: "readopen ?p" by (simp add: pipealloc_init_def)
  obtain pi where pi: "pipe_ok pi" "readopen pi" "length (pipe_queue pi) = PIPESIZE"
    using pipewrite_run[OF ok(1) o, of 513 "\<lambda>_. Some 7" 0] ok(2) by (auto simp: PIPESIZE_def)
  show ?thesis using pipe_progress[OF pi, of 513 "\<lambda>_. Some 7" 512 1 "\<lambda>_. True"] pi(3) by fastforce
qed

end
