(* ===== verification/Kernel.thy ===== *)
theory Kernel
  imports Names Pipe Vm
begin

text \<open>
  The state of the kernel above the file system: processes (\<^verbatim>\<open>kernel/proc.h\<close>), open files
  (\<^verbatim>\<open>kernel/file.h\<close>), pipes and physical memory, with the parts of \<^verbatim>\<open>kernel/proc.c\<close> that act on one entry
  of the process table.  A process is an index into \<^verbatim>\<open>proc\<close>, a file an index into \<^verbatim>\<open>ftable.file\<close>, a
  pipe the address of its page.  A section under a spin lock is one step.  \<open>me\<close> is the index
  of the process that \<^verbatim>\<open>myproc()\<close> returns.  The linker's symbols and the address of \<^verbatim>\<open>forkret\<close> are
  fields that nothing assigns.
\<close>

section \<open>Processes and files\<close>

definition NPROC :: nat where [const_simps]: "NPROC = 64"
definition NOFILE :: nat where [const_simps]: "NOFILE = 16"
definition NFILE :: nat where [const_simps]: "NFILE = 100"
definition NDEV :: nat where [const_simps]: "NDEV = 10"

datatype procstate = UNUSED | USED | SLEEPING | RUNNABLE | RUNNING | ZOMBIE

text \<open>What a process can sleep on: a process (in \<^verbatim>\<open>wait\<close>), one end of a pipe, the tick counter, or another address.\<close>

datatype sleep_chan = ChProc nat | ChPipe u64 chan | ChTicks | ChOther u64

record kcontext =
  ctx_ra :: u64
  ctx_sp :: u64
  ctx_s :: "u64 list"

record proc =
  p_state :: procstate
  p_chan :: "sleep_chan option"
  p_killed :: bool
  p_xstate :: int
  p_pid :: int
  p_parent :: "nat option"
  p_kstack :: u64
  p_sz :: u64
  p_pagetable :: u64
  p_trapframe :: u64
  p_context :: kcontext
  p_ofile :: "nat option list"
  p_cwd :: "nat option"
  p_name :: "byte list"

datatype fdtype = FD_NONE | FD_PIPE | FD_INODE | FD_DEVICE

record kfile =
  f_type :: fdtype
  f_ref :: int
  f_readable :: bool
  f_writable :: bool
  f_pipe :: u64
  f_ip :: nat
  f_off :: u32
  f_major :: u16

record 'd ksys =
  fs :: "'d fsys"
  pm :: kmem
  raid_md :: u64
  pipes :: "u64 \<Rightarrow> pipe"
  ftable :: "kfile list"
  procs :: "proc list"
  me :: nat
  initproc :: "nat option"
  nextpid :: int
  ticks :: u32
  kend :: u64
  trampoline :: u64
  forkret_pc :: u64

abbreviation prc :: "nat \<Rightarrow> 'd ksys \<Rightarrow> proc" where
  "prc i s \<equiv> procs s ! i"

abbreviation myproc :: "'d ksys \<Rightarrow> proc" where
  "myproc s \<equiv> procs s ! me s"

definition upd_proc :: "nat \<Rightarrow> (proc \<Rightarrow> proc) \<Rightarrow> 'd ksys \<Rightarrow> 'd ksys" where
  "upd_proc i f s = s\<lparr>procs := (procs s)[i := f (procs s ! i)]\<rparr>"

definition upd_file :: "nat \<Rightarrow> (kfile \<Rightarrow> kfile) \<Rightarrow> 'd ksys \<Rightarrow> 'd ksys" where
  "upd_file f g s = s\<lparr>ftable := (ftable s)[f := g (ftable s ! f)]\<rparr>"

text \<open>The file system acts for the current process: its pid owns sleep locks, its \<^verbatim>\<open>cwd\<close> starts relative paths.\<close>

definition fs_view :: "'d ksys \<Rightarrow> 'd fsys" where
  "fs_view s =
     (fs s)\<lparr>ls := (ls (fs s))\<lparr>bc := (bc (ls (fs s)))\<lparr>cur := p_pid (myproc s)\<rparr>\<rparr>,
            cwd := (case p_cwd (myproc s) of Some ip \<Rightarrow> ip | None \<Rightarrow> NINODE)\<rparr>"

definition run_fs :: "('d fsys \<Rightarrow> ('a \<times> 'd fsys) result) \<Rightarrow> 'd ksys \<Rightarrow> ('a \<times> 'd ksys) result" where
  "run_fs f s = rbind (f (fs_view s)) (\<lambda>(r, t). Inr (r, s\<lparr>fs := t\<rparr>))"

definition run_fs_unit :: "('d fsys \<Rightarrow> 'd fsys result) \<Rightarrow> 'd ksys \<Rightarrow> 'd ksys result" where
  "run_fs_unit f s = rbind (f (fs_view s)) (\<lambda>t. Inr (s\<lparr>fs := t\<rparr>))"

definition fbegin_op :: "'d fsys \<Rightarrow> 'd fsys result" where
  "fbegin_op t = rbind (begin_op (ls t)) (\<lambda>l. Inr (t\<lparr>ls := l\<rparr>))"

definition fend_op :: "'d fsys \<Rightarrow> 'd fsys result" where
  "fend_op t = rbind (end_op (ls t)) (\<lambda>l. Inr (t\<lparr>ls := l\<rparr>))"

definition kbegin_op :: "'d ksys \<Rightarrow> 'd ksys result" where
  "kbegin_op = run_fs_unit fbegin_op"

definition kend_op :: "'d ksys \<Rightarrow> 'd ksys result" where
  "kend_op = run_fs_unit fend_op"

section \<open>Sleeping, waking up, killing\<close>

text \<open>
  \<^verbatim>\<open>sleep\<close> up to the switch to the scheduler, and what follows it when the process runs again.  The
  lock given to \<^verbatim>\<open>sleep\<close> and the interleavings around it are in the theory of the scheduler.
\<close>

definition sleep_enter :: "sleep_chan \<Rightarrow> 'd ksys \<Rightarrow> 'd ksys" where
  "sleep_enter c s = upd_proc (me s) (\<lambda>p. p\<lparr>p_chan := Some c, p_state := SLEEPING\<rparr>) s"

definition sleep_leave :: "'d ksys \<Rightarrow> 'd ksys" where
  "sleep_leave s = upd_proc (me s) (\<lambda>p. p\<lparr>p_chan := None\<rparr>) s"

text \<open>
  \<^verbatim>\<open>wakeup\<close>.  An entry that is \<^verbatim>\<open>USED\<close> and locked by this CPU is passed over in the code; it is
  not sleeping, so it would not be changed either.
\<close>

definition wake_one :: "sleep_chan \<Rightarrow> proc \<Rightarrow> proc" where
  "wake_one c p = (if p_state p = SLEEPING \<and> p_chan p = Some c then p\<lparr>p_state := RUNNABLE\<rparr> else p)"

definition wakeup :: "sleep_chan \<Rightarrow> 'd ksys \<Rightarrow> 'd ksys" where
  "wakeup c s = fold (\<lambda>i s. if i \<noteq> me s then upd_proc i (wake_one c) s else s) [0..<NPROC] s"

definition kill :: "int \<Rightarrow> 'd ksys \<Rightarrow> int \<times> 'd ksys" where
  "kill k s =
     (case find (\<lambda>i. p_pid (prc i s) = k) [0..<NPROC] of
        None \<Rightarrow> (-1, s)
      | Some i \<Rightarrow> (0, upd_proc i (\<lambda>p. let q = p\<lparr>p_killed := True\<rparr> in
                       if p_state q = SLEEPING then q\<lparr>p_state := RUNNABLE\<rparr> else q) s))"

definition setkilled :: "nat \<Rightarrow> 'd ksys \<Rightarrow> 'd ksys" where
  "setkilled i s = upd_proc i (\<lambda>p. p\<lparr>p_killed := True\<rparr>) s"

definition killed :: "nat \<Rightarrow> 'd ksys \<Rightarrow> bool" where
  "killed i s = p_killed (prc i s)"

section \<open>Copies between the kernel and the caller\<close>

text \<open>\<^verbatim>\<open>either_copyout\<close> and \<^verbatim>\<open>either_copyin\<close>, with the memory on the kernel's side as bytes.\<close>

definition either_copyout :: "bool \<Rightarrow> u64 \<Rightarrow> byte list \<Rightarrow> 'd ksys \<Rightarrow> int \<times> 'd ksys" where
  "either_copyout user_dst dst src s =
     (if user_dst then case copyout (p_pagetable (myproc s)) dst src (pm s) of (r, k) \<Rightarrow> (r, s\<lparr>pm := k\<rparr>)
      else (0, s\<lparr>pm := (pm s)\<lparr>phys := mem_write (phys (pm s)) dst src\<rparr>\<rparr>))"

definition either_copyin :: "bool \<Rightarrow> u64 \<Rightarrow> nat \<Rightarrow> 'd ksys \<Rightarrow> int \<times> byte list" where
  "either_copyin user_src src len s =
     (if user_src then copyin (p_pagetable (myproc s)) src len (pm s)
      else (0, mem_read (phys (pm s)) src len))"

text \<open>What \<^verbatim>\<open>readi\<close> and \<^verbatim>\<open>writei\<close> of a user buffer at \<open>addr\<close> make of them; -1 is the error they test.\<close>

definition user_co :: "u64 \<Rightarrow> u64 \<Rightarrow> nat \<Rightarrow> byte list \<Rightarrow> kmem \<Rightarrow> kmem \<times> bool" where
  "user_co pt addr tot bs k = (case copyout pt (addr + of_nat tot) bs k of (r, k') \<Rightarrow> (k', r \<noteq> -1))"

definition user_ci :: "u64 \<Rightarrow> u64 \<Rightarrow> kmem \<Rightarrow> nat \<Rightarrow> nat \<Rightarrow> byte list \<times> bool" where
  "user_ci pt addr k tot n = (case copyin pt (addr + of_nat tot) n k of (r, bs) \<Rightarrow> (bs, r \<noteq> -1))"

section \<open>Lemmas\<close>

lemma length_upd_proc [simp]: "length (procs (upd_proc i f s)) = length (procs s)"
  by (simp add: upd_proc_def)

lemma prc_upd_proc: "i < length (procs s) \<Longrightarrow> prc j (upd_proc i f s) = (if j = i then f (prc i s) else prc j s)"
  by (simp add: upd_proc_def)

lemma me_upd_proc [simp]: "me (upd_proc i f s) = me s"
  by (simp add: upd_proc_def)

lemma fold_upd_proc:
  assumes "distinct is" "\<forall>i\<in>set is. i < length (procs s)"
  shows "fold (\<lambda>i s. if i \<noteq> me s then upd_proc i g s else s) is s =
     s\<lparr>procs := map (\<lambda>j. if j \<in> set is \<and> j \<noteq> me s then g (prc j s) else prc j s) [0..<length (procs s)]\<rparr>"
  using assms
proof (induction "is" arbitrary: s)
  case Nil
  show ?case by (simp add: map_nth)
next
  case (Cons i "is")
  let ?s = "if i \<noteq> me s then upd_proc i g s else s"
  have "fold (\<lambda>i s. if i \<noteq> me s then upd_proc i g s else s) is ?s =
     ?s\<lparr>procs := map (\<lambda>j. if j \<in> set is \<and> j \<noteq> me ?s then g (prc j ?s) else prc j ?s) [0..<length (procs ?s)]\<rparr>"
    using Cons by (intro Cons.IH) auto
  moreover have "map (\<lambda>j. if j \<in> set is \<and> j \<noteq> me ?s then g (prc j ?s) else prc j ?s) [0..<length (procs ?s)] =
     map (\<lambda>j. if j \<in> set (i # is) \<and> j \<noteq> me s then g (prc j s) else prc j s) [0..<length (procs s)]"
    using Cons.prems by (intro map_cong) (auto simp: prc_upd_proc)
  ultimately show ?case by (simp add: upd_proc_def)
qed

text \<open>\<^verbatim>\<open>wakeup\<close> makes exactly the other processes that sleep on the channel runnable.\<close>

lemma wakeup_eq:
  assumes "length (procs s) = NPROC"
  shows "wakeup c s = s\<lparr>procs := map (\<lambda>j. if j \<noteq> me s then wake_one c (prc j s) else prc j s) [0..<NPROC]\<rparr>"
proof -
  have "wakeup c s = s\<lparr>procs := map (\<lambda>j. if j \<in> set [0..<NPROC] \<and> j \<noteq> me s then wake_one c (prc j s) else prc j s) [0..<length (procs s)]\<rparr>"
    unfolding wakeup_def using assms by (intro fold_upd_proc) auto
  also have "map (\<lambda>j. if j \<in> set [0..<NPROC] \<and> j \<noteq> me s then wake_one c (prc j s) else prc j s) [0..<length (procs s)] =
      map (\<lambda>j. if j \<noteq> me s then wake_one c (prc j s) else prc j s) [0..<NPROC]"
    unfolding assms by (rule map_cong) auto
  finally show ?thesis .
qed

end
