(* ===== verification/File.thy ===== *)
theory File
  imports Kernel
begin

text \<open>
  \<^verbatim>\<open>kernel/file.c\<close> and the allocation of pipes in \<^verbatim>\<open>kernel/pipe.c\<close>.  A read or write of a pipe that has to
  wait leaves the caller asleep, with what it did before; it goes on in the loop of the pipe.  The
  function pointers of \<^verbatim>\<open>devsw\<close> are an argument.
\<close>

section \<open>The table of open files\<close>

definition filealloc :: "'d ksys \<Rightarrow> nat option \<times> 'd ksys" where
  "filealloc s =
     (case find (\<lambda>f. f_ref (ftable s ! f) = 0) [0..<NFILE] of
        None \<Rightarrow> (None, s)
      | Some f \<Rightarrow> (Some f, upd_file f (\<lambda>x. x\<lparr>f_ref := 1\<rparr>) s))"

definition filedup :: "nat \<Rightarrow> 'd ksys \<Rightarrow> 'd ksys result" where
  "filedup f s =
     (if f_ref (ftable s ! f) < 1 then Inl (Panic ''filedup'')
      else Inr (upd_file f (\<lambda>x. x\<lparr>f_ref := f_ref x + 1\<rparr>) s))"

definition kpipeclose :: "u64 \<Rightarrow> bool \<Rightarrow> 'd ksys \<Rightarrow> 'd ksys result" where
  "kpipeclose pi writable s =
     (case pipeclose writable (pipes s pi) of (p, c, fin) \<Rightarrow>
        let s1 = wakeup (ChPipe pi c) (s\<lparr>pipes := (pipes s)(pi := p)\<rparr>)
        in if fin then rbind (kfree (kend s1) pi (pm s1)) (\<lambda>k. Inr (s1\<lparr>pm := k\<rparr>)) else Inr s1)"

definition fileclose :: "nat \<Rightarrow> 'd ksys \<Rightarrow> 'd ksys result" where
  "fileclose f s =
     (if f_ref (ftable s ! f) < 1 then Inl (Panic ''fileclose'')
      else let s1 = upd_file f (\<lambda>x. x\<lparr>f_ref := f_ref x - 1\<rparr>) s in
        if f_ref (ftable s1 ! f) > 0 then Inr s1
        else let ff = ftable s1 ! f;
                 s2 = upd_file f (\<lambda>x. x\<lparr>f_ref := 0, f_type := FD_NONE\<rparr>) s1
             in case f_type ff of
                  FD_PIPE \<Rightarrow> kpipeclose (f_pipe ff) (f_writable ff) s2
                | FD_NONE \<Rightarrow> Inr s2
                | _ \<Rightarrow> rbind (kbegin_op s2) (\<lambda>s3. rbind (run_fs_unit (iput (f_ip ff)) s3) kend_op))"

text \<open>\<^verbatim>\<open>pipealloc\<close>; the bytes of the new pipe's buffer are those of the page.\<close>

definition pipealloc :: "'d ksys \<Rightarrow> ((nat \<times> nat) option \<times> 'd ksys) result" where
  "pipealloc s =
     (case filealloc s of (r0, s1) \<Rightarrow> case r0 of
        None \<Rightarrow> Inr (None, s1)
      | Some f0 \<Rightarrow> (case filealloc s1 of (r1, s2) \<Rightarrow> case r1 of
          None \<Rightarrow> rbind (fileclose f0 s2) (\<lambda>s3. Inr (None, s3))
        | Some f1 \<Rightarrow> (case kalloc (pm s2) of (pi, k) \<Rightarrow>
            if pi = 0
            then rbind (fileclose f0 (s2\<lparr>pm := k\<rparr>)) (\<lambda>s3. rbind (fileclose f1 s3) (\<lambda>s4. Inr (None, s4)))
            else let s3 = s2\<lparr>pm := k, pipes := (pipes s2)(pi := pipealloc_init (mem_read (phys k) (pi + 24) PIPESIZE))\<rparr>;
                     s4 = upd_file f0 (\<lambda>x. x\<lparr>f_type := FD_PIPE, f_readable := True, f_writable := False, f_pipe := pi\<rparr>) s3;
                     s5 = upd_file f1 (\<lambda>x. x\<lparr>f_type := FD_PIPE, f_readable := False, f_writable := True, f_pipe := pi\<rparr>) s4
                 in Inr (Some (f0, f1), s5))))"

section \<open>Reading and writing\<close>

text \<open>\<^verbatim>\<open>struct stat\<close> in memory; \<open>pad\<close> are the four bytes of padding before \<^verbatim>\<open>size\<close>.\<close>

definition stat_bytes :: "byte list \<Rightarrow> stat \<Rightarrow> byte list" where
  "stat_bytes pad st = le32 (st_dev st) @ le32 (st_ino st) @ le16 (st_type st) @ le16 (st_nlink st) @ pad @ le64 (st_size st)"

definition filestat :: "byte list \<Rightarrow> nat \<Rightarrow> u64 \<Rightarrow> 'd ksys \<Rightarrow> (int \<times> 'd ksys) result" where
  "filestat pad f addr s =
     (let x = ftable s ! f in
      if f_type x = FD_INODE \<or> f_type x = FD_DEVICE
      then rbind (run_fs_unit (ilock (f_ip x)) s) (\<lambda>s1.
           let st = stati (f_ip x) (fs s1) in
           rbind (run_fs_unit (iunlock (f_ip x)) s1) (\<lambda>s2.
           case copyout (p_pagetable (myproc s2)) addr (stat_bytes pad st) (pm s2) of (r, k) \<Rightarrow>
             if r < 0 then Inr (-1, s2\<lparr>pm := k\<rparr>) else Inr (0, s2\<lparr>pm := k\<rparr>)))
      else Inr (-1, s))"

text \<open>The bytes a pipe hands out go to user memory one at a time; the last one may fail to arrive.\<close>

definition copy_each :: "u64 \<Rightarrow> u64 \<Rightarrow> byte list \<Rightarrow> kmem \<Rightarrow> kmem" where
  "copy_each pt addr bs k = fold (\<lambda>(i, b) k. snd (copyout pt (addr + of_nat i) [b] k)) (enumerate 0 bs) k"

text \<open>How a call of a pipe ends: it wakes others up and returns, or the caller goes to sleep.\<close>

definition pipe_end :: "u64 \<Rightarrow> outcome \<Rightarrow> chan list \<Rightarrow> 'd ksys \<Rightarrow> outcome \<times> 'd ksys" where
  "pipe_end pi out wk s =
     (let s1 = fold (\<lambda>c. wakeup (ChPipe pi c)) wk s
      in (out, case out of Returned r \<Rightarrow> s1 | Asleep c i \<Rightarrow> sleep_enter (ChPipe pi c) s1))"

definition kpiperead :: "u64 \<Rightarrow> u64 \<Rightarrow> int \<Rightarrow> 'd ksys \<Rightarrow> outcome \<times> 'd ksys" where
  "kpiperead pi addr n s =
     (let pt = p_pagetable (myproc s);
          co = (\<lambda>i. fst (copyout pt (addr + of_nat i) [0] (pm s)) \<noteq> -1)
      in case piperead co (killed (me s) s) (nat n) (pipes s pi) of
           (out, bs, p, wk) \<Rightarrow>
             pipe_end pi out wk (s\<lparr>pipes := (pipes s)(pi := p), pm := copy_each pt addr bs (pm s)\<rparr>))"

definition kpipewrite :: "u64 \<Rightarrow> u64 \<Rightarrow> int \<Rightarrow> nat \<Rightarrow> 'd ksys \<Rightarrow> outcome \<times> 'd ksys" where
  "kpipewrite pi addr n i s =
     (let ci = (\<lambda>i. case copyin (p_pagetable (myproc s)) (addr + of_nat i) 1 (pm s) of
                      (r, bs) \<Rightarrow> if r = -1 then None else Some (hd bs))
      in case pipewrite ci (killed (me s) s) (nat n) i (pipes s pi) of
           (out, p, wk) \<Rightarrow> pipe_end pi out wk (s\<lparr>pipes := (pipes s)(pi := p)\<rparr>))"

type_synonym 'd devop = "u64 \<Rightarrow> int \<Rightarrow> 'd ksys \<Rightarrow> (outcome \<times> 'd ksys) result"

definition bad_major :: "u16 \<Rightarrow> bool" where
  "bad_major m \<longleftrightarrow> sint m < 0 \<or> sint m \<ge> int NDEV"

definition fileread :: "(nat \<Rightarrow> 'd devop option) \<Rightarrow> nat \<Rightarrow> u64 \<Rightarrow> int \<Rightarrow> 'd ksys \<Rightarrow> (outcome \<times> 'd ksys) result" where
  "fileread dev_read f addr n s =
     (let x = ftable s ! f in
      if \<not> f_readable x then Inr (Returned (-1), s)
      else case f_type x of
        FD_PIPE \<Rightarrow> Inr (kpiperead (f_pipe x) addr n s)
      | FD_DEVICE \<Rightarrow>
          (if bad_major (f_major x) then Inr (Returned (-1), s)
           else case dev_read (unat (f_major x)) of
                  None \<Rightarrow> Inr (Returned (-1), s)
                | Some rd \<Rightarrow> rd addr n s)
      | FD_INODE \<Rightarrow>
          rbind (run_fs_unit (ilock (f_ip x)) s) (\<lambda>s1.
          rbind (run_fs (\<lambda>t. rbind (readi (user_co (p_pagetable (myproc s1)) addr) (f_ip x) (f_off x) (of_int n) (pm s1) t)
                        (\<lambda>(r, k, t'). Inr ((r, k), t'))) s1) (\<lambda>((r, k), s2).
          let s3 = s2\<lparr>pm := k\<rparr>;
              s4 = (if r > 0 then upd_file f (\<lambda>x. x\<lparr>f_off := f_off x + of_int r\<rparr>) s3 else s3)
          in rbind (run_fs_unit (iunlock (f_ip x)) s4) (\<lambda>s5. Inr (Returned r, s5))))
      | FD_NONE \<Rightarrow> Inl (Panic ''fileread''))"

text \<open>The loop of \<^verbatim>\<open>filewrite\<close> for an inode: at most 3072 bytes in one transaction.\<close>

definition max_write :: int where [const_simps]: "max_write = int ((MAXOPBLOCKS - 1 - 1 - 2) div 2 * BSIZE)"

function filewrite_loop :: "nat \<Rightarrow> u64 \<Rightarrow> int \<Rightarrow> int \<Rightarrow> 'd ksys \<Rightarrow> (int \<times> 'd ksys) result" where
  "filewrite_loop f addr n i s =
     (if i < n
      then let n1 = min (n - i) max_write; x = ftable s ! f in
           rbind (kbegin_op s) (\<lambda>s1.
           rbind (run_fs_unit (ilock (f_ip x)) s1) (\<lambda>s2.
           rbind (run_fs (writei (user_ci (p_pagetable (myproc s2)) (addr + of_int i) (pm s2)) (f_ip x) (f_off x) (of_int n1)) s2) (\<lambda>(r, s3).
           let s4 = (if r > 0 then upd_file f (\<lambda>x. x\<lparr>f_off := f_off x + of_int r\<rparr>) s3 else s3)
           in rbind (run_fs_unit (iunlock (f_ip x)) s4) (\<lambda>s5.
              rbind (kend_op s5) (\<lambda>s6.
              if r \<noteq> n1 then Inr (i, s6) else filewrite_loop f addr n (i + r) s6)))))
      else Inr (i, s))"
  by pat_completeness auto

termination filewrite_loop
  by (relation "measure (\<lambda>(f, addr, n, i, s). nat (n - i))") (auto simp: max_write_def MAXOPBLOCKS_def BSIZE_def)

declare filewrite_loop.simps [simp del]

definition filewrite :: "(nat \<Rightarrow> 'd devop option) \<Rightarrow> nat \<Rightarrow> u64 \<Rightarrow> int \<Rightarrow> 'd ksys \<Rightarrow> (outcome \<times> 'd ksys) result" where
  "filewrite dev_write f addr n s =
     (let x = ftable s ! f in
      if \<not> f_writable x then Inr (Returned (-1), s)
      else case f_type x of
        FD_PIPE \<Rightarrow> Inr (kpipewrite (f_pipe x) addr n 0 s)
      | FD_DEVICE \<Rightarrow>
          (if bad_major (f_major x) then Inr (Returned (-1), s)
           else case dev_write (unat (f_major x)) of
                  None \<Rightarrow> Inr (Returned (-1), s)
                | Some wr \<Rightarrow> wr addr n s)
      | FD_INODE \<Rightarrow> rbind (filewrite_loop f addr n 0 s) (\<lambda>(i, s1). Inr (Returned (if i = n then n else -1), s1))
      | FD_NONE \<Rightarrow> Inl (Panic ''filewrite''))"

end
