(* ===== verification/Proc.thy ===== *)
theory Proc
  imports File
begin

text \<open>
  The life of a process, \<^verbatim>\<open>kernel/proc.c\<close>: creation, \<^verbatim>\<open>fork\<close>, growth, \<^verbatim>\<open>exit\<close> and \<^verbatim>\<open>wait\<close>.  \<^verbatim>\<open>wait_lock\<close> and the
  locks of the processes make each of these steps one, up to a \<^verbatim>\<open>sleep\<close>; the switch to the scheduler
  and the hand-over of \<^verbatim>\<open>p->lock\<close> are in the theory of the scheduler.
\<close>

section \<open>Allocation\<close>

definition TRAMPOLINE :: u64 where [const_simps]: "TRAMPOLINE = MAXVA - of_nat PGSIZE"
definition TRAPFRAME :: u64 where [const_simps]: "TRAPFRAME = TRAMPOLINE - of_nat PGSIZE"
definition KSTACK :: "nat \<Rightarrow> u64" where "KSTACK p = TRAMPOLINE - of_nat (p + 1) * 2 * of_nat PGSIZE"

text \<open>Page tables have three levels, which bounds the recursion of \<^verbatim>\<open>freewalk\<close>.\<close>

definition PTLEVELS :: nat where [const_simps]: "PTLEVELS = 3"

definition proc_mapstacks :: "u64 \<Rightarrow> kmem \<Rightarrow> kmem result" where
  "proc_mapstacks kpgtbl k =
     rfold (\<lambda>i k. case kalloc k of (pa, k1) \<Rightarrow>
        if pa = 0 then Inl (Panic ''kalloc'')
        else kvmmap kpgtbl (KSTACK i) pa (of_nat PGSIZE) (PTE_R OR PTE_W) k1) [0..<NPROC] k"

definition procinit :: "'d ksys \<Rightarrow> 'd ksys" where
  "procinit s = fold (\<lambda>i. upd_proc i (\<lambda>p. p\<lparr>p_state := UNUSED, p_kstack := KSTACK i\<rparr>)) [0..<NPROC] s"

definition allocpid :: "'d ksys \<Rightarrow> int \<times> 'd ksys" where
  "allocpid s = (nextpid s, s\<lparr>nextpid := nextpid s + 1\<rparr>)"

definition proc_freepagetable :: "u64 \<Rightarrow> u64 \<Rightarrow> u64 \<Rightarrow> kmem \<Rightarrow> kmem result" where
  "proc_freepagetable ke pagetable sz k =
     rbind (uvmunmap ke pagetable TRAMPOLINE 1 False k) (\<lambda>k1.
     rbind (uvmunmap ke pagetable TRAPFRAME 1 False k1) (\<lambda>k2.
     uvmfree PTLEVELS ke pagetable sz k2))"

definition freeproc :: "nat \<Rightarrow> 'd ksys \<Rightarrow> 'd ksys result" where
  "freeproc i s =
     rbind (if p_trapframe (prc i s) \<noteq> 0 then kfree (kend s) (p_trapframe (prc i s)) (pm s) else Inr (pm s)) (\<lambda>k1.
     rbind (if p_pagetable (prc i s) \<noteq> 0
            then proc_freepagetable (kend s) (p_pagetable (prc i s)) (p_sz (prc i s)) k1 else Inr k1) (\<lambda>k2.
     Inr (upd_proc i (\<lambda>p. p\<lparr>p_state := UNUSED, p_chan := None, p_killed := False, p_xstate := 0, p_pid := 0,
        p_parent := None, p_sz := 0, p_pagetable := 0, p_trapframe := 0, p_name := (p_name p)[0 := 0]\<rparr>) (s\<lparr>pm := k2\<rparr>))))"

definition proc_pagetable :: "nat \<Rightarrow> 'd ksys \<Rightarrow> (u64 \<times> 'd ksys) result" where
  "proc_pagetable i s =
     (case uvmcreate (pm s) of (pagetable, k1) \<Rightarrow>
        if pagetable = 0 then Inr (0, s\<lparr>pm := k1\<rparr>)
        else rbind (mappages pagetable TRAMPOLINE (of_nat PGSIZE) (trampoline s) (PTE_R OR PTE_X) k1) (\<lambda>(r, k2).
          if r < 0 then rbind (uvmfree PTLEVELS (kend s) pagetable 0 k2) (\<lambda>k3. Inr (0, s\<lparr>pm := k3\<rparr>))
          else rbind (mappages pagetable TRAPFRAME (of_nat PGSIZE) (p_trapframe (prc i s)) (PTE_R OR PTE_W) k2) (\<lambda>(r', k4).
            if r' < 0
            then rbind (uvmunmap (kend s) pagetable TRAMPOLINE 1 False k4) (\<lambda>k5.
                 rbind (uvmfree PTLEVELS (kend s) pagetable 0 k5) (\<lambda>k6. Inr (0, s\<lparr>pm := k6\<rparr>)))
            else Inr (pagetable, s\<lparr>pm := k4\<rparr>))))"

definition allocproc :: "'d ksys \<Rightarrow> (nat option \<times> 'd ksys) result" where
  "allocproc s =
     (case find (\<lambda>i. p_state (prc i s) = UNUSED) [0..<NPROC] of
        None \<Rightarrow> Inr (None, s)
      | Some i \<Rightarrow>
          (case allocpid s of (newpid, s1) \<Rightarrow>
           let s2 = upd_proc i (\<lambda>p. p\<lparr>p_state := USED, p_pid := newpid\<rparr>) s1 in
           case kalloc (pm s2) of (tf, k) \<Rightarrow>
           let s3 = upd_proc i (\<lambda>p. p\<lparr>p_trapframe := tf\<rparr>) (s2\<lparr>pm := k\<rparr>) in
           if tf = 0 then rbind (freeproc i s3) (\<lambda>s4. Inr (None, s4))
           else rbind (proc_pagetable i s3) (\<lambda>(pt, s4).
             let s5 = upd_proc i (\<lambda>p. p\<lparr>p_pagetable := pt\<rparr>) s4 in
             if pt = 0 then rbind (freeproc i s5) (\<lambda>s6. Inr (None, s6))
             else Inr (Some i, upd_proc i (\<lambda>p. p\<lparr>p_context := \<lparr>ctx_ra = forkret_pc s5,
                    ctx_sp = p_kstack p + of_nat PGSIZE, ctx_s = replicate 12 0\<rparr>\<rparr>) s5))))"

text \<open>\<^verbatim>\<open>safestrcpy\<close> into a \<^verbatim>\<open>char name[16]\<close>.\<close>

definition copy_name :: "byte list \<Rightarrow> byte list \<Rightarrow> byte list" where
  "copy_name src dst = splice 0 (take 15 (takeWhile (\<lambda>c. c \<noteq> 0) src) @ [0]) dst"

definition initcode :: "byte list" where
  "initcode = [0x17, 0x05, 0x00, 0x00, 0x13, 0x05, 0x45, 0x02,
     0x97, 0x05, 0x00, 0x00, 0x93, 0x85, 0x35, 0x02,
     0x93, 0x08, 0x70, 0x00, 0x73, 0x00, 0x00, 0x00,
     0x93, 0x08, 0x20, 0x00, 0x73, 0x00, 0x00, 0x00,
     0xef, 0xf0, 0x9f, 0xff, 0x2f, 0x69, 0x6e, 0x69,
     0x74, 0x00, 0x00, 0x24, 0x00, 0x00, 0x00, 0x00,
     0x00, 0x00, 0x00, 0x00]"

definition TF_epc :: u64 where [const_simps]: "TF_epc = 24"
definition TF_sp :: u64 where [const_simps]: "TF_sp = 48"
definition TF_a0 :: u64 where [const_simps]: "TF_a0 = 112"
definition TF_size :: nat where [const_simps]: "TF_size = 288"

definition put_tf :: "u64 \<Rightarrow> u64 \<Rightarrow> u64 \<Rightarrow> 'd ksys \<Rightarrow> 'd ksys" where
  "put_tf tf field v s = s\<lparr>pm := (pm s)\<lparr>phys := put64 (phys (pm s)) (tf + field) v\<rparr>\<rparr>"

definition userinit :: "'d ksys \<Rightarrow> 'd ksys result" where
  "userinit s =
     rbind (allocproc s) (\<lambda>(r, s1). case r of
       None \<Rightarrow> Inl NullDeref
     | Some p \<Rightarrow>
         let s2 = s1\<lparr>initproc := Some p\<rparr> in
         rbind (uvmfirst (p_pagetable (prc p s2)) initcode (pm s2)) (\<lambda>k.
         let s3 = upd_proc p (\<lambda>x. x\<lparr>p_sz := of_nat PGSIZE\<rparr>) (s2\<lparr>pm := k\<rparr>);
             s4 = put_tf (p_trapframe (prc p s3)) TF_sp (of_nat PGSIZE) (put_tf (p_trapframe (prc p s3)) TF_epc 0 s3);
             s5 = upd_proc p (\<lambda>x. x\<lparr>p_name := copy_name [105, 110, 105, 116, 99, 111, 100, 101] (p_name x)\<rparr>) s4
         in rbind (run_fs (namei [slash]) s5) (\<lambda>(ip, s6).
            Inr (upd_proc p (\<lambda>x. x\<lparr>p_cwd := ip, p_state := RUNNABLE\<rparr>) s6))))"

definition growproc :: "int \<Rightarrow> 'd ksys \<Rightarrow> (int \<times> 'd ksys) result" where
  "growproc n s =
     (let sz = p_sz (myproc s); pt = p_pagetable (myproc s) in
      if n > 0
      then rbind (uvmalloc (kend s) pt sz (sz + of_int n) PTE_W (pm s)) (\<lambda>(sz', k).
           if sz' = 0 then Inr (-1, s\<lparr>pm := k\<rparr>)
           else Inr (0, upd_proc (me s) (\<lambda>p. p\<lparr>p_sz := sz'\<rparr>) (s\<lparr>pm := k\<rparr>)))
      else if n < 0
      then rbind (uvmdealloc (kend s) pt sz (sz + of_int n) (pm s)) (\<lambda>(sz', k).
           Inr (0, upd_proc (me s) (\<lambda>p. p\<lparr>p_sz := sz'\<rparr>) (s\<lparr>pm := k\<rparr>)))
      else Inr (0, upd_proc (me s) (\<lambda>p. p\<lparr>p_sz := sz\<rparr>) s))"

section \<open>fork\<close>

definition fork_files :: "nat \<Rightarrow> 'd ksys \<Rightarrow> 'd ksys result" where
  "fork_files np s =
     rfold (\<lambda>i s. case p_ofile (myproc s) ! i of
         None \<Rightarrow> Inr s
       | Some f \<Rightarrow> rbind (filedup f s) (\<lambda>s1. Inr (upd_proc np (\<lambda>p. p\<lparr>p_ofile := (p_ofile p)[i := Some f]\<rparr>) s1)))
       [0..<NOFILE] s"

definition fork :: "'d ksys \<Rightarrow> (int \<times> 'd ksys) result" where
  "fork s =
     rbind (allocproc s) (\<lambda>(r, s1). case r of
       None \<Rightarrow> Inr (-1, s1)
     | Some np \<Rightarrow>
         rbind (uvmcopy (kend s1) (p_pagetable (myproc s1)) (p_pagetable (prc np s1)) (p_sz (myproc s1)) (pm s1)) (\<lambda>(r, k).
         let s2 = s1\<lparr>pm := k\<rparr> in
         if r < 0 then rbind (freeproc np s2) (\<lambda>s3. Inr (-1, s3))
         else
           let s3 = upd_proc np (\<lambda>p. p\<lparr>p_sz := p_sz (myproc s2)\<rparr>) s2;
               regs = mem_read (phys (pm s3)) (p_trapframe (myproc s3)) TF_size;
               s4 = s3\<lparr>pm := (pm s3)\<lparr>phys := mem_write (phys (pm s3)) (p_trapframe (prc np s3)) regs\<rparr>\<rparr>;
               s5 = put_tf (p_trapframe (prc np s4)) TF_a0 0 s4
           in rbind (fork_files np s5) (\<lambda>s6. case p_cwd (myproc s6) of
                None \<Rightarrow> Inl NullDeref
              | Some ip \<Rightarrow>
                  rbind (run_fs (\<lambda>t. Inr (idup ip t)) s6) (\<lambda>(ip', s7).
                  let s8 = upd_proc np (\<lambda>p. p\<lparr>p_cwd := Some ip', p_name := copy_name (p_name (myproc s7)) (p_name p)\<rparr>) s7;
                      cpid = p_pid (prc np s8)
                  in Inr (cpid, upd_proc np (\<lambda>p. p\<lparr>p_parent := Some (me s8), p_state := RUNNABLE\<rparr>) s8)))))"

section \<open>exit and wait\<close>

definition reparent :: "nat \<Rightarrow> 'd ksys \<Rightarrow> 'd ksys" where
  "reparent p s =
     fold (\<lambda>i s. if p_parent (prc i s) = Some p
        then let s1 = upd_proc i (\<lambda>x. x\<lparr>p_parent := initproc s\<rparr>) s
             in (case initproc s1 of Some ip \<Rightarrow> wakeup (ChProc ip) s1 | None \<Rightarrow> s1)
        else s) [0..<NPROC] s"

definition exit_files :: "'d ksys \<Rightarrow> 'd ksys result" where
  "exit_files s =
     rfold (\<lambda>fd s. case p_ofile (myproc s) ! fd of
         None \<Rightarrow> Inr s
       | Some f \<Rightarrow> rbind (fileclose f s) (\<lambda>s1. Inr (upd_proc (me s1) (\<lambda>p. p\<lparr>p_ofile := (p_ofile p)[fd := None]\<rparr>) s1)))
       [0..<NOFILE] s"

text \<open>The part of \<^verbatim>\<open>exit\<close> under \<^verbatim>\<open>wait_lock\<close>, up to the last switch to the scheduler.\<close>

definition exit_zombie :: "int \<Rightarrow> 'd ksys \<Rightarrow> 'd ksys" where
  "exit_zombie status s =
     (let s1 = reparent (me s) s;
          s2 = (case p_parent (myproc s1) of Some q \<Rightarrow> wakeup (ChProc q) s1 | None \<Rightarrow> s1)
      in upd_proc (me s2) (\<lambda>p. p\<lparr>p_xstate := status, p_state := ZOMBIE\<rparr>) s2)"

definition exit :: "int \<Rightarrow> 'd ksys \<Rightarrow> 'd ksys result" where
  "exit status s =
     (if initproc s = Some (me s) then Inl (Panic ''init exiting'')
      else rbind (exit_files s) (\<lambda>s1.
           rbind (kbegin_op s1) (\<lambda>s2. case p_cwd (myproc s2) of
             None \<Rightarrow> Inl NullDeref
           | Some ip \<Rightarrow>
               rbind (run_fs_unit (iput ip) s2) (\<lambda>s3.
               rbind (kend_op s3) (\<lambda>s4.
               Inr (exit_zombie status (upd_proc (me s4) (\<lambda>p. p\<lparr>p_cwd := None\<rparr>) s4)))))))"

text \<open>One scan of \<^verbatim>\<open>wait\<close> over the table: what it returns, if anything, and whether there are children.\<close>

fun wait_scan :: "u64 \<Rightarrow> nat list \<Rightarrow> bool \<Rightarrow> 'd ksys \<Rightarrow> (int option \<times> bool \<times> 'd ksys) result" where
  "wait_scan addr [] havekids s = Inr (None, havekids, s)"
| "wait_scan addr (i # is) havekids s =
     (if p_parent (prc i s) = Some (me s)
      then if p_state (prc i s) = ZOMBIE
           then let cpid = p_pid (prc i s) in
             case (if addr \<noteq> 0 then copyout (p_pagetable (myproc s)) addr (le32 (of_int (p_xstate (prc i s)))) (pm s)
                   else (0, pm s)) of (r, k) \<Rightarrow>
               if r < 0 then Inr (Some (-1), True, s\<lparr>pm := k\<rparr>)
               else rbind (freeproc i (s\<lparr>pm := k\<rparr>)) (\<lambda>s1. Inr (Some cpid, True, s1))
           else wait_scan addr is True s
      else wait_scan addr is havekids s)"

text \<open>\<^verbatim>\<open>wait\<close> from the head of its loop to a return, or to a sleep (\<open>None\<close>).\<close>

definition wait :: "u64 \<Rightarrow> 'd ksys \<Rightarrow> (int option \<times> 'd ksys) result" where
  "wait addr s =
     rbind (wait_scan addr [0..<NPROC] False s) (\<lambda>(r, havekids, s1). case r of
       Some v \<Rightarrow> Inr (Some v, s1)
     | None \<Rightarrow> if \<not> havekids \<or> killed (me s1) s1 then Inr (Some (-1), s1)
               else Inr (None, sleep_enter (ChProc (me s1)) s1))"

text \<open>\<^verbatim>\<open>forkret\<close>; \<open>first\<close> is its static variable.\<close>

definition forkret :: "bool \<Rightarrow> 'd ksys \<Rightarrow> (bool \<times> 'd ksys) result" where
  "forkret first s =
     (if first then rbind (run_fs_unit (fsinit ROOTDEV) s) (\<lambda>s1. Inr (False, s1)) else Inr (first, s))"

end
