(* ===== verification/Sysfile.thy ===== *)
theory Sysfile
  imports Proc
begin

text \<open>
  Arguments of system calls (\<^verbatim>\<open>kernel/syscall.c\<close>) and the system calls on files (\<^verbatim>\<open>kernel/sysfile.c\<close>).
  The part of a call between \<^verbatim>\<open>begin_op\<close> and \<^verbatim>\<open>end_op\<close> acts on the file system alone and is a
  function of its own where nothing else is touched.
\<close>

section \<open>Arguments\<close>

definition MAXPATH :: nat where [const_simps]: "MAXPATH = 128"
definition MAXARG :: nat where [const_simps]: "MAXARG = 32"
definition T_FILE :: u16 where [const_simps]: "T_FILE = 2"
definition T_DEVICE :: u16 where [const_simps]: "T_DEVICE = 3"
definition O_RDONLY :: u32 where [const_simps]: "O_RDONLY = 0"
definition O_WRONLY :: u32 where [const_simps]: "O_WRONLY = 1"
definition O_RDWR :: u32 where [const_simps]: "O_RDWR = 2"
definition O_CREATE :: u32 where [const_simps]: "O_CREATE = 0x200"
definition O_TRUNC :: u32 where [const_simps]: "O_TRUNC = 0x400"

definition argraw :: "nat \<Rightarrow> 'd ksys \<Rightarrow> u64 result" where
  "argraw n s =
     (if n < 6 then Inr (get64 (phys (pm s)) (p_trapframe (myproc s) + TF_a0 + of_nat (8 * n))) else Inl (Panic ''argraw''))"

text \<open>\<^verbatim>\<open>argint\<close>: the low 32 bits, as a signed number.\<close>

definition argint :: "nat \<Rightarrow> 'd ksys \<Rightarrow> int result" where
  "argint n s = rbind (argraw n s) (\<lambda>v. Inr (sint (ucast v :: u32)))"

definition argaddr :: "nat \<Rightarrow> 'd ksys \<Rightarrow> u64 result" where
  "argaddr n s = argraw n s"

definition fetchaddr :: "u64 \<Rightarrow> 'd ksys \<Rightarrow> u64 option" where
  "fetchaddr addr s =
     (if addr \<ge> p_sz (myproc s) \<or> addr + 8 > p_sz (myproc s) then None
      else case copyin (p_pagetable (myproc s)) addr 8 (pm s) of (r, bs) \<Rightarrow> if r \<noteq> 0 then None else Some (rd64 bs))"

text \<open>\<^verbatim>\<open>fetchstr\<close>: the string; the code returns its length without the zero.\<close>

definition fetchstr :: "u64 \<Rightarrow> nat \<Rightarrow> 'd ksys \<Rightarrow> byte list option" where
  "fetchstr addr mx s =
     (case copyinstr (p_pagetable (myproc s)) addr mx (pm s) of
        (r, bs) \<Rightarrow> if r < 0 then None else Some (takeWhile (\<lambda>c. c \<noteq> 0) bs))"

definition argstr :: "nat \<Rightarrow> nat \<Rightarrow> 'd ksys \<Rightarrow> byte list option result" where
  "argstr n mx s = rbind (argaddr n s) (\<lambda>addr. Inr (fetchstr addr mx s))"

text \<open>\<^verbatim>\<open>argfd\<close>: the descriptor and the file, or nothing for -1.\<close>

definition argfd :: "nat \<Rightarrow> 'd ksys \<Rightarrow> (nat \<times> nat) option result" where
  "argfd n s =
     rbind (argint n s) (\<lambda>fd.
       if fd < 0 \<or> fd \<ge> int NOFILE then Inr None
       else case p_ofile (myproc s) ! nat fd of None \<Rightarrow> Inr None | Some f \<Rightarrow> Inr (Some (nat fd, f)))"

definition fdalloc :: "nat \<Rightarrow> 'd ksys \<Rightarrow> int \<times> 'd ksys" where
  "fdalloc f s =
     (case find (\<lambda>fd. p_ofile (myproc s) ! fd = None) [0..<NOFILE] of
        None \<Rightarrow> (-1, s)
      | Some fd \<Rightarrow> (int fd, upd_proc (me s) (\<lambda>p. p\<lparr>p_ofile := (p_ofile p)[fd := Some f]\<rparr>) s))"

definition set_ofile :: "nat \<Rightarrow> nat option \<Rightarrow> 'd ksys \<Rightarrow> 'd ksys" where
  "set_ofile fd v s = upd_proc (me s) (\<lambda>p. p\<lparr>p_ofile := (p_ofile p)[fd := v]\<rparr>) s"

section \<open>Calls on descriptors\<close>

definition sys_dup :: "'d ksys \<Rightarrow> (int \<times> 'd ksys) result" where
  "sys_dup s =
     rbind (argfd 0 s) (\<lambda>a. case a of None \<Rightarrow> Inr (-1, s) | Some (fd0, f) \<Rightarrow>
       case fdalloc f s of (fd, s1) \<Rightarrow>
         if fd < 0 then Inr (-1, s1) else rbind (filedup f s1) (\<lambda>s2. Inr (fd, s2)))"

definition sys_read :: "(nat \<Rightarrow> 'd devop option) \<Rightarrow> 'd ksys \<Rightarrow> (outcome \<times> 'd ksys) result" where
  "sys_read dev_read s =
     rbind (argaddr 1 s) (\<lambda>p. rbind (argint 2 s) (\<lambda>n. rbind (argfd 0 s) (\<lambda>a. case a of
       None \<Rightarrow> Inr (Returned (-1), s) | Some (fd, f) \<Rightarrow> fileread dev_read f p n s)))"

definition sys_write :: "(nat \<Rightarrow> 'd devop option) \<Rightarrow> 'd ksys \<Rightarrow> (outcome \<times> 'd ksys) result" where
  "sys_write dev_write s =
     rbind (argaddr 1 s) (\<lambda>p. rbind (argint 2 s) (\<lambda>n. rbind (argfd 0 s) (\<lambda>a. case a of
       None \<Rightarrow> Inr (Returned (-1), s) | Some (fd, f) \<Rightarrow> filewrite dev_write f p n s)))"

definition sys_close :: "'d ksys \<Rightarrow> (int \<times> 'd ksys) result" where
  "sys_close s =
     rbind (argfd 0 s) (\<lambda>a. case a of None \<Rightarrow> Inr (-1, s) | Some (fd, f) \<Rightarrow>
       rbind (fileclose f (set_ofile fd None s)) (\<lambda>s1. Inr (0, s1)))"

definition sys_fstat :: "byte list \<Rightarrow> 'd ksys \<Rightarrow> (int \<times> 'd ksys) result" where
  "sys_fstat pad s =
     rbind (argaddr 1 s) (\<lambda>st. rbind (argfd 0 s) (\<lambda>a. case a of
       None \<Rightarrow> Inr (-1, s) | Some (fd, f) \<Rightarrow> filestat pad f st s))"

section \<open>Links and directories\<close>

text \<open>The end of a transaction that returns \<open>r\<close>.\<close>

definition finish :: "'a \<Rightarrow> 'd fsys \<Rightarrow> ('a \<times> 'd fsys) result" where
  "finish r s = rbind (fend_op s) (\<lambda>s1. Inr (r, s1))"

text \<open>The label \<^verbatim>\<open>bad\<close> of \<^verbatim>\<open>sys_link\<close>.\<close>

definition link_bad :: "nat \<Rightarrow> 'd fsys \<Rightarrow> (int \<times> 'd fsys) result" where
  "link_bad ip s =
     rbind (ilock ip s) (\<lambda>s1.
     rbind (iupdate ip (upd_inode ip (\<lambda>x. x\<lparr>i_nlink := i_nlink x - 1\<rparr>) s1)) (\<lambda>s2.
     rbind (iunlockput ip s2) (finish (-1))))"

definition link_op :: "byte list \<Rightarrow> byte list \<Rightarrow> 'd fsys \<Rightarrow> (int \<times> 'd fsys) result" where
  "link_op old new s =
     rbind (fbegin_op s) (\<lambda>s1.
     rbind (namei old s1) (\<lambda>(r, s2). case r of
       None \<Rightarrow> finish (-1) s2
     | Some ip \<Rightarrow>
         rbind (ilock ip s2) (\<lambda>s3.
         if i_type (ino ip s3) = T_DIR then rbind (iunlockput ip s3) (finish (-1))
         else rbind (iupdate ip (upd_inode ip (\<lambda>x. x\<lparr>i_nlink := i_nlink x + 1\<rparr>) s3)) (\<lambda>s4.
              rbind (iunlock ip s4) (\<lambda>s5.
              rbind (nameiparent new (replicate DIRSIZ 0) s5) (\<lambda>(r', nm, s6). case r' of
                None \<Rightarrow> link_bad ip s6
              | Some dp \<Rightarrow>
                  rbind (ilock dp s6) (\<lambda>s7.
                  if i_dev (ino dp s7) \<noteq> i_dev (ino ip s7) then rbind (iunlockput dp s7) (link_bad ip)
                  else rbind (dirlink dp nm (i_inum (ino ip s7)) s7) (\<lambda>(l, s8).
                       if l < 0 then rbind (iunlockput dp s8) (link_bad ip)
                       else rbind (iunlockput dp s8) (\<lambda>s9. rbind (iput ip s9) (finish 0))))))))))"

definition sys_link :: "'d ksys \<Rightarrow> (int \<times> 'd ksys) result" where
  "sys_link s =
     rbind (argstr 0 MAXPATH s) (\<lambda>a. case a of None \<Rightarrow> Inr (-1, s) | Some old \<Rightarrow>
     rbind (argstr 1 MAXPATH s) (\<lambda>b. case b of None \<Rightarrow> Inr (-1, s) | Some new \<Rightarrow> run_fs (link_op old new) s))"

function isdirempty_loop :: "nat \<Rightarrow> nat \<Rightarrow> nat \<Rightarrow> byte list \<Rightarrow> 'd fsys \<Rightarrow> (bool \<times> 'd fsys) result" where
  "isdirempty_loop dp sz off de s =
     (if off < sz
      then rbind (readi to_local dp (of_nat off) 16 de s) (\<lambda>(r, de', s1).
           if r \<noteq> 16 then Inl (Panic ''isdirempty: readi'')
           else if de_inum de' \<noteq> 0 then Inr (False, s1)
           else isdirempty_loop dp sz (off + 16) de' s1)
      else Inr (True, s))"
  by pat_completeness auto

termination isdirempty_loop
  by (relation "measure (\<lambda>(dp, sz, off, de, s). sz - off)") auto

declare isdirempty_loop.simps [simp del]

definition isdirempty :: "nat \<Rightarrow> 'd fsys \<Rightarrow> (bool \<times> 'd fsys) result" where
  "isdirempty dp s = isdirempty_loop dp (unat (i_size (ino dp s))) 32 (replicate 16 0) s"

definition unlink_bad :: "nat \<Rightarrow> 'd fsys \<Rightarrow> (int \<times> 'd fsys) result" where
  "unlink_bad dp s = rbind (iunlockput dp s) (finish (-1))"

definition unlink_op :: "byte list \<Rightarrow> 'd fsys \<Rightarrow> (int \<times> 'd fsys) result" where
  "unlink_op path s =
     rbind (fbegin_op s) (\<lambda>s1.
     rbind (nameiparent path (replicate DIRSIZ 0) s1) (\<lambda>(r, nm, s2). case r of
       None \<Rightarrow> finish (-1) s2
     | Some dp \<Rightarrow>
         rbind (ilock dp s2) (\<lambda>s3.
         if namecmp nm [46] = 0 \<or> namecmp nm [46, 46] = 0 then unlink_bad dp s3
         else rbind (dirlookup dp nm s3) (\<lambda>(l, s4). case l of
           None \<Rightarrow> unlink_bad dp s4
         | Some (ip, off) \<Rightarrow>
             rbind (ilock ip s4) (\<lambda>s5.
             if sint (i_nlink (ino ip s5)) < 1 then Inl (Panic ''unlink: nlink < 1'')
             else rbind (if i_type (ino ip s5) = T_DIR then isdirempty ip s5 else Inr (True, s5)) (\<lambda>(e, s6).
               if \<not> e then rbind (iunlockput ip s6) (unlink_bad dp)
               else rbind (writei (\<lambda>tot m. (replicate m 0, True)) dp (of_nat off) 16 s6) (\<lambda>(w, s7).
                 if w \<noteq> 16 then Inl (Panic ''unlink: writei'')
                 else rbind (if i_type (ino ip s7) = T_DIR
                             then iupdate dp (upd_inode dp (\<lambda>x. x\<lparr>i_nlink := i_nlink x - 1\<rparr>) s7) else Inr s7) (\<lambda>s8.
                      rbind (iunlockput dp s8) (\<lambda>s9.
                      rbind (iupdate ip (upd_inode ip (\<lambda>x. x\<lparr>i_nlink := i_nlink x - 1\<rparr>) s9)) (\<lambda>s10.
                      rbind (iunlockput ip s10) (finish 0)))))))))))"

definition sys_unlink :: "'d ksys \<Rightarrow> (int \<times> 'd ksys) result" where
  "sys_unlink s =
     rbind (argstr 0 MAXPATH s) (\<lambda>a. case a of None \<Rightarrow> Inr (-1, s) | Some path \<Rightarrow> run_fs (unlink_op path) s)"

text \<open>The label \<^verbatim>\<open>fail\<close> of \<^verbatim>\<open>create\<close>.\<close>

definition create_fail :: "nat \<Rightarrow> nat \<Rightarrow> 'd fsys \<Rightarrow> (nat option \<times> 'd fsys) result" where
  "create_fail ip dp s =
     rbind (iupdate ip (upd_inode ip (\<lambda>x. x\<lparr>i_nlink := 0\<rparr>) s)) (\<lambda>s1.
     rbind (iunlockput ip s1) (\<lambda>s2.
     rbind (iunlockput dp s2) (\<lambda>s3. Inr (None, s3))))"

text \<open>The entries \<^verbatim>\<open>.\<close> and \<^verbatim>\<open>..\<close> of a new directory; whether both were made.\<close>

definition create_dots :: "nat \<Rightarrow> nat \<Rightarrow> 'd fsys \<Rightarrow> (bool \<times> 'd fsys) result" where
  "create_dots ip dp s =
     rbind (dirlink ip [46] (i_inum (ino ip s)) s) (\<lambda>(r, s1).
       if r < 0 then Inr (False, s1)
       else rbind (dirlink ip [46, 46] (i_inum (ino dp s1)) s1) (\<lambda>(r', s2). Inr (\<not> r' < 0, s2)))"

definition create :: "byte list \<Rightarrow> u16 \<Rightarrow> u16 \<Rightarrow> u16 \<Rightarrow> 'd fsys \<Rightarrow> (nat option \<times> 'd fsys) result" where
  "create path ty major minor s =
     rbind (nameiparent path (replicate DIRSIZ 0) s) (\<lambda>(r, nm, s1). case r of
       None \<Rightarrow> Inr (None, s1)
     | Some dp \<Rightarrow>
         rbind (ilock dp s1) (\<lambda>s2.
         rbind (dirlookup dp nm s2) (\<lambda>(l, s3). case l of
           Some (ip, off) \<Rightarrow>
             rbind (iunlockput dp s3) (\<lambda>s4.
             rbind (ilock ip s4) (\<lambda>s5.
             if ty = T_FILE \<and> (i_type (ino ip s5) = T_FILE \<or> i_type (ino ip s5) = T_DEVICE) then Inr (Some ip, s5)
             else rbind (iunlockput ip s5) (\<lambda>s6. Inr (None, s6))))
         | None \<Rightarrow>
             rbind (ialloc (i_dev (ino dp s3)) ty s3) (\<lambda>(a, s4). case a of
               None \<Rightarrow> rbind (iunlockput dp s4) (\<lambda>s5. Inr (None, s5))
             | Some ip \<Rightarrow>
                 rbind (ilock ip s4) (\<lambda>s5.
                 rbind (iupdate ip (upd_inode ip (\<lambda>x. x\<lparr>i_major := major, i_minor := minor, i_nlink := 1\<rparr>) s5)) (\<lambda>s6.
                 rbind (if ty = T_DIR then create_dots ip dp s6 else Inr (True, s6)) (\<lambda>(ok, s7).
                 if \<not> ok then create_fail ip dp s7
                 else rbind (dirlink dp nm (i_inum (ino ip s7)) s7) (\<lambda>(d, s8).
                   if d < 0 then create_fail ip dp s8
                   else rbind (if ty = T_DIR then iupdate dp (upd_inode dp (\<lambda>x. x\<lparr>i_nlink := i_nlink x + 1\<rparr>) s8) else Inr s8) (\<lambda>s9.
                        rbind (iunlockput dp s9) (\<lambda>s10. Inr (Some ip, s10)))))))))))"

section \<open>Opening files\<close>

text \<open>The inode \<^verbatim>\<open>sys_open\<close> works on, locked; without one the transaction is over.\<close>

definition open_inode :: "byte list \<Rightarrow> u32 \<Rightarrow> 'd fsys \<Rightarrow> (nat option \<times> 'd fsys) result" where
  "open_inode path omode s =
     (if omode AND O_CREATE \<noteq> 0
      then rbind (create path T_FILE 0 0 s) (\<lambda>(r, s1). case r of None \<Rightarrow> finish None s1 | Some ip \<Rightarrow> Inr (Some ip, s1))
      else rbind (namei path s) (\<lambda>(r, s1). case r of
             None \<Rightarrow> finish None s1
           | Some ip \<Rightarrow> rbind (ilock ip s1) (\<lambda>s2.
               if i_type (ino ip s2) = T_DIR \<and> omode \<noteq> O_RDONLY then rbind (iunlockput ip s2) (finish None)
               else Inr (Some ip, s2))))"

definition open_fail :: "nat \<Rightarrow> 'd ksys \<Rightarrow> (int \<times> 'd ksys) result" where
  "open_fail ip s = run_fs (\<lambda>t. rbind (iunlockput ip t) (finish (-1))) s"

definition sys_open :: "'d ksys \<Rightarrow> (int \<times> 'd ksys) result" where
  "sys_open s =
     rbind (argint 1 s) (\<lambda>om. let omode = of_int om :: u32 in
     rbind (argstr 0 MAXPATH s) (\<lambda>a. case a of None \<Rightarrow> Inr (-1, s) | Some path \<Rightarrow>
     rbind (run_fs (\<lambda>t. rbind (fbegin_op t) (open_inode path omode)) s) (\<lambda>(r, s1). case r of
       None \<Rightarrow> Inr (-1, s1)
     | Some ip \<Rightarrow>
         let x = ino ip (fs s1) in
         if i_type x = T_DEVICE \<and> bad_major (i_major x) then open_fail ip s1
         else case filealloc s1 of (fo, s2) \<Rightarrow> case fo of
           None \<Rightarrow> open_fail ip s2
         | Some f \<Rightarrow> (case fdalloc f s2 of (fd, s3) \<Rightarrow>
             if fd < 0 then rbind (fileclose f s3) (open_fail ip)
             else let s4 = upd_file f (\<lambda>y. (if i_type x = T_DEVICE then y\<lparr>f_type := FD_DEVICE, f_major := i_major x\<rparr>
                                            else y\<lparr>f_type := FD_INODE, f_off := 0\<rparr>)\<lparr>f_ip := ip,
                            f_readable := omode AND O_WRONLY = 0,
                            f_writable := omode AND O_WRONLY \<noteq> 0 \<or> omode AND O_RDWR \<noteq> 0\<rparr>) s3
                  in rbind (run_fs (\<lambda>t. rbind (if omode AND O_TRUNC \<noteq> 0 \<and> i_type x = T_FILE then itrunc ip t else Inr t) (\<lambda>t1.
                            rbind (iunlock ip t1) (finish fd))) s4) (\<lambda>(fd', s5). Inr (fd', s5))))))"

definition sys_mkdir :: "'d ksys \<Rightarrow> (int \<times> 'd ksys) result" where
  "sys_mkdir s =
     rbind (kbegin_op s) (\<lambda>s0. rbind (argstr 0 MAXPATH s0) (\<lambda>a. case a of
       None \<Rightarrow> run_fs (finish (-1)) s0
     | Some path \<Rightarrow> run_fs (\<lambda>t. rbind (create path T_DIR 0 0 t) (\<lambda>(r, t1). case r of
           None \<Rightarrow> finish (-1) t1
         | Some ip \<Rightarrow> rbind (iunlockput ip t1) (finish 0))) s0))"

definition sys_mknod :: "'d ksys \<Rightarrow> (int \<times> 'd ksys) result" where
  "sys_mknod s =
     rbind (kbegin_op s) (\<lambda>s0. rbind (argint 1 s0) (\<lambda>major. rbind (argint 2 s0) (\<lambda>minor.
     rbind (argstr 0 MAXPATH s0) (\<lambda>a. case a of
       None \<Rightarrow> run_fs (finish (-1)) s0
     | Some path \<Rightarrow> run_fs (\<lambda>t. rbind (create path T_DEVICE (of_int major) (of_int minor) t) (\<lambda>(r, t1). case r of
           None \<Rightarrow> finish (-1) t1
         | Some ip \<Rightarrow> rbind (iunlockput ip t1) (finish 0))) s0))))"

definition sys_chdir :: "'d ksys \<Rightarrow> (int \<times> 'd ksys) result" where
  "sys_chdir s =
     rbind (kbegin_op s) (\<lambda>s0. rbind (argstr 0 MAXPATH s0) (\<lambda>a. case a of
       None \<Rightarrow> run_fs (finish (-1)) s0
     | Some path \<Rightarrow> rbind (run_fs (namei path) s0) (\<lambda>(r, s1). case r of
         None \<Rightarrow> run_fs (finish (-1)) s1
       | Some ip \<Rightarrow>
           rbind (run_fs_unit (ilock ip) s1) (\<lambda>s2.
           if i_type (ino ip (fs s2)) \<noteq> T_DIR then run_fs (\<lambda>t. rbind (iunlockput ip t) (finish (-1))) s2
           else rbind (run_fs_unit (iunlock ip) s2) (\<lambda>s3. case p_cwd (myproc s3) of
             None \<Rightarrow> Inl NullDeref
           | Some old \<Rightarrow>
               rbind (run_fs (\<lambda>t. rbind (iput old t) (finish 0)) s3) (\<lambda>(z, s4).
               Inr (z, upd_proc (me s4) (\<lambda>p. p\<lparr>p_cwd := Some ip\<rparr>) s4)))))))"

definition sys_pipe :: "'d ksys \<Rightarrow> (int \<times> 'd ksys) result" where
  "sys_pipe s =
     rbind (argaddr 0 s) (\<lambda>fdarray.
     rbind (pipealloc s) (\<lambda>(r, s1). case r of
       None \<Rightarrow> Inr (-1, s1)
     | Some (rfile, wfile) \<Rightarrow>
         let close_both = (\<lambda>s. rbind (fileclose rfile s) (\<lambda>s'. rbind (fileclose wfile s') (\<lambda>s''. Inr (-1, s'')))) in
         case fdalloc rfile s1 of (fd0, s2) \<Rightarrow>
           if fd0 < 0 then close_both s2
           else case fdalloc wfile s2 of (fd1, s3) \<Rightarrow>
             if fd1 < 0 then close_both (set_ofile (nat fd0) None s3)
             else case copyout (p_pagetable (myproc s3)) fdarray (le32 (of_int fd0)) (pm s3) of (r0, k0) \<Rightarrow>
               let undo = (\<lambda>s. close_both (set_ofile (nat fd1) None (set_ofile (nat fd0) None s))) in
               if r0 < 0 then undo (s3\<lparr>pm := k0\<rparr>)
               else case copyout (p_pagetable (myproc s3)) (fdarray + 4) (le32 (of_int fd1)) k0 of (r1, k1) \<Rightarrow>
                 if r1 < 0 then undo (s3\<lparr>pm := k1\<rparr>) else Inr (0, s3\<lparr>pm := k1\<rparr>)))"

end
