(* ===== verification/Exec.thy ===== *)
theory Exec
  imports Sysfile
begin

text \<open>
  \<^verbatim>\<open>kernel/exec.c\<close> and \<^verbatim>\<open>sys_exec\<close>: a new address space is built from an ELF file beside the old one, which
  is given up only when nothing can fail any more.  \<^verbatim>\<open>argv\<close> is the list of the argument strings.
\<close>

section \<open>ELF headers\<close>

definition ELF_MAGIC :: u32 where [const_simps]: "ELF_MAGIC = 0x464C457F"
definition ELF_PROG_LOAD :: u32 where [const_simps]: "ELF_PROG_LOAD = 1"

definition get64l :: "nat \<Rightarrow> byte list \<Rightarrow> u64" where
  "get64l off d = rd64 (bytes_at off 8 d)"

text \<open>The fields of \<^verbatim>\<open>struct elfhdr\<close> (64 bytes) and \<^verbatim>\<open>struct proghdr\<close> (56 bytes) that are used.\<close>

record elfhdr =
  e_magic :: u32
  e_entry :: u64
  e_phoff :: u64
  e_phnum :: u16

definition read_elfhdr :: "byte list \<Rightarrow> elfhdr" where
  "read_elfhdr d = \<lparr>e_magic = get32l 0 d, e_entry = get64l 24 d, e_phoff = get64l 32 d, e_phnum = get16l 56 d\<rparr>"

record proghdr =
  ph_type :: u32
  ph_flags :: u32
  ph_off :: u64
  ph_vaddr :: u64
  ph_filesz :: u64
  ph_memsz :: u64

definition read_proghdr :: "byte list \<Rightarrow> proghdr" where
  "read_proghdr d = \<lparr>ph_type = get32l 0 d, ph_flags = get32l 4 d, ph_off = get64l 8 d, ph_vaddr = get64l 16 d,
     ph_filesz = get64l 32 d, ph_memsz = get64l 40 d\<rparr>"

definition flags2perm :: "u32 \<Rightarrow> u64" where
  "flags2perm flags =
     (let perm = (if flags AND 1 \<noteq> 0 then PTE_X else 0)
      in if flags AND 2 \<noteq> 0 then perm OR PTE_W else perm)"

section \<open>Loading\<close>

text \<open>A read into a local variable of the kernel, with the number of bytes read.\<close>

definition read_local :: "nat \<Rightarrow> u32 \<Rightarrow> nat \<Rightarrow> 'd ksys \<Rightarrow> ((int \<times> byte list) \<times> 'd ksys) result" where
  "read_local ip off n s =
     run_fs (\<lambda>t. rbind (readi to_local ip off (of_nat n) (replicate n 0) t) (\<lambda>(r, d, t1). Inr ((r, d), t1))) s"

definition phys_co :: "u64 \<Rightarrow> nat \<Rightarrow> byte list \<Rightarrow> kmem \<Rightarrow> kmem \<times> bool" where
  "phys_co pa tot bs k = (k\<lparr>phys := mem_write (phys k) (pa + of_nat tot) bs\<rparr>, True)"

function loadseg_loop :: "u64 \<Rightarrow> u64 \<Rightarrow> nat \<Rightarrow> u32 \<Rightarrow> nat \<Rightarrow> nat \<Rightarrow> 'd ksys \<Rightarrow> (int \<times> 'd ksys) result" where
  "loadseg_loop pagetable va ip offset sz i s =
     (if i < sz
      then let pa = walkaddr pagetable (va + of_nat i) (pm s) in
           if pa = 0 then Inl (Panic ''loadseg: address should exist'')
           else let n = (if sz - i < PGSIZE then sz - i else PGSIZE) in
             rbind (run_fs (\<lambda>t. rbind (readi (phys_co pa) ip (offset + of_nat i) (of_nat n) (pm s) t)
                     (\<lambda>(r, k, t1). Inr ((r, k), t1))) s) (\<lambda>((r, k), s1).
             let s2 = s1\<lparr>pm := k\<rparr> in
             if r \<noteq> int n then Inr (-1, s2) else loadseg_loop pagetable va ip offset sz (i + PGSIZE) s2)
      else Inr (0, s))"
  by pat_completeness auto

termination loadseg_loop
  by (relation "measure (\<lambda>(pt, va, ip, offset, sz, i, s). sz - i)") (auto simp: PGSIZE_def)

declare loadseg_loop.simps [simp del]

definition loadseg :: "u64 \<Rightarrow> u64 \<Rightarrow> nat \<Rightarrow> u32 \<Rightarrow> u32 \<Rightarrow> 'd ksys \<Rightarrow> (int \<times> 'd ksys) result" where
  "loadseg pagetable va ip offset sz s = loadseg_loop pagetable va ip offset (unat sz) 0 s"

text \<open>
  The loop over \<open>n\<close> program headers from \<open>off\<close> on: whether all were loaded, and the size reached.
\<close>

fun exec_load :: "nat \<Rightarrow> u64 \<Rightarrow> nat \<Rightarrow> u32 \<Rightarrow> u64 \<Rightarrow> 'd ksys \<Rightarrow> (bool \<times> u64 \<times> 'd ksys) result" where
  "exec_load ip pagetable 0 off sz s = Inr (True, sz, s)"
| "exec_load ip pagetable (Suc n) off sz s =
     rbind (read_local ip off 56 s) (\<lambda>((r, d), s1).
       let ph = read_proghdr d in
       if r \<noteq> 56 then Inr (False, sz, s1)
       else if ph_type ph \<noteq> ELF_PROG_LOAD then exec_load ip pagetable n (off + 56) sz s1
       else if ph_memsz ph < ph_filesz ph then Inr (False, sz, s1)
       else if ph_vaddr ph + ph_memsz ph < ph_vaddr ph then Inr (False, sz, s1)
       else if unat (ph_vaddr ph) mod PGSIZE \<noteq> 0 then Inr (False, sz, s1)
       else rbind (uvmalloc (kend s1) pagetable sz (ph_vaddr ph + ph_memsz ph) (flags2perm (ph_flags ph)) (pm s1)) (\<lambda>(sz1, k).
         let s2 = s1\<lparr>pm := k\<rparr> in
         if sz1 = 0 then Inr (False, sz, s2)
         else rbind (loadseg pagetable (ph_vaddr ph) ip (ucast (ph_off ph)) (ucast (ph_filesz ph)) s2) (\<lambda>(l, s3).
           if l < 0 then Inr (False, sz1, s3) else exec_load ip pagetable n (off + 56) sz1 s3)))"

section \<open>The stack\<close>

text \<open>The argument strings, from the top of the stack down: the stack pointer and where the strings are.\<close>

fun push_args :: "u64 \<Rightarrow> u64 \<Rightarrow> byte list list \<Rightarrow> u64 \<Rightarrow> u64 list \<Rightarrow> kmem \<Rightarrow> (u64 \<times> u64 list) option \<times> kmem" where
  "push_args pagetable stackbase [] sp ustack k = (Some (sp, ustack), k)"
| "push_args pagetable stackbase (a # as) sp ustack k =
     (if length ustack \<ge> MAXARG then (None, k)
      else let sp1 = sp - of_nat (length a + 1); sp2 = sp1 - sp1 mod 16 in
        if sp2 < stackbase then (None, k)
        else case copyout pagetable sp2 (a @ [0]) k of (r, k1) \<Rightarrow>
          if r < 0 then (None, k1) else push_args pagetable stackbase as sp2 (ustack @ [sp2]) k1)"

text \<open>The label \<^verbatim>\<open>bad\<close>.\<close>

definition exec_bad :: "u64 \<Rightarrow> u64 \<Rightarrow> nat option \<Rightarrow> 'd ksys \<Rightarrow> (int \<times> 'd ksys) result" where
  "exec_bad pagetable sz ip s =
     rbind (if pagetable \<noteq> 0 then proc_freepagetable (kend s) pagetable sz (pm s) else Inr (pm s)) (\<lambda>k.
       let s1 = s\<lparr>pm := k\<rparr> in
       case ip of None \<Rightarrow> Inr (-1, s1) | Some i \<Rightarrow> run_fs (\<lambda>t. rbind (iunlockput i t) (finish (-1))) s1)"

definition TF_a1 :: u64 where [const_simps]: "TF_a1 = 120"

text \<open>From the committed program on: stack, arguments, and the switch to the new image.\<close>

definition exec_commit :: "byte list \<Rightarrow> elfhdr \<Rightarrow> u64 \<Rightarrow> u64 \<Rightarrow> u64 \<Rightarrow> nat \<Rightarrow> 'd ksys \<Rightarrow> (int \<times> 'd ksys) result" where
  "exec_commit path elf pagetable sz sp argc s =
     (let oldsz = p_sz (myproc s); tf = p_trapframe (myproc s); oldpagetable = p_pagetable (myproc s);
          last = rev (takeWhile (\<lambda>c. c \<noteq> slash) (rev path));
          s1 = put_tf tf TF_a1 sp s;
          s2 = upd_proc (me s1) (\<lambda>p. p\<lparr>p_sz := sz, p_pagetable := pagetable, p_name := copy_name last (p_name p)\<rparr>) s1;
          s3 = put_tf tf TF_sp sp (put_tf tf TF_epc (e_entry elf) s2)
      in rbind (proc_freepagetable (kend s3) oldpagetable oldsz (pm s3)) (\<lambda>k. Inr (int argc, s3\<lparr>pm := k\<rparr>)))"

definition exec_stack :: "byte list \<Rightarrow> byte list list \<Rightarrow> elfhdr \<Rightarrow> u64 \<Rightarrow> u64 \<Rightarrow> 'd ksys \<Rightarrow> (int \<times> 'd ksys) result" where
  "exec_stack path argv elf pagetable sz0 s =
     (let sz = PGROUNDUP sz0 in
      rbind (uvmalloc (kend s) pagetable sz (sz + 2 * of_nat PGSIZE) PTE_W (pm s)) (\<lambda>(sz1, k).
      if sz1 = 0 then exec_bad pagetable sz None (s\<lparr>pm := k\<rparr>)
      else rbind (uvmclear pagetable (sz1 - 2 * of_nat PGSIZE) k) (\<lambda>k1.
        let stackbase = sz1 - of_nat PGSIZE in
        case push_args pagetable stackbase argv sz1 [] k1 of (r, k2) \<Rightarrow> case r of
          None \<Rightarrow> exec_bad pagetable sz1 None (s\<lparr>pm := k2\<rparr>)
        | Some (sp, ustack) \<Rightarrow>
            if length ustack \<ge> MAXARG then Inl OutOfBounds
            else let us = ustack @ [0]; sp1 = sp - of_nat (8 * length us); sp2 = sp1 - sp1 mod 16 in
              if sp2 < stackbase then exec_bad pagetable sz1 None (s\<lparr>pm := k2\<rparr>)
              else case copyout pagetable sp2 (concat (map le64 us)) k2 of (c, k3) \<Rightarrow>
                if c < 0 then exec_bad pagetable sz1 None (s\<lparr>pm := k3\<rparr>)
                else exec_commit path elf pagetable sz1 sp2 (length ustack) (s\<lparr>pm := k3\<rparr>))))"

definition exec :: "byte list \<Rightarrow> byte list list \<Rightarrow> 'd ksys \<Rightarrow> (int \<times> 'd ksys) result" where
  "exec path argv s =
     rbind (kbegin_op s) (\<lambda>s0.
     rbind (run_fs (namei path) s0) (\<lambda>(r, s1). case r of
       None \<Rightarrow> run_fs (finish (-1)) s1
     | Some ip \<Rightarrow>
         rbind (run_fs_unit (ilock ip) s1) (\<lambda>s2.
         rbind (read_local ip 0 64 s2) (\<lambda>((n, d), s3).
         let elf = read_elfhdr d in
         if n \<noteq> 64 \<or> e_magic elf \<noteq> ELF_MAGIC then exec_bad 0 0 (Some ip) s3
         else rbind (proc_pagetable (me s3) s3) (\<lambda>(pagetable, s4).
           if pagetable = 0 then exec_bad 0 0 (Some ip) s4
           else rbind (exec_load ip pagetable (unat (e_phnum elf)) (ucast (e_phoff elf)) 0 s4) (\<lambda>(ok, sz, s5).
             if \<not> ok then exec_bad pagetable sz (Some ip) s5
             else rbind (run_fs (\<lambda>t. rbind (iunlockput ip t) (finish ())) s5) (\<lambda>(u, s6).
                  exec_stack path argv elf pagetable sz s6)))))))"

section \<open>The system call\<close>

definition free_args :: "u64 list \<Rightarrow> 'd ksys \<Rightarrow> 'd ksys result" where
  "free_args pages s = rfold (\<lambda>a s. rbind (kfree (kend s) a (pm s)) (\<lambda>k. Inr (s\<lparr>pm := k\<rparr>))) pages s"

text \<open>
  The loop of \<^verbatim>\<open>sys_exec\<close> with \<open>n\<close> places left in \<^verbatim>\<open>argv\<close>: the pages that hold the strings, and
  whether the terminating null pointer was found.
\<close>

fun fetch_args :: "u64 \<Rightarrow> nat \<Rightarrow> u64 list \<Rightarrow> 'd ksys \<Rightarrow> bool \<times> u64 list \<times> 'd ksys" where
  "fetch_args uargv 0 pages s = (False, pages, s)"
| "fetch_args uargv (Suc n) pages s =
     (case fetchaddr (uargv + of_nat (8 * length pages)) s of
        None \<Rightarrow> (False, pages, s)
      | Some uarg \<Rightarrow>
          if uarg = 0 then (True, pages, s)
          else case kalloc (pm s) of (a, k) \<Rightarrow>
            if a = 0 then (False, pages, s\<lparr>pm := k\<rparr>)
            else case copyinstr (p_pagetable (myproc s)) uarg PGSIZE k of (r, bs) \<Rightarrow>
              let s1 = s\<lparr>pm := k\<lparr>phys := mem_write (phys k) a bs\<rparr>\<rparr> in
              if r < 0 then (False, pages @ [a], s1) else fetch_args uargv n (pages @ [a]) s1)"

definition page_string :: "u64 \<Rightarrow> kmem \<Rightarrow> byte list" where
  "page_string a k = takeWhile (\<lambda>c. c \<noteq> 0) (mem_read (phys k) a PGSIZE)"

definition sys_exec :: "'d ksys \<Rightarrow> (int \<times> 'd ksys) result" where
  "sys_exec s =
     rbind (argaddr 1 s) (\<lambda>uargv.
     rbind (argstr 0 MAXPATH s) (\<lambda>a. case a of None \<Rightarrow> Inr (-1, s) | Some path \<Rightarrow>
       case fetch_args uargv MAXARG [] s of (ok, pages, s1) \<Rightarrow>
         if \<not> ok then rbind (free_args pages s1) (\<lambda>s2. Inr (-1, s2))
         else rbind (exec path (map (\<lambda>a. page_string a (pm s1)) pages) s1) (\<lambda>(ret, s2).
              rbind (free_args pages s2) (\<lambda>s3. Inr (ret, s3)))))"

end
