(* ===== verification/Syscall.thy ===== *)
theory Syscall
  imports Exec Raid_Admin
begin

text \<open>
  The system calls of \<^verbatim>\<open>kernel/sysproc.c\<close> and \<^verbatim>\<open>kernel/sysraid.c\<close>, the dispatch of \<^verbatim>\<open>kernel/syscall.c\<close>, and the
  clock interrupt and the system call trap of \<^verbatim>\<open>kernel/trap.c\<close>.  The RAID layer shares physical memory
  and the disk driver with the rest of the kernel.  What the calls print is left out; \<open>DISKS\<close> and
  \<open>DISK_SIZE\<close> are the constants given by the build.
\<close>

section \<open>Processes and time\<close>

text \<open>A call returns a value, leaves its caller asleep, or ends the process.\<close>

datatype reply = Reply u64 | Blocked | Exited

definition returns :: "(int \<times> 'd ksys) result \<Rightarrow> (reply \<times> 'd ksys) result" where
  "returns r = rbind r (\<lambda>(v, s). Inr (Reply (of_int v), s))"

definition sys_exit :: "'d ksys \<Rightarrow> (reply \<times> 'd ksys) result" where
  "sys_exit s = rbind (argint 0 s) (\<lambda>n. rbind (exit n s) (\<lambda>s1. Inr (Exited, s1)))"

definition sys_getpid :: "'d ksys \<Rightarrow> (reply \<times> 'd ksys) result" where
  "sys_getpid s = Inr (Reply (of_int (p_pid (myproc s))), s)"

definition sys_fork :: "'d ksys \<Rightarrow> (reply \<times> 'd ksys) result" where
  "sys_fork s = returns (fork s)"

definition sys_wait :: "'d ksys \<Rightarrow> (reply \<times> 'd ksys) result" where
  "sys_wait s =
     rbind (argaddr 0 s) (\<lambda>p. rbind (wait p s) (\<lambda>(r, s1).
       Inr (case r of Some v \<Rightarrow> Reply (of_int v) | None \<Rightarrow> Blocked, s1)))"

definition sys_sbrk :: "'d ksys \<Rightarrow> (reply \<times> 'd ksys) result" where
  "sys_sbrk s =
     rbind (argint 0 s) (\<lambda>n. let addr = p_sz (myproc s) in
     rbind (growproc n s) (\<lambda>(r, s1). if r < 0 then Inr (Reply (-1), s1) else Inr (Reply addr, s1)))"

text \<open>The loop of \<^verbatim>\<open>sys_sleep\<close> from its head; the comparison is one of unsigned numbers.\<close>

definition sleep_loop :: "u32 \<Rightarrow> int \<Rightarrow> 'd ksys \<Rightarrow> reply \<times> 'd ksys" where
  "sleep_loop ticks0 n s =
     (if ticks s - ticks0 < of_int n
      then if killed (me s) s then (Reply (-1), s) else (Blocked, sleep_enter ChTicks s)
      else (Reply 0, s))"

definition sys_sleep :: "'d ksys \<Rightarrow> (reply \<times> 'd ksys) result" where
  "sys_sleep s = rbind (argint 0 s) (\<lambda>n. Inr (sleep_loop (ticks s) n s))"

definition sys_kill :: "'d ksys \<Rightarrow> (reply \<times> 'd ksys) result" where
  "sys_kill s = rbind (argint 0 s) (\<lambda>n. returns (Inr (kill n s)))"

definition sys_uptime :: "'d ksys \<Rightarrow> (reply \<times> 'd ksys) result" where
  "sys_uptime s = Inr (Reply (ucast (ticks s)), s)"

definition clockintr :: "'d ksys \<Rightarrow> 'd ksys" where
  "clockintr s = wakeup ChTicks (s\<lparr>ticks := ticks s + 1\<rparr>)"

section \<open>RAID\<close>

definition raid_view :: "'d ksys \<Rightarrow> 'd rsys" where
  "raid_view s = \<lparr>raid_metadata = raid_md s, km = pm s, vd = drv (bc (ls (fs s)))\<rparr>"

definition from_raid :: "'d rsys \<Rightarrow> 'd ksys \<Rightarrow> 'd ksys" where
  "from_raid r s =
     s\<lparr>fs := (fs s)\<lparr>ls := (ls (fs s))\<lparr>bc := (bc (ls (fs s)))\<lparr>drv := vd r\<rparr>\<rparr>\<rparr>, pm := km r, raid_md := raid_metadata r\<rparr>"

definition run_raid :: "('d rsys \<Rightarrow> (int \<times> 'd rsys) result) \<Rightarrow> 'd ksys \<Rightarrow> (reply \<times> 'd ksys) result" where
  "run_raid f s = rbind (f (raid_view s)) (\<lambda>(v, r). Inr (Reply (of_int v), from_raid r s))"

definition sys_init_raid :: "nat \<Rightarrow> nat \<Rightarrow> 'd ksys \<Rightarrow> (reply \<times> 'd ksys) result" where
  "sys_init_raid DISKS DISK_SIZE s = rbind (argint 0 s) (\<lambda>raid. run_raid (init_raid DISKS DISK_SIZE (of_int raid)) s)"

definition sys_read_raid :: "nat \<Rightarrow> 'd ksys \<Rightarrow> (reply \<times> 'd ksys) result" where
  "sys_read_raid DISKS s =
     rbind (argint 0 s) (\<lambda>blkn. rbind (argaddr 1 s) (\<lambda>data.
       run_raid (read_raid DISKS (p_pagetable (myproc s)) (of_int blkn) data) s))"

definition sys_write_raid :: "nat \<Rightarrow> 'd ksys \<Rightarrow> (reply \<times> 'd ksys) result" where
  "sys_write_raid DISKS s =
     rbind (argint 0 s) (\<lambda>blkn. rbind (argaddr 1 s) (\<lambda>data.
       run_raid (write_raid DISKS (p_pagetable (myproc s)) (of_int blkn) data) s))"

definition sys_info_raid :: "nat \<Rightarrow> 'd ksys \<Rightarrow> (reply \<times> 'd ksys) result" where
  "sys_info_raid DISKS s =
     rbind (argaddr 0 s) (\<lambda>blkn. rbind (argaddr 1 s) (\<lambda>blks. rbind (argaddr 2 s) (\<lambda>diskn.
       run_raid (info_raid DISKS (p_pagetable (myproc s)) blkn blks diskn) s)))"

definition sys_disk_fail_raid :: "nat \<Rightarrow> 'd ksys \<Rightarrow> (reply \<times> 'd ksys) result" where
  "sys_disk_fail_raid DISKS s = rbind (argint 0 s) (\<lambda>diskn. run_raid (disk_fail_raid DISKS diskn) s)"

definition sys_disk_repaired_raid :: "nat \<Rightarrow> 'd ksys \<Rightarrow> (reply \<times> 'd ksys) result" where
  "sys_disk_repaired_raid DISKS s = rbind (argint 0 s) (\<lambda>diskn. run_raid (disk_repaired_raid DISKS diskn) s)"

definition sys_destroy_raid :: "nat \<Rightarrow> 'd ksys \<Rightarrow> (reply \<times> 'd ksys) result" where
  "sys_destroy_raid DISKS s = run_raid (destroy_raid DISKS (kend s)) s"

section \<open>Dispatch\<close>

text \<open>What the build and the devices give: constants, the functions of \<^verbatim>\<open>devsw\<close>, bytes of padding.\<close>

record 'd env =
  DISKS :: nat
  DISK_SIZE :: nat
  devsw_read :: "nat \<Rightarrow> 'd devop option"
  devsw_write :: "nat \<Rightarrow> 'd devop option"
  stat_pad :: "byte list"

definition from_outcome :: "(outcome \<times> 'd ksys) result \<Rightarrow> (reply \<times> 'd ksys) result" where
  "from_outcome r = rbind r (\<lambda>(v, s). Inr (case v of Returned n \<Rightarrow> Reply (of_int n) | Asleep c i \<Rightarrow> Blocked, s))"

definition syscalls :: "'d env \<Rightarrow> ('d ksys \<Rightarrow> (reply \<times> 'd ksys) result) option list" where
  "syscalls e =
     [None, Some sys_fork, Some sys_exit, Some sys_wait, Some (\<lambda>s. returns (sys_pipe s)),
      Some (\<lambda>s. from_outcome (sys_read (devsw_read e) s)), Some sys_kill, Some (\<lambda>s. returns (sys_exec s)),
      Some (\<lambda>s. returns (sys_fstat (stat_pad e) s)), Some (\<lambda>s. returns (sys_chdir s)), Some (\<lambda>s. returns (sys_dup s)),
      Some sys_getpid, Some sys_sbrk, Some sys_sleep, Some sys_uptime, Some (\<lambda>s. returns (sys_open s)),
      Some (\<lambda>s. from_outcome (sys_write (devsw_write e) s)), Some (\<lambda>s. returns (sys_mknod s)), Some (\<lambda>s. returns (sys_unlink s)),
      Some (\<lambda>s. returns (sys_link s)), Some (\<lambda>s. returns (sys_mkdir s)), Some (\<lambda>s. returns (sys_close s)),
      Some (sys_init_raid (DISKS e) (DISK_SIZE e)), Some (sys_read_raid (DISKS e)), Some (sys_write_raid (DISKS e)),
      Some (sys_info_raid (DISKS e)), Some (sys_disk_fail_raid (DISKS e)), Some (sys_disk_repaired_raid (DISKS e)),
      Some (sys_destroy_raid (DISKS e))]"

definition TF_a7 :: u64 where [const_simps]: "TF_a7 = 168"

definition syscall :: "'d env \<Rightarrow> 'd ksys \<Rightarrow> (reply \<times> 'd ksys) result" where
  "syscall e s =
     (let tf = p_trapframe (myproc s);
          num = sint (ucast (get64 (phys (pm s)) (tf + TF_a7)) :: u32)
      in case (if 0 < num \<and> num < int (length (syscalls e)) then syscalls e ! nat num else None) of
           Some f \<Rightarrow> rbind (f s) (\<lambda>(r, s1). case r of
               Reply v \<Rightarrow> Inr (r, put_tf tf TF_a0 v s1)
             | _ \<Rightarrow> Inr (r, s1))
         | None \<Rightarrow> Inr (Reply (-1), put_tf tf TF_a0 (-1) s))"

text \<open>
  \<^verbatim>\<open>usertrap\<close> for a system call (\<^verbatim>\<open>scause\<close> 8), with \<open>sepc\<close> in the register of that name.  A process that has
  been killed exits before or after the call.
\<close>

definition usertrap_syscall :: "'d env \<Rightarrow> u64 \<Rightarrow> 'd ksys \<Rightarrow> (reply \<times> 'd ksys) result" where
  "usertrap_syscall e sepc s =
     (let tf = p_trapframe (myproc s); s1 = put_tf tf TF_epc sepc s in
      if killed (me s1) s1 then rbind (exit (-1) s1) (\<lambda>s2. Inr (Exited, s2))
      else let s2 = put_tf tf TF_epc (sepc + 4) s1 in
        rbind (syscall e s2) (\<lambda>(r, s3).
        case r of
          Reply v \<Rightarrow> if killed (me s3) s3 then rbind (exit (-1) s3) (\<lambda>s4. Inr (Exited, s4)) else Inr (r, s3)
        | _ \<Rightarrow> Inr (r, s3)))"

end
