(* ===== verification/Console.thy ===== *)
theory Console
  imports Ring
begin

text \<open>
  The console, \<^verbatim>\<open>kernel/console.c\<close>, and the serial line under it, \<^verbatim>\<open>kernel/uart.c\<close>.  A section under \<^verbatim>\<open>cons.lock\<close> or
  \<^verbatim>\<open>uart_tx_lock\<close> is one step, and a call that sleeps runs up to the sleep.  The device is an argument:
  \<open>idle k\<close> is what the \<open>k\<close>-th read of the line status register in a call says about the transmitter.  What
  is written to the transmit register is returned as a list of bytes.
\<close>

section \<open>The serial line\<close>

definition UART_TX_BUF_SIZE :: nat where [const_simps]: "UART_TX_BUF_SIZE = 32"

record uart =
  uart_tx_buf :: "byte list"
  uart_tx_w :: u64
  uart_tx_r :: u64

text \<open>The register writes of \<^verbatim>\<open>uartinit\<close>, as pairs of register and value.\<close>

definition uartinit :: "(nat \<times> byte) list" where
  "uartinit = (let IER = 1; FCR = 2; LCR = 3 in
     [(IER, 0), (LCR, 0x80), (0, 3), (1, 0), (LCR, 3), (FCR, 1 OR 6), (IER, 2 OR 1)])"

definition tx_put :: "byte \<Rightarrow> uart \<Rightarrow> uart" where
  "tx_put c u = u\<lparr>uart_tx_buf := (uart_tx_buf u)[unat (uart_tx_w u) mod UART_TX_BUF_SIZE := c], uart_tx_w := uart_tx_w u + 1\<rparr>"

definition tx_get :: "uart \<Rightarrow> byte \<times> uart" where
  "tx_get u = (uart_tx_buf u ! (unat (uart_tx_r u) mod UART_TX_BUF_SIZE), u\<lparr>uart_tx_r := uart_tx_r u + 1\<rparr>)"

text \<open>\<^verbatim>\<open>uartstart\<close>: the bytes sent; each of them also wakes up who waits for room.\<close>

function uartstart :: "(nat \<Rightarrow> bool) \<Rightarrow> nat \<Rightarrow> uart \<Rightarrow> byte list \<times> uart" where
  "uartstart idle k u =
     (if uart_tx_w u = uart_tx_r u then ([], u)
      else if \<not> idle k then ([], u)
      else case tx_get u of (c, u1) \<Rightarrow> case uartstart idle (k + 1) u1 of (cs, u2) \<Rightarrow> (c # cs, u2))"
  by pat_completeness auto

termination uartstart
proof (relation "measure (\<lambda>(idle, k, u). unat (uart_tx_w u - uart_tx_r u))")
  fix idle :: "nat \<Rightarrow> bool" and k :: nat and u u1 c
  assume ne: "uart_tx_w u \<noteq> uart_tx_r u" and x: "(c, u1) = tx_get u"
  have "uart_tx_w u - (uart_tx_r u + 1) = (uart_tx_w u - uart_tx_r u) - 1" by (simp add: algebra_simps)
  moreover have "uart_tx_w u - uart_tx_r u \<noteq> 0" using ne by simp
  ultimately have "unat (uart_tx_w u - (uart_tx_r u + 1)) < unat (uart_tx_w u - uart_tx_r u)"
    by (metis unat_dec diff_less unat_eq_0 neq0_conv zero_less_one)
  then show "((idle, k + 1, u1), idle, k, u) \<in> measure (\<lambda>(idle, k, u). unat (uart_tx_w u - uart_tx_r u))"
    using x by (simp add: tx_get_def)
qed simp

declare uartstart.simps [simp del]

text \<open>\<^verbatim>\<open>uartputc\<close> puts a byte into the buffer, sleeps while it is full, and never returns after a panic.\<close>

datatype uart_reply = Sent "byte list" | TxSleep | Spinning_forever

definition uartputc :: "bool \<Rightarrow> (nat \<Rightarrow> bool) \<Rightarrow> byte \<Rightarrow> uart \<Rightarrow> uart_reply \<times> uart" where
  "uartputc panicked idle c u =
     (if panicked then (Spinning_forever, u)
      else if uart_tx_w u = uart_tx_r u + of_nat UART_TX_BUF_SIZE then (TxSleep, u)
      else case uartstart idle 0 (tx_put c u) of (cs, u1) \<Rightarrow> (Sent cs, u1))"

text \<open>\<^verbatim>\<open>uartputc_sync\<close> after its loop has seen an idle transmitter: the byte it writes.\<close>

definition uartputc_sync :: "byte \<Rightarrow> byte list" where
  "uartputc_sync c = [c]"

definition uartgetc :: "byte \<Rightarrow> byte \<Rightarrow> int" where
  "uartgetc lsr rhr = (if lsr AND 1 \<noteq> 0 then int (unat rhr) else -1)"

section \<open>The console\<close>

definition INPUT_BUF_SIZE :: nat where [const_simps]: "INPUT_BUF_SIZE = 128"
definition BACKSPACE :: nat where [const_simps]: "BACKSPACE = 0x100"

text \<open>\<open>echo\<close> collects what the console writes to the transmit register.\<close>

record console =
  cbuf :: "byte list"
  cr :: u32
  cw :: u32
  ce :: u32
  echo :: "byte list"

definition consputc :: "nat \<Rightarrow> console \<Rightarrow> console" where
  "consputc c s =
     s\<lparr>echo := echo s @ (if c = BACKSPACE then uartputc_sync 8 @ uartputc_sync 32 @ uartputc_sync 8
                         else uartputc_sync (of_nat c))\<rparr>"

definition erase :: "console \<Rightarrow> console" where
  "erase s = consputc BACKSPACE (s\<lparr>ce := ce s - 1\<rparr>)"

function kill_line :: "console \<Rightarrow> console" where
  "kill_line s =
     (if ce s \<noteq> cw s \<and> cbuf s ! (unat (ce s - 1) mod INPUT_BUF_SIZE) \<noteq> 10 then kill_line (erase s) else s)"
  by pat_completeness auto

termination kill_line
proof (relation "measure (\<lambda>s. unat (ce s - cw s))")
  fix s :: console
  assume "ce s \<noteq> cw s \<and> cbuf s ! (unat (ce s - 1) mod INPUT_BUF_SIZE) \<noteq> 10"
  then have "ce s - cw s \<noteq> 0" by simp
  moreover have "ce s - 1 - cw s = (ce s - cw s) - 1" by (simp add: algebra_simps)
  ultimately have "unat (ce s - 1 - cw s) < unat (ce s - cw s)"
    by (metis unat_dec diff_less unat_eq_0 neq0_conv zero_less_one)
  then show "(erase s, s) \<in> measure (\<lambda>s. unat (ce s - cw s))" by (simp add: erase_def consputc_def)
qed simp

declare kill_line.simps [simp del]

definition store_char :: "byte \<Rightarrow> console \<Rightarrow> console" where
  "store_char c s = s\<lparr>cbuf := (cbuf s)[unat (ce s) mod INPUT_BUF_SIZE := c], ce := ce s + 1\<rparr>"

text \<open>\<^verbatim>\<open>consoleintr\<close>, with whether it wakes up the reader.  Control-P only prints.\<close>

definition consoleintr :: "byte \<Rightarrow> console \<Rightarrow> console \<times> bool" where
  "consoleintr c s =
     (if c = 16 then (s, False)
      else if c = 21 then (kill_line s, False)
      else if c = 8 \<or> c = 0x7f then (if ce s \<noteq> cw s then erase s else s, False)
      else if c \<noteq> 0 \<and> ce s - cr s < of_nat INPUT_BUF_SIZE
      then let c' = (if c = 13 then 10 else c);
               s1 = store_char c' (consputc (unat c') s)
           in if c' = 10 \<or> c' = 4 \<or> ce s1 - cr s1 = of_nat INPUT_BUF_SIZE then (s1\<lparr>cw := ce s1\<rparr>, True) else (s1, False)
      else (s, False))"

text \<open>How \<^verbatim>\<open>consoleread\<close> ends: with a result, or asleep with the number of bytes still wanted.\<close>

datatype read_outcome = ReadRet int | ReadSleep nat

text \<open>
  \<^verbatim>\<open>consoleread\<close> from the head of its loop, with \<open>n\<close> bytes still wanted of \<open>target\<close>; \<open>co i\<close> says whether
  \<^verbatim>\<open>either_copyout\<close> of byte number \<open>i\<close> succeeds.  The second component are the bytes that arrived.
\<close>

fun consoleread :: "(nat \<Rightarrow> bool) \<Rightarrow> bool \<Rightarrow> nat \<Rightarrow> nat \<Rightarrow> console \<Rightarrow> read_outcome \<times> byte list \<times> console" where
  "consoleread co killed target 0 s = (ReadRet (int target), [], s)"
| "consoleread co killed target (Suc n) s =
     (if cr s = cw s then (if killed then ReadRet (-1) else ReadSleep (Suc n), [], s)
      else let c = cbuf s ! (unat (cr s) mod INPUT_BUF_SIZE); s1 = s\<lparr>cr := cr s + 1\<rparr> in
        if c = 4 then (ReadRet (int target - int (Suc n)), [], if Suc n < target then s1\<lparr>cr := cr s1 - 1\<rparr> else s1)
        else if \<not> co (target - Suc n) then (ReadRet (int target - int (Suc n)), [], s1)
        else if c = 10 then (ReadRet (int target - int n), [c], s1)
        else case consoleread co killed target n s1 of (r, bs, s2) \<Rightarrow> (r, c # bs, s2))"

text \<open>
  \<^verbatim>\<open>consolewrite\<close> from its byte number \<open>i\<close> on: the number of bytes written or the reply of a \<^verbatim>\<open>uartputc\<close> that
  did not return, the bytes sent, and the serial line.  \<open>idle i\<close> answers the reads during byte \<open>i\<close>.
\<close>

datatype write_outcome = WriteRet nat | WriteWait nat uart_reply

function consolewrite :: "(nat \<Rightarrow> byte option) \<Rightarrow> bool \<Rightarrow> (nat \<Rightarrow> nat \<Rightarrow> bool) \<Rightarrow> nat \<Rightarrow> nat \<Rightarrow> uart \<Rightarrow> write_outcome \<times> byte list \<times> uart" where
  "consolewrite ci panicked idle n i u =
     (if i < n
      then case ci i of
             None \<Rightarrow> (WriteRet i, [], u)
           | Some c \<Rightarrow> (case uartputc panicked (idle i) c u of
                (Sent cs, u1) \<Rightarrow> (case consolewrite ci panicked idle n (i + 1) u1 of (r, ds, u2) \<Rightarrow> (r, cs @ ds, u2))
              | (w, u1) \<Rightarrow> (WriteWait i w, [], u1))
      else (WriteRet i, [], u))"
  by pat_completeness auto

termination consolewrite
  by (relation "measure (\<lambda>(ci, p, idle, n, i, u). n - i)") auto

declare consolewrite.simps [simp del]

text \<open>\<^verbatim>\<open>uartintr\<close>: the characters \<open>inp\<close> that have arrived go to the console, then buffered output is sent.\<close>

definition uartintr :: "byte list \<Rightarrow> (nat \<Rightarrow> bool) \<Rightarrow> console \<Rightarrow> uart \<Rightarrow> console \<times> byte list \<times> uart" where
  "uartintr inp idle s u =
     (let s1 = fold (\<lambda>c s. fst (consoleintr c s)) inp s
      in case uartstart idle 0 u of (cs, u1) \<Rightarrow> (s1, cs, u1))"

section \<open>The transmit buffer is a queue\<close>

definition uart_ok :: "uart \<Rightarrow> bool" where
  "uart_ok u \<longleftrightarrow> ring_ok UART_TX_BUF_SIZE (uart_tx_buf u) (uart_tx_r u) (uart_tx_w u)"

definition uart_queue :: "uart \<Rightarrow> byte list" where
  "uart_queue u = ring UART_TX_BUF_SIZE (uart_tx_buf u) (uart_tx_r u) (uart_tx_w u)"

interpretation uartq: fifo uart_ok uart_queue UART_TX_BUF_SIZE tx_put tx_get
proof unfold_locales
  show "uart_ok (tx_put x u) \<and> uart_queue (tx_put x u) = uart_queue u @ [x]"
    if "uart_ok u" "length (uart_queue u) < UART_TX_BUF_SIZE" for u x
    using that ring_put[of UART_TX_BUF_SIZE "uart_tx_buf u" "uart_tx_r u" "uart_tx_w u"]
    by (simp add: uart_ok_def uart_queue_def tx_put_def)
  show "fst (tx_get u) = x \<and> uart_ok (snd (tx_get u)) \<and> uart_queue (snd (tx_get u)) = xs"
    if "uart_ok u" "uart_queue u = x # xs" for u x xs
  proof -
    have "uart_tx_r u \<noteq> uart_tx_w u"
      using that(2) ring_empty[of UART_TX_BUF_SIZE "uart_tx_buf u" "uart_tx_r u" "uart_tx_w u"] by (auto simp: uart_queue_def)
    with that ring_get[of UART_TX_BUF_SIZE "uart_tx_buf u" "uart_tx_r u" "uart_tx_w u"] show ?thesis
      by (simp add: uart_ok_def uart_queue_def tx_get_def)
  qed
  show "length (uart_queue u) \<le> UART_TX_BUF_SIZE" if "uart_ok u" for u
    using that by (simp add: uart_ok_def uart_queue_def ring_ok_def)
qed

lemma uart_full: "uart_tx_w u = uart_tx_r u + of_nat UART_TX_BUF_SIZE \<longleftrightarrow> length (uart_queue u) = UART_TX_BUF_SIZE"
proof
  assume "length (uart_queue u) = UART_TX_BUF_SIZE"
  then have "of_nat (unat (uart_tx_w u - uart_tx_r u)) = (of_nat UART_TX_BUF_SIZE :: u64)" by (simp add: uart_queue_def)
  then show "uart_tx_w u = uart_tx_r u + of_nat UART_TX_BUF_SIZE" by (simp add: algebra_simps)
qed (simp add: uart_queue_def UART_TX_BUF_SIZE_def)

lemma uartstart_sends:
  assumes "uart_ok u" "uartstart idle k u = (cs, u')"
  shows "uart_ok u' \<and> cs @ uart_queue u' = uart_queue u"
  using assms
proof (induction idle k u arbitrary: cs u' rule: uartstart.induct)
  case (1 idle k u)
  show ?case
  proof (cases "uart_tx_w u = uart_tx_r u \<or> \<not> idle k")
    case True
    then show ?thesis using 1(2,3) by (subst (asm) uartstart.simps) (auto split: if_splits)
  next
    case False
    then have "uart_queue u \<noteq> []"
      using ring_empty[of UART_TX_BUF_SIZE "uart_tx_buf u" "uart_tx_r u" "uart_tx_w u"] by (auto simp: uart_queue_def)
    then obtain x xs where q: "uart_queue u = x # xs" by (cases "uart_queue u") auto
    obtain c u1 where g: "tx_get u = (c, u1)" by (cases "tx_get u")
    have g': "c = x" "uart_ok u1" "uart_queue u1 = xs" using uartq.get_ok[OF 1(2) q] g by simp_all
    obtain ds u2 where r: "uartstart idle (k + 1) u1 = (ds, u2)" by (cases "uartstart idle (k + 1) u1")
    have "cs = c # ds" "u' = u2" using 1(3) False g r by (subst (asm) uartstart.simps; auto)+
    moreover have "uart_ok u2 \<and> ds @ uart_queue u2 = uart_queue u1"
      using 1(1)[OF _ _ g[symmetric] g'(2) r] False by auto
    ultimately show ?thesis using g' q by simp
  qed
qed

lemma uartputc_sends:
  assumes "uart_ok u" "uartputc panicked idle c u = (w, u')"
  shows "uart_ok u' \<and> (case w of Sent cs \<Rightarrow> cs @ uart_queue u' = uart_queue u @ [c] | _ \<Rightarrow> u' = u)"
proof -
  consider "panicked" | "\<not> panicked" "length (uart_queue u) = UART_TX_BUF_SIZE" | "\<not> panicked" "length (uart_queue u) < UART_TX_BUF_SIZE"
    using uartq.q_cap[OF assms(1)] by linarith
  then show ?thesis
  proof cases
    case 3
    then have p: "uart_ok (tx_put c u)" "uart_queue (tx_put c u) = uart_queue u @ [c]" using uartq.put_ok[OF assms(1)] by auto
    obtain cs u1 where s: "uartstart idle 0 (tx_put c u) = (cs, u1)" by (cases "uartstart idle 0 (tx_put c u)")
    have "w = Sent cs" "u' = u1" using assms(2) 3 s by (auto simp: uartputc_def uart_full)
    then show ?thesis using uartstart_sends[OF p(1) s] p(2) by simp
  qed (use assms in \<open>auto simp: uartputc_def uart_full\<close>)
qed



section \<open>Line editing\<close>

lemma ring_split:
  fixes r w e :: "'l::len word"
  assumes "unat (w - r) \<le> unat (e - r)"
  shows "ring N cells r e = ring N cells r w @ ring N cells w e" and "unat (e - w) = unat (e - r) - unat (w - r)"
proof -
  have "unat ((e - r) - (w - r)) = unat (e - r) - unat (w - r)" by (rule unat_sub) (use assms in \<open>simp add: word_le_nat_alt\<close>)
  moreover have "(e - r) - (w - r) = e - w" by simp
  ultimately show u: "unat (e - w) = unat (e - r) - unat (w - r)" by (simp only:)
  show "ring N cells r e = ring N cells r w @ ring N cells w e"
  proof (rule nth_equalityI)
    show "length (ring N cells r e) = length (ring N cells r w @ ring N cells w e)" using u assms by simp
    fix k
    assume k: "k < length (ring N cells r e)"
    have "r + of_nat k = w + of_nat (k - unat (w - r))" if "unat (w - r) \<le> k"
    proof -
      have "of_nat k = of_nat (unat (w - r)) + (of_nat (k - unat (w - r)) :: 'l word)" using that by (metis le_add_diff_inverse of_nat_add)
      then show ?thesis by simp
    qed
    then show "ring N cells r e ! k = (ring N cells r w @ ring N cells w e) ! k"
      using k u by (auto simp: ring_def nth_append add.commute)
  qed
qed

lemma ring_last:
  fixes r e :: "'l::len word"
  assumes "e \<noteq> r"
  shows "ring N cells r e = ring N cells r (e - 1) @ [cells ! (unat (e - 1) mod N)]" and "unat (e - 1 - r) = unat (e - r) - 1"
proof -
  have e: "e - 1 - r = (e - r) - 1" by (simp add: algebra_simps)
  show u: "unat (e - 1 - r) = unat (e - r) - 1" unfolding e by (rule unat_dec) (use assms in simp)
  have p: "0 < unat (e - r)" using assms by (simp add: unat_gt_0)
  have "unat (e - 1 - r) \<le> unat (e - r)" using u by simp
  note sp = ring_split[OF this]
  have "unat (e - (e - 1)) = 1" by simp
  then have "ring N cells (e - 1) e = [cells ! (unat (e - 1) mod N)]" by (simp add: ring_def)
  then show "ring N cells r e = ring N cells r (e - 1) @ [cells ! (unat (e - 1) mod N)]" using sp(1)[of N cells] by (simp only:)
qed

text \<open>The characters a reader may have, and those of the line that is being typed.\<close>

definition entered :: "console \<Rightarrow> byte list" where
  "entered s = ring INPUT_BUF_SIZE (cbuf s) (cr s) (cw s)"

definition editing :: "console \<Rightarrow> byte list" where
  "editing s = ring INPUT_BUF_SIZE (cbuf s) (cw s) (ce s)"

definition cons_ok :: "console \<Rightarrow> bool" where
  "cons_ok s \<longleftrightarrow> ring_ok INPUT_BUF_SIZE (cbuf s) (cr s) (ce s) \<and> unat (cw s - cr s) \<le> unat (ce s - cr s) \<and> 10 \<notin> set (editing s)"

text \<open>A line editor: the characters entered, and the line under the cursor.\<close>

fun edit :: "byte \<Rightarrow> byte list \<times> byte list \<Rightarrow> byte list \<times> byte list" where
  "edit c (d, e) =
     (if c = 16 then (d, e)
      else if c = 21 then (d, [])
      else if c = 8 \<or> c = 0x7f then (d, butlast e)
      else if c \<noteq> 0 \<and> length d + length e < INPUT_BUF_SIZE
      then let c' = (if c = 13 then 10 else c)
           in if c' = 10 \<or> c' = 4 \<or> length d + length e + 1 = INPUT_BUF_SIZE then (d @ e @ [c'], []) else (d, e @ [c'])
      else (d, e))"

lemma cons_len: "cons_ok s \<Longrightarrow> unat (ce s - cr s) = length (entered s) + length (editing s)"
  using ring_split(2)[of "cw s" "cr s" "ce s"] by (simp add: cons_ok_def entered_def editing_def)

lemma editing_empty: "editing s = [] \<longleftrightarrow> ce s = cw s"
  using ring_empty[of INPUT_BUF_SIZE "cbuf s" "cw s" "ce s"] by (auto simp: editing_def)

lemma erase_ok:
  assumes "cons_ok s" "ce s \<noteq> cw s"
  shows "cons_ok (erase s) \<and> entered (erase s) = entered s \<and> editing s = editing (erase s) @ [cbuf s ! (unat (ce s - 1) mod INPUT_BUF_SIZE)]"
proof -
  have l: "unat (ce s - cr s) = length (entered s) + length (editing s)" by (rule cons_len) fact
  have p: "0 < length (editing s)" using editing_empty[of s] assms(2) by auto
  then have ne: "ce s \<noteq> cr s" using l by auto
  have u: "unat (ce s - 1 - cr s) = unat (ce s - cr s) - 1" by (rule ring_last(2)[OF ne])
  have ed: "editing s = editing (erase s) @ [cbuf s ! (unat (ce s - 1) mod INPUT_BUF_SIZE)]"
    using ring_last(1)[OF assms(2)] by (simp add: editing_def erase_def consputc_def)
  have en: "entered (erase s) = entered s" by (simp add: entered_def erase_def consputc_def)
  have "unat (cw s - cr s) \<le> unat (ce s - 1 - cr s)" using u l p unfolding entered_def length_ring by linarith
  then have "cons_ok (erase s)" using assms(1) u ed by (auto simp: cons_ok_def ring_ok_def erase_def consputc_def)
  then show ?thesis using ed en by blast
qed

lemma kill_line_ok:
  assumes "cons_ok s"
  shows "cons_ok (kill_line s) \<and> entered (kill_line s) = entered s \<and> editing (kill_line s) = []"
  using assms
proof (induction s rule: kill_line.induct)
  case (1 s)
  show ?case
  proof (cases "ce s = cw s")
    case True
    then show ?thesis using 1(2) editing_empty[of s] by (subst (1 2 3) kill_line.simps) auto
  next
    case False
    note er = erase_ok[OF 1(2) False]
    then have nl: "cbuf s ! (unat (ce s - 1) mod INPUT_BUF_SIZE) \<noteq> 10" using 1(2) by (auto simp: cons_ok_def)
    have "kill_line s = kill_line (erase s)" using False nl by (subst kill_line.simps) simp
    then show ?thesis using 1(1) False nl er by simp
  qed
qed

lemma store_ok:
  assumes "cons_ok s" "length (entered s) + length (editing s) < INPUT_BUF_SIZE"
  shows "ring_ok INPUT_BUF_SIZE (cbuf (store_char c s)) (cr s) (ce (store_char c s))"
    and "entered (store_char c s) = entered s" "editing (store_char c s) = editing s @ [c]"
    and "unat (ce (store_char c s) - cr s) = unat (ce s - cr s) + 1"
proof -
  let ?s = "store_char c s"
  have l: "unat (ce s - cr s) = length (entered s) + length (editing s)" by (rule cons_len) fact
  have ro: "ring_ok INPUT_BUF_SIZE (cbuf s) (cr s) (ce s)" using assms(1) by (simp add: cons_ok_def)
  have rm: "unat (ce s - cr s) < INPUT_BUF_SIZE" using l assms(2) by simp
  note p = ring_put[OF ro rm, of c]
  show "ring_ok INPUT_BUF_SIZE (cbuf ?s) (cr s) (ce ?s)" using p(2) by (simp add: store_char_def)
  have all: "ring INPUT_BUF_SIZE (cbuf ?s) (cr s) (ce ?s) = entered s @ editing s @ [c]"
    using p(1) ring_split(1)[of "cw s" "cr s" "ce s"] assms(1) by (simp add: store_char_def entered_def editing_def cons_ok_def)
  then have "length (ring INPUT_BUF_SIZE (cbuf ?s) (cr s) (ce ?s)) = length (entered s) + length (editing s) + 1" by simp
  then show u: "unat (ce ?s - cr s) = unat (ce s - cr s) + 1" using l by simp
  have le: "unat (cw s - cr s) \<le> unat (ce ?s - cr s)" using assms(1) u by (simp add: cons_ok_def)
  have sp: "ring INPUT_BUF_SIZE (cbuf ?s) (cr s) (ce ?s) = entered ?s @ editing ?s"
    using ring_split(1)[OF le, of INPUT_BUF_SIZE "cbuf ?s"] by (simp add: store_char_def entered_def editing_def)
  have "length (entered ?s) = length (entered s)" by (simp add: store_char_def entered_def)
  then show "entered ?s = entered s" "editing ?s = editing s @ [c]" using all sp by auto
qed

text \<open>
  C30: the console's circular buffer implements a line editor.  Whatever character arrives,
  \<^verbatim>\<open>consoleintr\<close> does on the characters entered and on the line being typed what the editor does:
  control-U clears the line, backspace and delete take its last character away, a newline, a control-D
  or a full buffer hands it over to the readers, and a character that does not fit is dropped.  The
  counters may have any values, also around the wrap-around.
\<close>

theorem consoleintr_edits:
  assumes "cons_ok s"
  shows "cons_ok (fst (consoleintr c s)) \<and>
    (entered (fst (consoleintr c s)), editing (fst (consoleintr c s))) = edit c (entered s, editing s)"
proof -
  let ?g = "\<lambda>t. cons_ok t \<and> (entered t, editing t) = edit c (entered s, editing s)"
  have l: "unat (ce s - cr s) = length (entered s) + length (editing s)" by (rule cons_len) fact
  have full: "ce s - cr s < of_nat INPUT_BUF_SIZE \<longleftrightarrow> length (entered s) + length (editing s) < INPUT_BUF_SIZE"
    unfolding word_less_nat_alt l by (simp add: INPUT_BUF_SIZE_def)
  consider (p) "c = 16" | (u) "c = 21" | (h) "c = 8 \<or> c = 0x7f" | (o) "c \<notin> {16, 21, 8, 0x7f}" by auto
  then have "?g (fst (consoleintr c s))"
  proof cases
    case h
    show ?thesis
    proof (cases "ce s = cw s")
      case True
      then show ?thesis using h assms editing_empty[of s] by (auto simp: consoleintr_def)
    next
      case False
      have "butlast (editing s) = editing (erase s)" using erase_ok[OF assms False] by (metis butlast_snoc)
      then show ?thesis using h False erase_ok[OF assms False] by (auto simp: consoleintr_def)
    qed
  next
    case o
    define c' where "c' = (if c = 13 then 10 else c)"
    let ?t = "consputc (unat c') s" and ?s = "store_char c' (consputc (unat c') s)"
    show ?thesis
    proof (cases "c \<noteq> 0 \<and> length (entered s) + length (editing s) < INPUT_BUF_SIZE")
      case True
      have t: "cons_ok ?t" "entered ?t = entered s" "editing ?t = editing s" "cr ?t = cr s" "cw ?t = cw s" "ce ?t = ce s" "cr ?s = cr s" "cw ?s = cw s"
        using assms by (simp_all add: cons_ok_def entered_def editing_def consputc_def store_char_def)
      have st: "ring_ok INPUT_BUF_SIZE (cbuf ?s) (cr s) (ce ?s)" "entered ?s = entered s" "editing ?s = editing s @ [c']"
          "unat (ce ?s - cr s) = unat (ce s - cr s) + 1"
        using store_ok[OF t(1), of c'] t True by simp_all
      have fu: "ce ?s - cr s = of_nat INPUT_BUF_SIZE \<longleftrightarrow> length (entered s) + length (editing s) + 1 = INPUT_BUF_SIZE"
        using st(4) l by (auto simp: word_unat_eq_iff INPUT_BUF_SIZE_def)
      have r: "fst (consoleintr c s) = (if c' = 10 \<or> c' = 4 \<or> ce ?s - cr s = of_nat INPUT_BUF_SIZE then ?s\<lparr>cw := ce ?s\<rparr> else ?s)"
        using o True full t(7) by (simp add: consoleintr_def Let_def c'_def)
      show ?thesis
      proof (cases "c' = 10 \<or> c' = 4 \<or> ce ?s - cr s = of_nat INPUT_BUF_SIZE")
        case True2: True
        have "entered (?s\<lparr>cw := ce ?s\<rparr>) = ring INPUT_BUF_SIZE (cbuf ?s) (cr s) (ce ?s)" using t by (simp add: entered_def)
        also have "\<dots> = entered ?s @ editing ?s"
          using ring_split(1)[of "cw s" "cr s" "ce ?s" INPUT_BUF_SIZE "cbuf ?s"] st(4) t assms
          by (simp add: entered_def editing_def cons_ok_def)
        finally have en: "entered (?s\<lparr>cw := ce ?s\<rparr>) = entered s @ editing s @ [c']" using st by simp
        have ed: "editing (?s\<lparr>cw := ce ?s\<rparr>) = []" by (simp add: editing_def ring_def)
        have "cons_ok (?s\<lparr>cw := ce ?s\<rparr>)" using st(1) t ed by (simp add: cons_ok_def)
        then show ?thesis using en ed r True2 fu o True by (simp add: Let_def c'_def)
      next
        case False
        have "10 \<notin> set (editing ?s)" using st(3) False assms by (auto simp: cons_ok_def)
        then have "cons_ok ?s" using st t assms by (simp add: cons_ok_def)
        then show ?thesis using r False fu st o True by (auto simp: Let_def c'_def)
      qed
    next
      case False
      then show ?thesis using o assms full by (auto simp: consoleintr_def)
    qed
  qed (use assms kill_line_ok[OF assms] in \<open>simp_all add: consoleintr_def\<close>)
  then show ?thesis .
qed

theorem consoleintr_edits_witness:
  "edit 8 (entered (fst (consoleintr 97 \<lparr>cbuf = replicate 128 0, cr = -1, cw = -1, ce = -1, echo = []\<rparr>)),
           editing (fst (consoleintr 97 \<lparr>cbuf = replicate 128 0, cr = -1, cw = -1, ce = -1, echo = []\<rparr>))) = ([], [])"
proof -
  let ?s = "\<lparr>cbuf = replicate 128 0, cr = -1, cw = -1, ce = -1, echo = []\<rparr>"
  have "cons_ok ?s" by (simp add: cons_ok_def editing_def ring_def ring_ok_def INPUT_BUF_SIZE_def)
  from consoleintr_edits[OF this, of 97]
  show ?thesis by (simp add: entered_def editing_def ring_def INPUT_BUF_SIZE_def)
qed

section \<open>Reading lines\<close>

lemma read_one:
  assumes "cons_ok s" "entered s = c # cs"
  shows "cr s \<noteq> cw s" "cbuf s ! (unat (cr s) mod INPUT_BUF_SIZE) = c"
    "cons_ok (s\<lparr>cr := cr s + 1\<rparr>)" "entered (s\<lparr>cr := cr s + 1\<rparr>) = cs" "editing (s\<lparr>cr := cr s + 1\<rparr>) = editing s"
proof -
  show ne: "cr s \<noteq> cw s" using assms(2) ring_empty[of INPUT_BUF_SIZE "cbuf s" "cr s" "cw s"] by (auto simp: entered_def)
  have l: "unat (ce s - cr s) = length (entered s) + length (editing s)" by (rule cons_len) fact
  have "ring_ok INPUT_BUF_SIZE (cbuf s) (cr s) (cw s)" using assms(1) by (simp add: cons_ok_def ring_ok_def)
  note g = ring_get[OF this ne]
  show "cbuf s ! (unat (cr s) mod INPUT_BUF_SIZE) = c" and en: "entered (s\<lparr>cr := cr s + 1\<rparr>) = cs"
    using g(1) assms(2) by (simp_all add: entered_def)
  show ed: "editing (s\<lparr>cr := cr s + 1\<rparr>) = editing s" by (simp add: editing_def)
  have "ce s \<noteq> cr s" using l assms(2) by auto
  then have "ring_ok INPUT_BUF_SIZE (cbuf s) (cr s + 1) (ce s)" and u: "unat (ce s - (cr s + 1)) = unat (ce s - cr s) - 1"
    using ring_get[of INPUT_BUF_SIZE "cbuf s" "cr s" "ce s"] assms(1) unat_dec[of "ce s - cr s"]
    by (auto simp: cons_ok_def algebra_simps)
  moreover have "unat (cw s - (cr s + 1)) = length cs" using en by (metis entered_def length_ring select_convs(2,3) surjective update_convs(2))
  ultimately show "cons_ok (s\<lparr>cr := cr s + 1\<rparr>)"
    using assms l ed by (simp add: cons_ok_def)
qed

lemma consoleread_line_from:
  assumes "cons_ok s" "entered s = l @ [10] @ rest" "10 \<notin> set l" "4 \<notin> set l" "length l < n" "n \<le> target"
  shows "\<exists>s'. consoleread (\<lambda>i. True) killed target n s = (ReadRet (int (target - n) + int (length l) + 1), l @ [10], s') \<and>
     cons_ok s' \<and> entered s' = rest \<and> editing s' = editing s"
  using assms
proof (induction l arbitrary: s n)
  case Nil
  note o = read_one[OF Nil(1), of 10 rest]
  show ?case using Nil o by (cases n) (auto simp: Let_def)
next
  case (Cons c l)
  then obtain m where n: "n = Suc m" by (cases n) auto
  note o = read_one[OF Cons.prems(1), of c "l @ [10] @ rest"]
  have "\<exists>s'. consoleread (\<lambda>i. True) killed target m (s\<lparr>cr := cr s + 1\<rparr>) = (ReadRet (int (target - m) + int (length l) + 1), l @ [10], s') \<and>
     cons_ok s' \<and> entered s' = rest \<and> editing s' = editing (s\<lparr>cr := cr s + 1\<rparr>)"
    using Cons.prems n o by (intro Cons.IH) auto
  then obtain s' where r: "consoleread (\<lambda>i. True) killed target m (s\<lparr>cr := cr s + 1\<rparr>) = (ReadRet (int (target - m) + int (length l) + 1), l @ [10], s')"
     "cons_ok s'" "entered s' = rest" "editing s' = editing (s\<lparr>cr := cr s + 1\<rparr>)" by blast
  have "int (target - m) + int (length l) + 1 = int (target - n) + int (length (c # l)) + 1" using Cons.prems n by (simp add: of_nat_diff)
  then show ?case using Cons.prems n o r by (simp add: Let_def)
qed

lemma consoleread_eof_from:
  assumes "cons_ok s" "entered s = l @ [4] @ rest" "10 \<notin> set l" "4 \<notin> set l" "length l < n" "n \<le> target"
  shows "\<exists>s'. consoleread (\<lambda>i. True) killed target n s = (ReadRet (int (target - n) + int (length l)), l, s') \<and>
     cons_ok s' \<and> entered s' = (if l = [] \<and> n = target then rest else 4 # rest) \<and> editing s' = editing s"
  using assms
proof (induction l arbitrary: s n)
  case Nil
  then obtain m where n: "n = Suc m" by (cases n) auto
  note o = read_one[OF Nil(1), of 4 rest]
  have "s\<lparr>cr := cr s\<rparr> = s" by simp
  then show ?case using Nil o n by (auto simp: Let_def)
next
  case (Cons c l)
  then obtain m where n: "n = Suc m" by (cases n) auto
  note o = read_one[OF Cons.prems(1), of c "l @ [4] @ rest"]
  have "\<exists>s'. consoleread (\<lambda>i. True) killed target m (s\<lparr>cr := cr s + 1\<rparr>) = (ReadRet (int (target - m) + int (length l)), l, s') \<and>
     cons_ok s' \<and> entered s' = (if l = [] \<and> m = target then rest else 4 # rest) \<and> editing s' = editing (s\<lparr>cr := cr s + 1\<rparr>)"
    using Cons.prems n o by (intro Cons.IH) auto
  then obtain s' where r: "consoleread (\<lambda>i. True) killed target m (s\<lparr>cr := cr s + 1\<rparr>) = (ReadRet (int (target - m) + int (length l)), l, s')"
     "cons_ok s'" "entered s' = (if l = [] \<and> m = target then rest else 4 # rest)" "editing s' = editing (s\<lparr>cr := cr s + 1\<rparr>)" by blast
  have "int (target - m) + int (length l) = int (target - n) + int (length (c # l))" using Cons.prems n by (simp add: of_nat_diff)
  then show ?case using Cons.prems n o r by (simp add: Let_def)
qed

text \<open>
  C31: a read from the console returns one line at a time.  With a newline among the characters
  entered, a read with room for the line returns it with its newline and leaves what follows; a
  control-D ends a read without being delivered, and it is kept unless the read is empty, so that the
  next read returns 0, the end of the file.
\<close>

theorem consoleread_line:
  assumes "cons_ok s" "\<forall>i. co i" "10 \<notin> set l" "4 \<notin> set l" "length l < n" "entered s = l @ [c] @ rest" "c = 10 \<or> c = 4"
  shows "\<exists>s'. consoleread co killed n n s =
      (ReadRet (int (length l) + (if c = 10 then 1 else 0)), l @ (if c = 10 then [10] else []), s') \<and> cons_ok s' \<and>
      entered s' = (if c = 4 \<and> l \<noteq> [] then 4 # rest else rest) \<and> editing s' = editing s"
proof -
  have co: "co = (\<lambda>i. True)" using assms(2) by auto
  show ?thesis
  proof (cases "c = 10")
    case True
    then show ?thesis unfolding co using consoleread_line_from[of s l rest n n killed] assms by simp
  next
    case False
    then have "c = 4" using assms(7) by simp
    then show ?thesis unfolding co using consoleread_eof_from[of s l rest n n killed] assms by auto
  qed
qed

theorem consoleread_line_witness:
  "\<exists>s'. consoleread (\<lambda>i. True) False 5 5 \<lparr>cbuf = [97, 98, 10, 99] @ replicate 124 0, cr = 0, cw = 3, ce = 4, echo = []\<rparr> =
     (ReadRet 3, [97, 98, 10], s') \<and> entered s' = []"
proof -
  let ?s = "\<lparr>cbuf = [97, 98, 10, 99] @ replicate 124 0, cr = 0, cw = 3, ce = 4, echo = []\<rparr>"
  have ok: "cons_ok ?s" by (simp add: cons_ok_def editing_def ring_def ring_ok_def INPUT_BUF_SIZE_def)
  have en: "entered ?s = [97, 98] @ [10] @ []" by (simp add: entered_def ring_def INPUT_BUF_SIZE_def upt_conv_Cons unat_of_nat)
  show ?thesis using consoleread_line[OF ok _ _ _ _ en, of "\<lambda>i. True" 5 False] by auto
qed

end
