(* ===== verification/Sched.thy ===== *)
theory Sched
  imports Kernel
begin

text \<open>
  The scheduler, \<^verbatim>\<open>sched\<close>, \<^verbatim>\<open>yield\<close>, \<^verbatim>\<open>sleep\<close>, \<^verbatim>\<open>wakeup\<close> and \<^verbatim>\<open>kill\<close> of \<^verbatim>\<open>kernel/proc.c\<close> with any number of
  CPUs.  A step of a CPU is one acquisition of a lock, or the code from there to the next release or
  switch.  Lock \<open>i\<close> is \<^verbatim>\<open>proc[i].lock\<close>, and lock \<^verbatim>\<open>NPROC\<close> is the lock that protects a condition processes wait
  for, as in \<^verbatim>\<open>acquiresleep\<close> or in a pipe: a consumer waits with \<^verbatim>\<open>while(!cond) sleep(chan, lk)\<close> and then
  clears the condition, a producer sets it and calls \<^verbatim>\<open>wakeup(chan)\<close>.  \<^verbatim>\<open>swtch\<close> changes which of the two threads
  of a CPU runs: its scheduler, or the kernel thread of a process.
\<close>

section \<open>Model\<close>

text \<open>Where the scheduler of a CPU is; \<open>S_out i\<close> means that process \<open>i\<close> runs instead.\<close>

datatype spc = S_loop | S_idle nat | S_got nat | S_out nat | S_back nat

text \<open>Where the thread of a process is, or where it goes on when it is switched to.\<close>

datatype tpc =
    T_run                \<comment> \<open>outside the functions of this theory\<close>
  | T_start              \<comment> \<open>in \<^verbatim>\<open>forkret\<close>\<close>
  | T_yield | T_ry       \<comment> \<open>in \<^verbatim>\<open>yield\<close>, before and after \<^verbatim>\<open>sched\<close>\<close>
  | T_crit               \<comment> \<open>at the test of the condition\<close>
  | T_sl1 | T_sl2 | T_rs | T_rel    \<comment> \<open>in \<^verbatim>\<open>sleep\<close>\<close>
  | T_prod | T_wake nat | T_waked nat   \<comment> \<open>setting the condition, and in \<^verbatim>\<open>wakeup\<close>\<close>
  | T_kill nat           \<comment> \<open>in \<^verbatim>\<open>kill\<close>, with the process found\<close>
  | T_exit | T_dead      \<comment> \<open>at the end of \<^verbatim>\<open>exit\<close>\<close>

record ssys =
  lks :: "nat \<Rightarrow> spinlock"
  cpuof :: "nat \<Rightarrow> cpu"
  cproc :: "nat \<Rightarrow> nat option"
  spc :: "nat \<Rightarrow> spc"
  tpc :: "nat \<Rightarrow> tpc"
  pst :: "nat \<Rightarrow> procstate"
  sleeping_on :: "nat \<Rightarrow> bool"      \<comment> \<open>\<^verbatim>\<open>p->chan\<close> is the channel of the condition\<close>
  saved :: "nat \<Rightarrow> bool"            \<comment> \<open>the local \<^verbatim>\<open>intena\<close> of \<^verbatim>\<open>sched\<close>\<close>
  cond :: bool

definition lock :: "nat \<Rightarrow> nat \<Rightarrow> ssys \<Rightarrow> ssys result" where
  "lock l c s = rbind (acquire c (lks s l) (cpuof s c)) (\<lambda>(lk, cp).
     Inr (s\<lparr>lks := (lks s)(l := lk), cpuof := (cpuof s)(c := cp)\<rparr>))"

definition unlock :: "nat \<Rightarrow> nat \<Rightarrow> ssys \<Rightarrow> ssys result" where
  "unlock l c s = rbind (release c (lks s l) (cpuof s c)) (\<lambda>(lk, cp).
     Inr (s\<lparr>lks := (lks s)(l := lk), cpuof := (cpuof s)(c := cp)\<rparr>))"

definition at :: "nat \<Rightarrow> tpc \<Rightarrow> ssys \<Rightarrow> ssys" where
  "at j pc s = s\<lparr>tpc := (tpc s)(j := pc)\<rparr>"

definition sat :: "nat \<Rightarrow> spc \<Rightarrow> ssys \<Rightarrow> ssys" where
  "sat c pc s = s\<lparr>spc := (spc s)(c := pc)\<rparr>"

definition set_state :: "nat \<Rightarrow> procstate \<Rightarrow> ssys \<Rightarrow> ssys" where
  "set_state j st s = s\<lparr>pst := (pst s)(j := st)\<rparr>"

definition set_chan :: "nat \<Rightarrow> bool \<Rightarrow> ssys \<Rightarrow> ssys" where
  "set_chan j b s = s\<lparr>sleeping_on := (sleeping_on s)(j := b)\<rparr>"

text \<open>\<^verbatim>\<open>sched\<close> of process \<open>j\<close> on CPU \<open>c\<close>, up to the switch; the thread goes on at \<open>pc\<close>.\<close>

definition sched :: "nat \<Rightarrow> nat \<Rightarrow> tpc \<Rightarrow> ssys \<Rightarrow> ssys result" where
  "sched c j pc s =
     (if \<not> holding c (lks s j) then Inl (Panic ''sched p->lock'')
      else if noff (cpuof s c) \<noteq> 1 then Inl (Panic ''sched locks'')
      else if pst s j = RUNNING then Inl (Panic ''sched running'')
      else if intr (cpuof s c) then Inl (Panic ''sched interruptible'')
      else Inr (sat c (S_back j) (at j pc (s\<lparr>saved := (saved s)(j := intena (cpuof s c))\<rparr>))))"

text \<open>What follows the switch in \<^verbatim>\<open>sched\<close>.\<close>

definition sched_return :: "nat \<Rightarrow> nat \<Rightarrow> ssys \<Rightarrow> ssys" where
  "sched_return c j s = s\<lparr>cpuof := (cpuof s)(c := (cpuof s c)\<lparr>intena := saved s j\<rparr>)\<rparr>"

text \<open>What a process that runs outside these functions does next.\<close>

datatype choice = Yield | Consume | Produce | Kill nat | Exit | Set_intr bool

definition thread_step :: "nat \<Rightarrow> nat \<Rightarrow> choice \<Rightarrow> ssys \<Rightarrow> ssys result" where
  "thread_step c j ch s =
     (case tpc s j of
        T_run \<Rightarrow> (case ch of
            Yield \<Rightarrow> rbind (lock j c s) (\<lambda>s. Inr (at j T_yield s))
          | Consume \<Rightarrow> rbind (lock NPROC c s) (\<lambda>s. Inr (at j T_crit s))
          | Produce \<Rightarrow> rbind (lock NPROC c s) (\<lambda>s. Inr (at j T_prod s))
          | Kill i \<Rightarrow> if i < NPROC then rbind (lock i c s) (\<lambda>s. Inr (at j (T_kill i) s)) else Inr s
          | Exit \<Rightarrow> rbind (lock j c s) (\<lambda>s. Inr (at j T_exit s))
          | Set_intr b \<Rightarrow> Inr (s\<lparr>cpuof := (cpuof s)(c := (cpuof s c)\<lparr>intr := b\<rparr>)\<rparr>))
      | T_start \<Rightarrow> rbind (unlock j c s) (\<lambda>s. Inr (at j T_run s))
      | T_yield \<Rightarrow> sched c j T_ry (set_state j RUNNABLE s)
      | T_ry \<Rightarrow> rbind (unlock j c (sched_return c j s)) (\<lambda>s. Inr (at j T_run s))
      | T_crit \<Rightarrow> if cond s then rbind (unlock NPROC c (s\<lparr>cond := False\<rparr>)) (\<lambda>s. Inr (at j T_run s))
                  else rbind (lock j c s) (\<lambda>s. Inr (at j T_sl1 s))
      | T_sl1 \<Rightarrow> rbind (unlock NPROC c s) (\<lambda>s. Inr (at j T_sl2 s))
      | T_sl2 \<Rightarrow> sched c j T_rs (set_state j SLEEPING (set_chan j True s))
      | T_rs \<Rightarrow> rbind (unlock j c (set_chan j False (sched_return c j s))) (\<lambda>s. Inr (at j T_rel s))
      | T_rel \<Rightarrow> rbind (lock NPROC c s) (\<lambda>s. Inr (at j T_crit s))
      | T_prod \<Rightarrow> Inr (at j (T_wake 0) (s\<lparr>cond := True\<rparr>))
      | T_wake i \<Rightarrow> if i < NPROC
                     then if i = j then Inr (at j (T_wake (i + 1)) s)
                          else if holding c (lks s i) \<and> pst s i = USED then Inr (at j (T_wake (i + 1)) s)
                          else rbind (lock i c s) (\<lambda>s. Inr (at j (T_waked i) s))
                     else rbind (unlock NPROC c s) (\<lambda>s. Inr (at j T_run s))
      | T_waked i \<Rightarrow> rbind (unlock i c (if pst s i = SLEEPING \<and> sleeping_on s i then set_state i RUNNABLE s else s))
                       (\<lambda>s. Inr (at j (T_wake (i + 1)) s))
      | T_kill i \<Rightarrow> rbind (unlock i c (if pst s i = SLEEPING then set_state i RUNNABLE s else s)) (\<lambda>s. Inr (at j T_run s))
      | T_exit \<Rightarrow> sched c j T_dead (set_state j ZOMBIE s)
      | T_dead \<Rightarrow> Inl (Panic ''zombie exit''))"

text \<open>One step of CPU \<open>c\<close>: the scheduler's own code, or the process it runs.\<close>

definition cpu_step :: "nat \<Rightarrow> choice \<Rightarrow> ssys \<Rightarrow> ssys result" where
  "cpu_step c ch s =
     (case spc s c of
        S_loop \<Rightarrow> Inr (sat c (S_idle 0) (s\<lparr>cpuof := (cpuof s)(c := (cpuof s c)\<lparr>intr := True\<rparr>)\<rparr>))
      | S_idle i \<Rightarrow> if i < NPROC then rbind (lock i c s) (\<lambda>s. Inr (sat c (S_got i) s)) else Inr (sat c S_loop s)
      | S_got i \<Rightarrow> if pst s i = RUNNABLE
                   then Inr (sat c (S_out i) ((set_state i RUNNING s)\<lparr>cproc := (cproc s)(c := Some i)\<rparr>))
                   else rbind (unlock i c s) (\<lambda>s. Inr (sat c (S_idle (i + 1)) s))
      | S_back i \<Rightarrow> rbind (unlock i c (s\<lparr>cproc := (cproc s)(c := None)\<rparr>)) (\<lambda>s. Inr (sat c (S_idle (i + 1)) s))
      | S_out j \<Rightarrow> thread_step c j ch s)"

text \<open>
  Executions: any CPU may take the next step.  An acquisition of a lock that is taken (\<open>OutOfFuel\<close>) is no
  step; the CPU tries again later.
\<close>

inductive sched_reach :: "ssys \<Rightarrow> bool" where
  boot: "(\<forall>l. lks s l = initlock) \<Longrightarrow> (\<forall>c. spc s c = S_loop \<and> cproc s c = None \<and> noff (cpuof s c) = 0) \<Longrightarrow>
     (\<forall>j. tpc s j = T_start \<and> pst s j \<in> {UNUSED, RUNNABLE}) \<Longrightarrow> sched_reach s"
| step: "sched_reach s \<Longrightarrow> cpu_step c ch s = Inr s' \<Longrightarrow> sched_reach s'"

section \<open>Who holds which lock\<close>

fun thread_holds :: "tpc \<Rightarrow> nat \<Rightarrow> nat set" where
  "thread_holds T_run j = {}"
| "thread_holds T_start j = {j}"
| "thread_holds T_yield j = {j}"
| "thread_holds T_ry j = {j}"
| "thread_holds T_crit j = {NPROC}"
| "thread_holds T_sl1 j = {NPROC, j}"
| "thread_holds T_sl2 j = {j}"
| "thread_holds T_rs j = {j}"
| "thread_holds T_rel j = {}"
| "thread_holds T_prod j = {NPROC}"
| "thread_holds (T_wake i) j = {NPROC}"
| "thread_holds (T_waked i) j = {NPROC, i}"
| "thread_holds (T_kill i) j = {i}"
| "thread_holds T_exit j = {j}"
| "thread_holds T_dead j = {j}"

definition held_by :: "ssys \<Rightarrow> nat \<Rightarrow> nat set" where
  "held_by s c = (case spc s c of S_got i \<Rightarrow> {i} | S_back i \<Rightarrow> {i} | S_out j \<Rightarrow> thread_holds (tpc s j) j | _ \<Rightarrow> {})"

definition taken :: "nat \<Rightarrow> spinlock" where
  "taken c = \<lparr>lk_locked = True, lk_cpu = Some c\<rparr>"

text \<open>The lock words agree with the places of the threads, and so do the nesting depths of the CPUs.\<close>

definition locks_agree :: "ssys \<Rightarrow> bool" where
  "locks_agree s \<longleftrightarrow> (\<forall>c. \<forall>l\<in>held_by s c. lks s l = taken c) \<and> (\<forall>l. (\<forall>c. l \<notin> held_by s c) \<longrightarrow> lks s l = initlock) \<and>
     (\<forall>c. noff (cpuof s c) = int (card (held_by s c)) \<and> (held_by s c \<noteq> {} \<longrightarrow> \<not> intr (cpuof s c)))"

definition runs :: "ssys \<Rightarrow> nat \<Rightarrow> nat \<Rightarrow> bool" where
  "runs s c j \<longleftrightarrow> spc s c = S_out j"

text \<open>The places of threads are possible ones, and the states of processes agree with them.\<close>

definition states_agree :: "ssys \<Rightarrow> bool" where
  "states_agree s \<longleftrightarrow>
     (\<forall>c i. spc s c \<in> {S_got i, S_out i, S_back i} \<longrightarrow> i < NPROC) \<and>
     (\<forall>c j. runs s c j \<longrightarrow> pst s j = RUNNING \<and> tpc s j \<noteq> T_dead \<and> (\<forall>i. tpc s j \<in> {T_waked i, T_kill i} \<longrightarrow> i < NPROC) \<and> tpc s j \<noteq> T_waked j) \<and>
     (\<forall>c c' j. runs s c j \<longrightarrow> runs s c' j \<longrightarrow> c = c') \<and>
     (\<forall>j. (\<forall>c. \<not> runs s c j) \<longrightarrow> pst s j \<noteq> RUNNING \<and> tpc s j \<in> {T_start, T_ry, T_rs, T_dead} \<and>
        (pst s j = RUNNABLE \<longrightarrow> tpc s j \<noteq> T_dead) \<and> (pst s j = SLEEPING \<longrightarrow> tpc s j = T_rs \<and> sleeping_on s j)) \<and>
     (\<forall>c j. cproc s c = Some j \<longleftrightarrow> spc s c = S_out j \<or> spc s c = S_back j)"

text \<open>A process that sleeps although the condition holds is still ahead of somebody's \<^verbatim>\<open>wakeup\<close>.\<close>

definition will_wake :: "ssys \<Rightarrow> nat \<Rightarrow> bool" where
  "will_wake s j \<longleftrightarrow> (\<exists>c w i. runs s c w \<and> (tpc s w = T_wake i \<or> tpc s w = T_waked i) \<and> i \<le> j)"

definition no_lost :: "ssys \<Rightarrow> bool" where
  "no_lost s \<longleftrightarrow>
     (cond s \<longrightarrow> (\<forall>j<NPROC. pst s j = SLEEPING \<or> (\<exists>c. runs s c j \<and> tpc s j = T_sl2) \<longrightarrow> will_wake s j)) \<and>
     (\<forall>c j. runs s c j \<longrightarrow> tpc s j = T_sl1 \<longrightarrow> \<not> cond s)"

section \<open>Locks\<close>

lemma taken_simps [simp]: "taken c = taken c' \<longleftrightarrow> c = c'" "taken c \<noteq> initlock" "initlock \<noteq> taken c"
  by (simp_all add: taken_def initlock_def)

lemma finite_held [simp]: "finite (held_by s c)"
  unfolding held_by_def by (cases "spc s c"; cases "tpc s (case spc s c of S_out j \<Rightarrow> j | _ \<Rightarrow> 0)") auto

lemma held_unique: "locks_agree s \<Longrightarrow> l \<in> held_by s c \<Longrightarrow> l \<in> held_by s c' \<Longrightarrow> c = c'"
  unfolding locks_agree_def by (metis taken_simps(1))

lemma lock_free:
  assumes "locks_agree s" "l \<notin> held_by s c"
  shows "lock l c s = (if \<exists>c'. l \<in> held_by s c' then Inl OutOfFuel
      else Inr (s\<lparr>lks := (lks s)(l := taken c), cpuof := (cpuof s)(c := push_off (cpuof s c))\<rparr>))"
proof (cases "\<exists>c'. l \<in> held_by s c'")
  case True
  then obtain c' where c': "l \<in> held_by s c'" by blast
  then have "lks s l = taken c'" "c' \<noteq> c" using assms by (auto simp: locks_agree_def)
  then show ?thesis using True
    by (auto simp: lock_def acquire_def acquire_enter_def holding_def acquire_swap_def taken_def rbind_def Let_def)
next
  case False
  then have "lks s l = initlock" using assms(1) by (simp add: locks_agree_def)
  then show ?thesis using False
    by (auto simp: lock_def acquire_def acquire_enter_def holding_def acquire_swap_def acquire_record_def initlock_def taken_def rbind_def Let_def)
qed

lemma unlock_held:
  assumes "lks s l = taken c" "noff (cpuof s c) \<ge> 1" "\<not> intr (cpuof s c)"
  shows "\<exists>cp. unlock l c s = Inr (s\<lparr>lks := (lks s)(l := initlock), cpuof := (cpuof s)(c := cp)\<rparr>) \<and>
     noff cp = noff (cpuof s c) - 1 \<and> (noff cp > 0 \<longrightarrow> \<not> intr cp)"
  using assms
  by (auto simp: unlock_def release_def release_enter_def release_store_def holding_def taken_def initlock_def pop_off_def rbind_def Let_def)

lemma agree_insert:
  assumes "locks_agree s" "\<forall>c'. l \<notin> held_by s c'"
    "lks s' = (lks s)(l := taken c)" "cpuof s' = (cpuof s)(c := push_off (cpuof s c))"
    "held_by s' c = insert l (held_by s c)" "\<forall>c'. c' \<noteq> c \<longrightarrow> held_by s' c' = held_by s c'"
  shows "locks_agree s'"
proof -
  have A: "\<forall>l'\<in>held_by s' c'. lks s' l' = taken c'" for c'
    using assms by (cases "c' = c") (auto simp: locks_agree_def)
  have B: "lks s' l' = initlock" if "\<forall>c'. l' \<notin> held_by s' c'" for l'
  proof -
    have "l' \<noteq> l" using that assms(5) by blast
    moreover have "l' \<notin> held_by s c'" for c' using that assms(5,6) by (cases "c' = c") auto
    ultimately show ?thesis using assms(1,3) by (simp add: locks_agree_def)
  qed
  have C: "noff (cpuof s' c') = int (card (held_by s' c')) \<and> (held_by s' c' \<noteq> {} \<longrightarrow> \<not> intr (cpuof s' c'))" for c'
  proof (cases "c' = c")
    case True
    then show ?thesis using assms by (auto simp: locks_agree_def push_off_def Let_def)
  qed (use assms in \<open>simp add: locks_agree_def\<close>)
  show ?thesis using A B C by (simp add: locks_agree_def)
qed

lemma agree_remove:
  assumes "locks_agree s" "l \<in> held_by s c"
    "lks s' = (lks s)(l := initlock)" "cpuof s' = (cpuof s)(c := cp)" "noff cp = noff (cpuof s c) - 1" "noff cp > 0 \<longrightarrow> \<not> intr cp"
    "held_by s' c = held_by s c - {l}" "\<forall>c'. c' \<noteq> c \<longrightarrow> held_by s' c' = held_by s c'"
  shows "locks_agree s'"
proof -
  have u: "l \<notin> held_by s c'" if "c' \<noteq> c" for c' using held_unique[OF assms(1,2), of c'] that by auto
  have A: "\<forall>l'\<in>held_by s' c'. lks s' l' = taken c'" for c'
    using assms u by (cases "c' = c") (auto simp: locks_agree_def)
  have B: "lks s' l' = initlock" if "\<forall>c'. l' \<notin> held_by s' c'" for l'
  proof (cases "l' = l")
    case False
    have "l' \<notin> held_by s c'" for c' using that[rule_format, of c'] assms(7,8) False by (cases "c' = c") auto
    then show ?thesis using assms(1,3) by (simp add: locks_agree_def)
  qed (use assms(3) in simp)
  have C: "noff (cpuof s' c') = int (card (held_by s' c')) \<and> (held_by s' c' \<noteq> {} \<longrightarrow> \<not> intr (cpuof s' c'))" for c'
  proof (cases "c' = c")
    case True
    have "card (held_by s c) = Suc (card (held_by s c - {l}))" using card_Suc_Diff1[OF finite_held assms(2)] by simp
    then have "noff cp = int (card (held_by s c - {l}))" using assms(1,5) by (simp add: locks_agree_def)
    then show ?thesis using True assms(4,6,7) by (auto simp: card_gt_0_iff)
  qed (use assms in \<open>simp add: locks_agree_def\<close>)
  show ?thesis using A B C by (simp add: locks_agree_def)
qed

lemma agree_same:
  assumes "locks_agree s" "lks s' = lks s" "\<And>c. held_by s' c = held_by s c"
    "\<And>c. noff (cpuof s' c) = noff (cpuof s c)" "\<And>c. held_by s c \<noteq> {} \<Longrightarrow> intr (cpuof s' c) = intr (cpuof s c)"
  shows "locks_agree s'"
  using assms by (simp add: locks_agree_def)

lemma agree_held:
  assumes "locks_agree s" "l \<in> held_by s c"
  shows "lks s l = taken c \<and> noff (cpuof s c) \<ge> 1 \<and> \<not> intr (cpuof s c)"
proof -
  have ne: "held_by s c \<noteq> {}" using assms(2) by blast
  then have "0 < card (held_by s c)" by (simp add: card_gt_0_iff)
  then show ?thesis using assms ne by (auto simp: locks_agree_def)
qed

section \<open>States\<close>

definition off_ok :: "ssys \<Rightarrow> nat \<Rightarrow> bool" where
  "off_ok s j \<longleftrightarrow> pst s j \<noteq> RUNNING \<and> tpc s j \<in> {T_start, T_ry, T_rs, T_dead} \<and>
     (pst s j = RUNNABLE \<longrightarrow> tpc s j \<noteq> T_dead) \<and> (pst s j = SLEEPING \<longrightarrow> tpc s j = T_rs \<and> sleeping_on s j)"

definition sane :: "nat \<Rightarrow> tpc \<Rightarrow> bool" where
  "sane j pc \<longleftrightarrow> pc \<noteq> T_dead \<and> (\<forall>i. pc \<in> {T_waked i, T_kill i} \<longrightarrow> i < NPROC) \<and> pc \<noteq> T_waked j"

lemma states_agree_iff: "states_agree s \<longleftrightarrow>
     (\<forall>c i. spc s c \<in> {S_got i, S_out i, S_back i} \<longrightarrow> i < NPROC) \<and> (\<forall>c j. runs s c j \<longrightarrow> pst s j = RUNNING \<and> sane j (tpc s j)) \<and>
     (\<forall>c c' j. runs s c j \<longrightarrow> runs s c' j \<longrightarrow> c = c') \<and> (\<forall>j. (\<forall>c. \<not> runs s c j) \<longrightarrow> off_ok s j) \<and>
     (\<forall>c j. cproc s c = Some j \<longleftrightarrow> spc s c = S_out j \<or> spc s c = S_back j)"
  by (simp only: states_agree_def off_ok_def sane_def)

lemma st_lt: "states_agree s \<Longrightarrow> spc s c \<in> {S_got i, S_out i, S_back i} \<Longrightarrow> i < NPROC"
  unfolding states_agree_iff by blast

lemma st_run: "states_agree s \<Longrightarrow> runs s c j \<Longrightarrow> pst s j = RUNNING \<and> sane j (tpc s j)"
  unfolding states_agree_iff by blast

lemma st_unique: "states_agree s \<Longrightarrow> runs s c j \<Longrightarrow> runs s c' j \<Longrightarrow> c = c'"
  unfolding states_agree_iff by blast

lemma st_off: "states_agree s \<Longrightarrow> (\<And>c. \<not> runs s c j) \<Longrightarrow> off_ok s j"
  unfolding states_agree_iff by blast

lemma st_cproc: "states_agree s \<Longrightarrow> cproc s c = Some j \<longleftrightarrow> spc s c = S_out j \<or> spc s c = S_back j"
  unfolding states_agree_iff by blast

lemma states_agreeI:
  assumes "\<And>c i. spc s c \<in> {S_got i, S_out i, S_back i} \<Longrightarrow> i < NPROC" "\<And>c j. runs s c j \<Longrightarrow> pst s j = RUNNING \<and> sane j (tpc s j)"
    "\<And>c c' j. runs s c j \<Longrightarrow> runs s c' j \<Longrightarrow> c = c'" "\<And>j. (\<And>c. \<not> runs s c j) \<Longrightarrow> off_ok s j"
    "\<And>c j. cproc s c = Some j \<longleftrightarrow> spc s c = S_out j \<or> spc s c = S_back j"
  shows "states_agree s"
  unfolding states_agree_iff using assms by blast

lemma held_other:
  assumes "states_agree s" "runs s c j" "c' \<noteq> c" "spc s' c' = spc s c'" "\<And>i. i \<noteq> j \<Longrightarrow> tpc s' i = tpc s i"
  shows "held_by s' c' = held_by s c'"
proof -
  have "\<not> runs s c' j" using st_unique[OF assms(1,2)] assms(3) by blast
  then show ?thesis using assms(4,5) by (auto simp: held_by_def runs_def split: spc.split)
qed

lemma held_run: "runs s c j \<Longrightarrow> held_by s c = thread_holds (tpc s j) j"
  by (simp add: held_by_def runs_def)

lemma states_run:
  assumes "states_agree s" "runs s c j" "spc s' = spc s" "cproc s' = cproc s" "tpc s' = (tpc s)(j := pc)" "sane j pc"
    "\<And>i. pst s' i = pst s i \<or> (pst s i = SLEEPING \<and> pst s' i = RUNNABLE)" "\<And>i. i \<noteq> j \<Longrightarrow> sleeping_on s' i = sleeping_on s i"
  shows "states_agree s'"
proof (rule states_agreeI)
  have r: "runs s' c' i = runs s c' i" for c' i using assms(3) by (simp add: runs_def)
  show "i < NPROC" if "spc s' c' \<in> {S_got i, S_out i, S_back i}" for c' i using st_lt[OF assms(1)] that assms(3) by simp
  show "pst s' i = RUNNING \<and> sane i (tpc s' i)" if "runs s' c' i" for c' i
    using st_run[OF assms(1), of c' i] that r assms(5,6) assms(7)[of i] by auto
  show "c1 = c2" if "runs s' c1 i" "runs s' c2 i" for c1 c2 i using st_unique[OF assms(1)] that r by blast
  show "off_ok s' i" if "\<And>c. \<not> runs s' c i" for i
  proof -
    have ij: "i \<noteq> j" using that assms(2) r by blast
    have "off_ok s i" using st_off[OF assms(1), of i] that r by blast
    then show ?thesis using ij assms(5,8) assms(7)[of i] by (auto simp: off_ok_def)
  qed
  show "cproc s' c' = Some i \<longleftrightarrow> spc s' c' = S_out i \<or> spc s' c' = S_back i" for c' i
    using st_cproc[OF assms(1)] assms(3,4) by simp
qed

lemma not_sleeping_run: "states_agree s \<Longrightarrow> runs s c j \<Longrightarrow> pst s j = RUNNING"
  using st_run by blast

lemma sleeping_on_chan:
  assumes "states_agree s" "pst s j = SLEEPING"
  shows "sleeping_on s j"
proof -
  have "\<not> runs s c j" for c using st_run[OF assms(1), of c j] assms(2) by auto
  then show ?thesis using st_off[OF assms(1)] assms(2) by (auto simp: off_ok_def)
qed

section \<open>No wakeup is lost\<close>

lemma no_lost_off:
  assumes "\<not> cond s" shows "no_lost s"
  using assms by (simp add: no_lost_def)

lemma no_lost_keep:
  assumes "no_lost s" "cond s' \<Longrightarrow> cond s" "runs s' = runs s" "tpc s' = (tpc s)(j := pc)" "pc \<noteq> T_sl1" "pc \<noteq> T_sl2"
    "\<And>i. pst s' i = SLEEPING \<Longrightarrow> pst s i = SLEEPING" "\<And>i. tpc s j \<noteq> T_wake i" "\<And>i. tpc s j \<noteq> T_waked i"
  shows "no_lost s'"
proof -
  have w: "will_wake s' i" if "will_wake s i" for i
    using that assms(3,4,8,9) unfolding will_wake_def by (metis fun_upd_apply)
  have "will_wake s' i" if "cond s'" "i < NPROC" "pst s' i = SLEEPING \<or> (\<exists>c. runs s' c i \<and> tpc s' i = T_sl2)" for i
  proof -
    have "pst s i = SLEEPING \<or> (\<exists>c. runs s c i \<and> tpc s i = T_sl2)" using that(3) assms(3-7) by (auto split: if_splits)
    then show ?thesis using w assms(1,2) that by (auto simp: no_lost_def)
  qed
  moreover have "\<not> cond s'" if "runs s' c i" "tpc s' i = T_sl1" for c i
    using that assms(1-5) by (auto simp: no_lost_def split: if_splits)
  ultimately show ?thesis by (auto simp: no_lost_def)
qed

text \<open>The waker \<open>j\<close> moves on to \<open>pc\<close>, having dealt with every process before it.\<close>

lemma no_lost_wake:
  assumes "no_lost s" "cond s' = cond s" "runs s' = runs s" "tpc s' = (tpc s)(j := pc)" "pc \<noteq> T_sl1" "pc \<noteq> T_sl2"
    "\<And>i. pst s' i = SLEEPING \<Longrightarrow> pst s i = SLEEPING" "runs s c j" "tpc s j = T_wake k \<or> tpc s j = T_waked k"
    "\<And>i. i < NPROC \<Longrightarrow> k \<le> i \<Longrightarrow> pst s' i = SLEEPING \<or> (\<exists>c. runs s' c i \<and> tpc s' i = T_sl2) \<Longrightarrow>
       \<exists>k'. (pc = T_wake k' \<or> pc = T_waked k') \<and> k' \<le> i"
  shows "no_lost s'"
proof -
  have "will_wake s' i" if a: "cond s'" "i < NPROC" "pst s' i = SLEEPING \<or> (\<exists>c. runs s' c i \<and> tpc s' i = T_sl2)" for i
  proof -
    have "pst s i = SLEEPING \<or> (\<exists>c. runs s c i \<and> tpc s i = T_sl2)" using that(3) assms(3-7) by (auto split: if_splits)
    then have "will_wake s i" using assms(1,2) a unfolding no_lost_def by blast
    then obtain c' w k' where w: "runs s c' w" "tpc s w = T_wake k' \<or> tpc s w = T_waked k'" "k' \<le> i"
      unfolding will_wake_def by blast
    show ?thesis
    proof (cases "w = j")
      case True
      then have "k \<le> i" using w assms(9) by auto
      then show ?thesis using assms(10)[OF a(2) _ a(3)] assms(3,4,8) by (auto simp: will_wake_def)
    next
      case False
      then show ?thesis using w assms(3,4) unfolding will_wake_def by (metis fun_upd_apply)
    qed
  qed
  moreover have "\<not> cond s'" if "runs s' c i" "tpc s' i = T_sl1" for c i
    using that assms(1-5) by (auto simp: no_lost_def split: if_splits)
  ultimately show ?thesis by (auto simp: no_lost_def)
qed

section \<open>Every step keeps the agreement\<close>

definition sinv :: "ssys \<Rightarrow> bool" where
  "sinv s \<longleftrightarrow> locks_agree s \<and> states_agree s \<and> no_lost s"

lemma run_lock:
  assumes "locks_agree s" "states_agree s" "runs s c j" "l \<notin> held_by s c" "sane j pc"
    "thread_holds pc j = insert l (thread_holds (tpc s j) j)"
  shows "rbind (lock l c s) (\<lambda>s. Inr (at j pc s)) = Inl OutOfFuel \<or>
    (\<exists>s'. rbind (lock l c s) (\<lambda>s. Inr (at j pc s)) = Inr s' \<and> locks_agree s' \<and> states_agree s' \<and>
       cond s' = cond s \<and> runs s' = runs s \<and> tpc s' = (tpc s)(j := pc) \<and> pst s' = pst s \<and> (\<forall>c'. l \<notin> held_by s c'))"
proof (cases "\<exists>c'. l \<in> held_by s c'")
  case True
  then show ?thesis using lock_free[OF assms(1,4)] by (simp add: rbind_def)
next
  case False
  define s' where "s' = at j pc (s\<lparr>lks := (lks s)(l := taken c), cpuof := (cpuof s)(c := push_off (cpuof s c))\<rparr>)"
  have eq: "rbind (lock l c s) (\<lambda>s. Inr (at j pc s)) = Inr s'" using lock_free[OF assms(1,4)] False by (simp add: rbind_def s'_def)
  have f: "tpc s' = (tpc s)(j := pc)" "spc s' = spc s" "cproc s' = cproc s" "pst s' = pst s" "cond s' = cond s" "sleeping_on s' = sleeping_on s"
      "lks s' = (lks s)(l := taken c)" "cpuof s' = (cpuof s)(c := push_off (cpuof s c))" by (simp_all add: s'_def at_def)
  have r: "runs s' = runs s" by (simp add: runs_def f fun_eq_iff)
  have rc: "runs s' c j" using assms(3) r by simp
  have "held_by s' c = insert l (held_by s c)" unfolding held_run[OF rc] held_run[OF assms(3)] using f(1) assms(6) by simp
  moreover have "\<forall>c'. c' \<noteq> c \<longrightarrow> held_by s' c' = held_by s c'" using held_other[OF assms(2,3), of _ s'] f(1,2) by simp
  ultimately have "locks_agree s'" using False by (intro agree_insert[OF assms(1) _ f(7,8)]) blast+
  moreover have "states_agree s'" by (rule states_run[OF assms(2,3) f(2,3,1) assms(5)]) (simp_all add: f)
  ultimately show ?thesis using eq f r False by (intro disjI2 exI[of _ s']) simp
qed

lemma run_unlock:
  assumes "locks_agree s" "states_agree s" "runs s c j" "l \<in> held_by s c" "sane j pc"
    "thread_holds pc j = thread_holds (tpc s j) j - {l}"
    "lks s0 = lks s" "spc s0 = spc s" "cproc s0 = cproc s" "tpc s0 = tpc s" "\<And>i. i \<noteq> j \<Longrightarrow> sleeping_on s0 i = sleeping_on s i"
    "\<And>c. noff (cpuof s0 c) = noff (cpuof s c)" "\<And>c. intr (cpuof s0 c) = intr (cpuof s c)"
    "\<And>i. pst s0 i = pst s i \<or> (pst s i = SLEEPING \<and> pst s0 i = RUNNABLE)"
  shows "\<exists>s'. rbind (unlock l c s0) (\<lambda>s. Inr (at j pc s)) = Inr s' \<and> locks_agree s' \<and> states_agree s' \<and>
       cond s' = cond s0 \<and> runs s' = runs s \<and> tpc s' = (tpc s)(j := pc) \<and> pst s' = pst s0"
proof -
  have hs: "held_by s0 c' = held_by s c'" for c' unfolding held_by_def assms(8,10) ..
  have la: "locks_agree s0" using agree_same[OF assms(1,7) hs assms(12)] assms(13) by blast
  have l0: "l \<in> held_by s0 c" using hs assms(4) by simp
  obtain cp where u: "unlock l c s0 = Inr (s0\<lparr>lks := (lks s0)(l := initlock), cpuof := (cpuof s0)(c := cp)\<rparr>)"
      "noff cp = noff (cpuof s0 c) - 1" "noff cp > 0 \<longrightarrow> \<not> intr cp"
    using unlock_held[of s0 l c] agree_held[OF la l0] by blast
  define s' where "s' = at j pc (s0\<lparr>lks := (lks s0)(l := initlock), cpuof := (cpuof s0)(c := cp)\<rparr>)"
  have eq: "rbind (unlock l c s0) (\<lambda>s. Inr (at j pc s)) = Inr s'" using u by (simp add: rbind_def s'_def)
  have f: "tpc s' = (tpc s)(j := pc)" "spc s' = spc s" "cproc s' = cproc s" "pst s' = pst s0" "cond s' = cond s0" "sleeping_on s' = sleeping_on s0"
      "lks s' = (lks s0)(l := initlock)" "cpuof s' = (cpuof s0)(c := cp)" using assms(8-10) by (simp_all add: s'_def at_def)
  have r: "runs s' = runs s" by (simp add: runs_def f fun_eq_iff)
  have rc: "runs s' c j" using assms(3) r by simp
  have "held_by s' c = held_by s0 c - {l}" unfolding hs held_run[OF rc] held_run[OF assms(3)] using f(1) assms(6) by simp
  moreover have "\<forall>c'. c' \<noteq> c \<longrightarrow> held_by s' c' = held_by s0 c'" unfolding hs using held_other[OF assms(2,3), of _ s'] f(1,2) by simp
  ultimately have "locks_agree s'" by (intro agree_remove[OF la l0 f(7,8) u(2,3)])
  moreover have "states_agree s'" by (rule states_run[OF assms(2,3) f(2,3,1) assms(5)]) (use assms(11,14) in \<open>simp_all add: f\<close>)
  ultimately show ?thesis using eq f r by (intro exI[of _ s']) simp
qed

text \<open>The process \<open>j\<close> gives up the CPU with the new state \<open>st\<close>.\<close>

lemma run_sched:
  assumes "locks_agree s" "states_agree s" "runs s c j" "held_by s c = {j}" "st \<noteq> RUNNING" "pc \<in> {T_ry, T_rs, T_dead}"
    "st = RUNNABLE \<longrightarrow> pc \<noteq> T_dead" "st = SLEEPING \<longrightarrow> pc = T_rs \<and> b"
  shows "\<exists>s'. sched c j pc (set_state j st (set_chan j b s)) = Inr s' \<and> locks_agree s' \<and> states_agree s' \<and> cond s' = cond s \<and>
     (\<forall>c' i. runs s' c' i \<longleftrightarrow> runs s c' i \<and> c' \<noteq> c) \<and> tpc s' = (tpc s)(j := pc) \<and> pst s' = (pst s)(j := st)"
proof -
  let ?s0 = "set_state j st (set_chan j b s)"
  have h: "lks s j = taken c \<and> noff (cpuof s c) = 1 \<and> \<not> intr (cpuof s c)"
    using assms(1,4) agree_held[OF assms(1), of j c] unfolding locks_agree_def by auto
  define s' where "s' = sat c (S_back j) (at j pc (?s0\<lparr>saved := (saved s)(j := intena (cpuof s c))\<rparr>))"
  have eq: "sched c j pc ?s0 = Inr s'"
    using h assms(5) by (simp add: sched_def set_state_def set_chan_def s'_def holding_def taken_def)
  have f: "tpc s' = (tpc s)(j := pc)" "spc s' = (spc s)(c := S_back j)" "cproc s' = cproc s" "pst s' = (pst s)(j := st)" "cond s' = cond s"
      "sleeping_on s' = (sleeping_on s)(j := b)" "lks s' = lks s" "cpuof s' = cpuof s"
    by (simp_all add: s'_def at_def sat_def set_state_def set_chan_def)
  have r: "runs s' c' i \<longleftrightarrow> runs s c' i \<and> c' \<noteq> c" for c' i by (auto simp: runs_def f)
  have u: "c' = c" if "runs s c' j" for c' using st_unique[OF assms(2) that assms(3)] .
  have "held_by s' c' = held_by s c'" for c'
  proof (cases "c' = c")
    case True
    then show ?thesis using assms(4) f by (simp add: held_by_def)
  next
    case False
    then show ?thesis using held_other[OF assms(2,3) False, of s'] f(1,2) by simp
  qed
  then have "locks_agree s'" by (intro agree_same[OF assms(1) f(7)]) (simp_all add: f(8))
  moreover have "states_agree s'"
  proof (rule states_agreeI)
    have so: "spc s c = S_out j" using assms(3) by (simp add: runs_def)
    have jn: "j < NPROC" using st_lt[OF assms(2), of c j] so by simp
    show "pst s' i = RUNNING \<and> sane i (tpc s' i)" if "runs s' c' i" for c' i
    proof -
      have a: "runs s c' i" "c' \<noteq> c" using that r by simp_all
      then have "i \<noteq> j" using u by blast
      then show ?thesis using st_run[OF assms(2) a(1)] f by simp
    qed
    show "off_ok s' i" if "\<And>c. \<not> runs s' c i" for i
    proof (cases "i = j")
      case False
      then have "\<not> runs s c' i" for c' using that[of c'] r[of c' i] assms(3) by (auto simp: runs_def)
      then have "off_ok s i" by (rule st_off[OF assms(2)])
      then show ?thesis using False f by (simp add: off_ok_def)
    qed (use assms(5-8) f in \<open>auto simp: off_ok_def\<close>)
    show "cproc s' c' = Some i \<longleftrightarrow> spc s' c' = S_out i \<or> spc s' c' = S_back i" for c' i
      using st_cproc[OF assms(2), of c' i] f so by (cases "c' = c") auto
    show "i < NPROC" if "spc s' c' \<in> {S_got i, S_out i, S_back i}" for c' i
      using that st_lt[OF assms(2), of c' i] f jn by (cases "c' = c") auto
    show "c1 = c2" if "runs s' c1 i" "runs s' c2 i" for c1 c2 i
      using that r st_unique[OF assms(2), of c1 i c2] by simp
  qed
  ultimately show ?thesis using eq f r by (intro exI[of _ s']) simp
qed

definition good :: "ssys result \<Rightarrow> bool" where
  "good r \<longleftrightarrow> (\<forall>m. r \<noteq> Inl (Panic m)) \<and> (\<forall>s'. r = Inr s' \<longrightarrow> sinv s')"

lemma good_lock:
  assumes "sinv s" "runs s c j" "l \<notin> held_by s c" "sane j pc" "thread_holds pc j = insert l (thread_holds (tpc s j) j)"
    "\<And>s'. cond s' = cond s \<Longrightarrow> runs s' = runs s \<Longrightarrow> tpc s' = (tpc s)(j := pc) \<Longrightarrow> pst s' = pst s \<Longrightarrow> no_lost s'"
  shows "good (rbind (lock l c s) (\<lambda>s. Inr (at j pc s)))"
proof -
  have la: "locks_agree s" "states_agree s" using assms(1) by (simp_all add: sinv_def)
  from run_lock[OF la assms(2-5)] show ?thesis
  proof
    assume "rbind (lock l c s) (\<lambda>s. Inr (at j pc s)) = Inl OutOfFuel"
    then show ?thesis by (simp add: good_def)
  next
    assume "\<exists>s'. rbind (lock l c s) (\<lambda>s. Inr (at j pc s)) = Inr s' \<and> locks_agree s' \<and> states_agree s' \<and>
       cond s' = cond s \<and> runs s' = runs s \<and> tpc s' = (tpc s)(j := pc) \<and> pst s' = pst s \<and> (\<forall>c'. l \<notin> held_by s c')"
    then obtain s' where s': "rbind (lock l c s) (\<lambda>s. Inr (at j pc s)) = Inr s'" "locks_agree s'" "states_agree s'"
       "cond s' = cond s" "runs s' = runs s" "tpc s' = (tpc s)(j := pc)" "pst s' = pst s" by blast
    show ?thesis using s'(1-3) assms(6)[OF s'(4-7)] by (simp add: good_def sinv_def)
  qed
qed

lemma good_unlock:
  assumes "sinv s" "runs s c j" "l \<in> held_by s c" "sane j pc" "thread_holds pc j = thread_holds (tpc s j) j - {l}"
    "lks s0 = lks s" "spc s0 = spc s" "cproc s0 = cproc s" "tpc s0 = tpc s" "\<And>i. i \<noteq> j \<Longrightarrow> sleeping_on s0 i = sleeping_on s i"
    "\<And>c. noff (cpuof s0 c) = noff (cpuof s c)" "\<And>c. intr (cpuof s0 c) = intr (cpuof s c)"
    "\<And>i. pst s0 i = pst s i \<or> (pst s i = SLEEPING \<and> pst s0 i = RUNNABLE)"
    "\<And>s'. cond s' = cond s0 \<Longrightarrow> runs s' = runs s \<Longrightarrow> tpc s' = (tpc s)(j := pc) \<Longrightarrow> pst s' = pst s0 \<Longrightarrow> no_lost s'"
  shows "good (rbind (unlock l c s0) (\<lambda>s. Inr (at j pc s)))"
proof -
  have la: "locks_agree s" "states_agree s" using assms(1) by (simp_all add: sinv_def)
  obtain s' where s': "rbind (unlock l c s0) (\<lambda>s. Inr (at j pc s)) = Inr s'" "locks_agree s'" "states_agree s'"
       "cond s' = cond s0" "runs s' = runs s" "tpc s' = (tpc s)(j := pc)" "pst s' = pst s0"
    using run_unlock[OF la assms(2-13)] by blast
  show ?thesis using s'(1-3) assms(14)[OF s'(4-7)] by (simp add: good_def sinv_def)
qed

lemma good_pc:
  assumes "sinv s" "runs s c j" "sane j pc" "thread_holds pc j = thread_holds (tpc s j) j" "no_lost (at j pc (s\<lparr>cond := b\<rparr>))"
  shows "good (Inr (at j pc (s\<lparr>cond := b\<rparr>)))"
proof -
  have la: "locks_agree s" "states_agree s" using assms(1) by (simp_all add: sinv_def)
  let ?s = "at j pc (s\<lparr>cond := b\<rparr>)"
  have f: "tpc ?s = (tpc s)(j := pc)" "spc ?s = spc s" "cproc ?s = cproc s" "pst ?s = pst s" "sleeping_on ?s = sleeping_on s" "lks ?s = lks s" "cpuof ?s = cpuof s"
    by (simp_all add: at_def)
  have "held_by ?s c' = held_by s c'" for c'
  proof (cases "c' = c")
    case True
    have "runs ?s c j" using assms(2) by (simp add: runs_def f)
    then show ?thesis using True held_run[OF assms(2)] assms(4) f(1) by (simp add: held_run)
  qed (use held_other[OF la(2) assms(2), of c' ?s] f(1,2) in simp)
  then have "locks_agree ?s" by (intro agree_same[OF la(1) f(6)]) (simp_all add: f(7))
  moreover have "states_agree ?s" by (rule states_run[OF la(2) assms(2) f(2,3,1) assms(3)]) (simp_all add: f)
  ultimately show ?thesis using assms(5) by (simp add: good_def sinv_def)
qed

lemma good_sched:
  assumes "sinv s" "runs s c j" "held_by s c = {j}" "st \<noteq> RUNNING" "pc \<in> {T_ry, T_rs, T_dead}"
    "st = RUNNABLE \<longrightarrow> pc \<noteq> T_dead" "st = SLEEPING \<longrightarrow> pc = T_rs \<and> b \<and> tpc s j = T_sl2" "\<And>i. tpc s j \<noteq> T_wake i" "\<And>i. tpc s j \<noteq> T_waked i"
  shows "good (sched c j pc (set_state j st (set_chan j b s)))"
proof -
  have la: "locks_agree s" "states_agree s" "no_lost s" using assms(1) by (simp_all add: sinv_def)
  have sl: "st = SLEEPING \<longrightarrow> pc = T_rs \<and> b" using assms(7) by blast
  obtain s' where s': "sched c j pc (set_state j st (set_chan j b s)) = Inr s'" "locks_agree s'" "states_agree s'" "cond s' = cond s"
     and r: "\<And>c' i. runs s' c' i \<longleftrightarrow> runs s c' i \<and> c' \<noteq> c" and tp: "tpc s' = (tpc s)(j := pc)" and ps: "pst s' = (pst s)(j := st)"
    using run_sched[OF la(1,2) assms(2-6) sl] by blast
  have jn: "j < NPROC" using st_lt[OF la(2), of c j] assms(2) by (simp add: runs_def)
  have w: "will_wake s' i" if ww: "will_wake s i" for i
  proof -
    obtain c1 w k where a: "runs s c1 w" "tpc s w = T_wake k \<or> tpc s w = T_waked k" "k \<le> i" using ww unfolding will_wake_def by blast
    then have "w \<noteq> j" using assms(8,9) by blast
    moreover from this have "c1 \<noteq> c" using a(1) assms(2) by (auto simp: runs_def)
    ultimately show ?thesis using a r tp unfolding will_wake_def by (intro exI[of _ c1] exI[of _ w] exI[of _ k]) simp
  qed
  have "will_wake s' i" if a: "cond s'" "i < NPROC" "pst s' i = SLEEPING \<or> (\<exists>c. runs s' c i \<and> tpc s' i = T_sl2)" for i
  proof -
    have "pst s i = SLEEPING \<or> (\<exists>c. runs s c i \<and> tpc s i = T_sl2)"
    proof (cases "i = j")
      case True
      then show ?thesis using a(3) ps tp assms(2,5,7) by auto
    qed (use a(3) ps tp r in auto)
    then show ?thesis using w la(3) a s'(4) unfolding no_lost_def by blast
  qed
  moreover have "\<not> cond s'" if "runs s' c' i" "tpc s' i = T_sl1" for c' i
  proof -
    have "i \<noteq> j" using that(2) tp assms(5) by auto
    then have "runs s c' i" "tpc s i = T_sl1" using that r tp by simp_all
    then show ?thesis using la(3) s'(4) unfolding no_lost_def by blast
  qed
  ultimately have "no_lost s'" unfolding no_lost_def by blast
  then show ?thesis using s' by (simp add: good_def sinv_def)
qed

lemmas update_defs = set_state_def set_chan_def sched_return_def

lemma keep_pc:
  assumes "sinv s" "tpc s j = pc0" "pc0 \<notin> range T_wake" "pc0 \<notin> range T_waked" "pc \<noteq> T_sl1" "pc \<noteq> T_sl2"
    "cond s' \<Longrightarrow> cond s" "runs s' = runs s" "tpc s' = (tpc s)(j := pc)" "\<And>i. pst s' i = SLEEPING \<Longrightarrow> pst s i = SLEEPING"
  shows "no_lost s'"
  by (rule no_lost_keep[where s = s and j = j and pc = pc]) (use assms in \<open>auto simp: sinv_def\<close>)

lemma thread_good_run:
  assumes "sinv s" "runs s c j" "tpc s j = T_run"
  shows "good (thread_step c j ch s)"
proof -
  have h: "held_by s c = {}" using held_run[OF assms(2)] assms(3) by simp
  note k = keep_pc[OF assms(1,3)]
  show ?thesis
  proof (cases ch)
    case (Set_intr b)
    let ?s = "s\<lparr>cpuof := (cpuof s)(c := (cpuof s c)\<lparr>intr := b\<rparr>)\<rparr>"
    have "locks_agree ?s" by (rule agree_same[of s]) (use assms(1) h in \<open>auto simp: sinv_def held_by_def split: spc.split\<close>)
    then show ?thesis using assms Set_intr by (simp add: thread_step_def good_def sinv_def states_agree_def no_lost_def will_wake_def runs_def)
  next
    case (Kill i)
    show ?thesis
    proof (cases "i < NPROC")
      case True
      have "good (rbind (lock i c s) (\<lambda>s. Inr (at j (T_kill i) s)))"
        by (rule good_lock[OF assms(1,2)]) (use h assms(3) True in \<open>auto simp: sane_def intro!: k[where pc = "T_kill i"]\<close>)
      then show ?thesis using assms(3) Kill True by (simp add: thread_step_def)
    next
      case False
      then show ?thesis using assms Kill by (simp add: thread_step_def good_def)
    qed
  next
    case Yield
    have "good (rbind (lock j c s) (\<lambda>s. Inr (at j T_yield s)))"
      by (rule good_lock[OF assms(1,2)]) (use h assms(3) in \<open>auto simp: sane_def intro!: k[where pc = T_yield]\<close>)
    then show ?thesis using assms(3) Yield by (simp add: thread_step_def)
  next
    case Consume
    have "good (rbind (lock NPROC c s) (\<lambda>s. Inr (at j T_crit s)))"
      by (rule good_lock[OF assms(1,2)]) (use h assms(3) in \<open>auto simp: sane_def intro!: k[where pc = T_crit]\<close>)
    then show ?thesis using assms(3) Consume by (simp add: thread_step_def)
  next
    case Produce
    have "good (rbind (lock NPROC c s) (\<lambda>s. Inr (at j T_prod s)))"
      by (rule good_lock[OF assms(1,2)]) (use h assms(3) in \<open>auto simp: sane_def intro!: k[where pc = T_prod]\<close>)
    then show ?thesis using assms(3) Produce by (simp add: thread_step_def)
  next
    case Exit
    have "good (rbind (lock j c s) (\<lambda>s. Inr (at j T_exit s)))"
      by (rule good_lock[OF assms(1,2)]) (use h assms(3) in \<open>auto simp: sane_def intro!: k[where pc = T_exit]\<close>)
    then show ?thesis using assms(3) Exit by (simp add: thread_step_def)
  qed
qed

lemma chan_same: "set_chan j (sleeping_on s j) s = s"
  by (simp add: set_chan_def)

lemma thread_good_simple:
  assumes "sinv s" "runs s c j" "tpc s j \<in> {T_start, T_yield, T_ry, T_rs, T_rel, T_exit} \<union> range T_kill"
  shows "good (thread_step c j ch s)"
proof -
  note h = held_run[OF assms(2)]
  have sg: "sane j (tpc s j)" using st_run assms(1,2) by (auto simp: sinv_def)
  consider (start) "tpc s j = T_start" | (yield) "tpc s j = T_yield" | (ry) "tpc s j = T_ry" | (rs) "tpc s j = T_rs"
    | (rel) "tpc s j = T_rel" | (exit) "tpc s j = T_exit" | (kill) i where "tpc s j = T_kill i" using assms(3) by auto
  then show ?thesis
  proof cases
    case start
    have "good (rbind (unlock j c s) (\<lambda>s. Inr (at j T_run s)))"
      by (rule good_unlock[OF assms(1,2)]) (use h start in \<open>auto simp: sane_def intro!: keep_pc[OF assms(1) start, where pc = T_run]\<close>)
    then show ?thesis using start by (simp add: thread_step_def)
  next
    case yield
    have "good (sched c j T_ry (set_state j RUNNABLE (set_chan j (sleeping_on s j) s)))"
      by (rule good_sched[OF assms(1,2)]) (use h yield in auto)
    then show ?thesis using yield by (simp add: thread_step_def chan_same)
  next
    case ry
    have "good (rbind (unlock j c (sched_return c j s)) (\<lambda>s. Inr (at j T_run s)))"
      by (rule good_unlock[OF assms(1,2)]) (use h ry in \<open>auto simp: sane_def update_defs intro!: keep_pc[OF assms(1) ry, where pc = T_run]\<close>)
    then show ?thesis using ry by (simp add: thread_step_def)
  next
    case rs
    have "good (rbind (unlock j c (set_chan j False (sched_return c j s))) (\<lambda>s. Inr (at j T_rel s)))"
      by (rule good_unlock[OF assms(1,2)]) (use h rs in \<open>auto simp: sane_def update_defs intro!: keep_pc[OF assms(1) rs, where pc = T_rel]\<close>)
    then show ?thesis using rs by (simp add: thread_step_def)
  next
    case rel
    have "good (rbind (lock NPROC c s) (\<lambda>s. Inr (at j T_crit s)))"
      by (rule good_lock[OF assms(1,2)]) (use h rel in \<open>auto simp: sane_def intro!: keep_pc[OF assms(1) rel, where pc = T_crit]\<close>)
    then show ?thesis using rel by (simp add: thread_step_def)
  next
    case exit
    have "good (sched c j T_dead (set_state j ZOMBIE (set_chan j (sleeping_on s j) s)))"
      by (rule good_sched[OF assms(1,2)]) (use h exit in auto)
    then show ?thesis using exit by (simp add: thread_step_def chan_same)
  next
    case (kill i)
    let ?s = "if pst s i = SLEEPING then set_state i RUNNABLE s else s"
    have "good (rbind (unlock i c ?s) (\<lambda>s. Inr (at j T_run s)))"
      by (rule good_unlock[OF assms(1,2)])
        (use h kill in \<open>auto simp: sane_def update_defs split: if_splits intro!: keep_pc[OF assms(1) kill, where pc = T_run]\<close>)
    then show ?thesis using kill by (simp add: thread_step_def)
  qed
qed

text \<open>The critical section of the condition, and \<^verbatim>\<open>sleep\<close>.\<close>

lemma thread_good_sleep:
  assumes "sinv s" "runs s c j" "tpc s j \<in> {T_crit, T_sl1, T_sl2}"
  shows "good (thread_step c j ch s)"
proof -
  note h = held_run[OF assms(2)]
  have jn: "j < NPROC" using st_lt[of s c j] assms(1,2) by (simp add: sinv_def runs_def)
  consider (crit) "tpc s j = T_crit" | (sl1) "tpc s j = T_sl1" | (sl2) "tpc s j = T_sl2" using assms(3) by auto
  then show ?thesis
  proof cases
    case crit
    show ?thesis
    proof (cases "cond s")
      case True
      have "good (rbind (unlock NPROC c (s\<lparr>cond := False\<rparr>)) (\<lambda>s. Inr (at j T_run s)))"
        by (rule good_unlock[OF assms(1,2)]) (use h crit in \<open>auto simp: sane_def intro: no_lost_off\<close>)
      then show ?thesis using crit True by (simp add: thread_step_def)
    next
      case False
      have "good (rbind (lock j c s) (\<lambda>s. Inr (at j T_sl1 s)))"
        by (rule good_lock[OF assms(1,2)]) (use h crit jn False in \<open>auto simp: sane_def intro: no_lost_off\<close>)
      then show ?thesis using crit False by (simp add: thread_step_def)
    qed
  next
    case sl1
    have nc: "\<not> cond s" using assms(1,2) sl1 by (auto simp: sinv_def no_lost_def)
    have "good (rbind (unlock NPROC c s) (\<lambda>s. Inr (at j T_sl2 s)))"
      by (rule good_unlock[OF assms(1,2)]) (use h sl1 jn nc in \<open>auto simp: sane_def intro: no_lost_off\<close>)
    then show ?thesis using sl1 by (simp add: thread_step_def)
  next
    case sl2
    have "good (sched c j T_rs (set_state j SLEEPING (set_chan j True s)))"
      by (rule good_sched[OF assms(1,2)]) (use h sl2 in auto)
    then show ?thesis using sl2 by (simp add: thread_step_def)
  qed
qed

text \<open>Setting the condition, and \<^verbatim>\<open>wakeup\<close>.\<close>

lemma thread_good_wake:
  assumes "sinv s" "runs s c j" "tpc s j \<in> {T_prod} \<union> range T_wake \<union> range T_waked"
  shows "good (thread_step c j ch s)"
proof -
  note h = held_run[OF assms(2)]
  have la: "locks_agree s" "states_agree s" "no_lost s" using assms(1) by (simp_all add: sinv_def)
  have jr: "pst s j = RUNNING" and sg: "sane j (tpc s j)" using st_run[OF la(2) assms(2)] by simp_all
  have only: "c' = c \<and> w = j" if "runs s c' w" "NPROC \<in> thread_holds (tpc s w) w" for c' w
  proof -
    have a: "NPROC \<in> held_by s c" unfolding h using assms(3) by (elim UnE rangeE) simp_all
    have b: "NPROC \<in> held_by s c'" unfolding held_run[OF that(1)] by (rule that(2))
    have "c' = c" by (rule held_unique[OF la(1) b a])
    then show ?thesis using that(1) assms(2) by (simp add: runs_def)
  qed
  consider (prod) "tpc s j = T_prod" | (wake) i where "tpc s j = T_wake i" | (waked) i where "tpc s j = T_waked i" using assms(3) by auto
  then show ?thesis
  proof cases
    case prod
    let ?s = "at j (T_wake 0) (s\<lparr>cond := True\<rparr>)"
    have "will_wake ?s i" for i
      unfolding will_wake_def using assms(2) by (intro exI[of _ c] exI[of _ j] exI[of _ 0]) (simp add: runs_def at_def)
    moreover have "tpc ?s w \<noteq> T_sl1" if "runs ?s c' w" for c' w
    proof
      assume a: "tpc ?s w = T_sl1"
      then have "tpc s w = T_sl1" "runs s c' w" using that by (auto simp: at_def runs_def split: if_splits)
      then show False using only[of c' w] prod by simp
    qed
    ultimately have "no_lost ?s" by (auto simp: no_lost_def)
    then have "good (Inr ?s)" by (intro good_pc[OF assms(1,2)]) (use prod in \<open>auto simp: sane_def\<close>)
    then show ?thesis using prod by (simp add: thread_step_def)
  next
    case (wake i)
    have skip: "good (Inr (at j (T_wake (i + 1)) s))" if "i < NPROC" "pst s i \<noteq> SLEEPING" "\<forall>c. runs s c i \<longrightarrow> tpc s i \<noteq> T_sl2"
    proof -
      let ?s = "at j (T_wake (i + 1)) (s\<lparr>cond := cond s\<rparr>)"
      have "no_lost ?s"
      proof (rule no_lost_wake[OF la(3), where j = j and pc = "T_wake (i + 1)" and c = c and k = i])
        show "\<exists>k'. (T_wake (i + 1) = T_wake k' \<or> T_wake (i + 1) = T_waked k') \<and> k' \<le> i'"
          if "i' < NPROC" "i \<le> i'" "pst ?s i' = SLEEPING \<or> (\<exists>c. runs ?s c i' \<and> tpc ?s i' = T_sl2)" for i'
        proof -
          have "i' \<noteq> i" using that(3) \<open>pst s i \<noteq> SLEEPING\<close> \<open>\<forall>c. runs s c i \<longrightarrow> tpc s i \<noteq> T_sl2\<close> by (auto simp: at_def runs_def split: if_splits)
          then show ?thesis using that(2) by auto
        qed
      qed (use wake assms(2) in \<open>simp_all add: at_def runs_def fun_eq_iff\<close>)
      then have "good (Inr ?s)" by (intro good_pc[OF assms(1,2)]) (use wake in \<open>auto simp: sane_def\<close>)
      then show ?thesis by simp
    qed
    consider (own) "i < NPROC" "i = j" | (used) "i < NPROC" "i \<noteq> j" "holding c (lks s i) \<and> pst s i = USED"
      | (get) "i < NPROC" "i \<noteq> j" "\<not> (holding c (lks s i) \<and> pst s i = USED)" | (fin) "\<not> i < NPROC" by blast
    then show ?thesis
    proof cases
      case own
      then show ?thesis using skip wake jr by (simp add: thread_step_def)
    next
      case used
      have "\<forall>c. runs s c i \<longrightarrow> tpc s i \<noteq> T_sl2" using used st_run[OF la(2), of _ i] by auto
      then show ?thesis using skip wake used by (simp add: thread_step_def)
    next
      case get
      have "good (rbind (lock i c s) (\<lambda>s. Inr (at j (T_waked i) s)))"
      proof (rule good_lock[OF assms(1,2)])
        show "no_lost s'" if e: "cond s' = cond s" "runs s' = runs s" "tpc s' = (tpc s)(j := T_waked i)" "pst s' = pst s" for s'
          by (rule no_lost_wake[OF la(3) e(1-3), where c = c and k = i]) (use wake assms(2) e in auto)
      qed (use h wake get in \<open>auto simp: sane_def\<close>)
      then show ?thesis using wake get by (auto simp: thread_step_def)
    next
      case fin
      have "good (rbind (unlock NPROC c s) (\<lambda>s. Inr (at j T_run s)))"
      proof (rule good_unlock[OF assms(1,2)])
        show "no_lost s'" if e: "cond s' = cond s" "runs s' = runs s" "tpc s' = (tpc s)(j := T_run)" "pst s' = pst s" for s'
          by (rule no_lost_wake[OF la(3) e(1-3), where c = c and k = i]) (use wake assms(2) e fin in auto)
      qed (use h wake in \<open>auto simp: sane_def\<close>)
      then show ?thesis using wake fin by (simp add: thread_step_def)
    qed
  next
    case (waked i)
    have i: "i < NPROC" "i \<noteq> j" using sg waked by (auto simp: sane_def)
    let ?s = "if pst s i = SLEEPING \<and> sleeping_on s i then set_state i RUNNABLE s else s"
    have ns: "pst ?s i \<noteq> SLEEPING" using sleeping_on_chan[OF la(2), of i] by (auto simp: update_defs)
    have n2: "tpc s i \<noteq> T_sl2" if "runs s c' i" for c'
    proof
      assume "tpc s i = T_sl2"
      then have "i \<in> held_by s c'" "i \<in> held_by s c" using held_run[OF that] h waked by simp_all
      then have "c' = c" using held_unique[OF la(1)] by blast
      then show False using that assms(2) i by (simp add: runs_def)
    qed
    have "good (rbind (unlock i c ?s) (\<lambda>s. Inr (at j (T_wake (i + 1)) s)))"
    proof (rule good_unlock[OF assms(1,2)])
      show "no_lost s'" if e: "cond s' = cond ?s" "runs s' = runs s" "tpc s' = (tpc s)(j := T_wake (i + 1))" "pst s' = pst ?s" for s'
      proof (rule no_lost_wake[OF la(3) _ e(2,3), where c = c and k = i])
        show "\<exists>k'. (T_wake (i + 1) = T_wake k' \<or> T_wake (i + 1) = T_waked k') \<and> k' \<le> i'"
          if "i' < NPROC" "i \<le> i'" "pst s' i' = SLEEPING \<or> (\<exists>c. runs s' c i' \<and> tpc s' i' = T_sl2)" for i'
        proof -
          have "i' \<noteq> i" using that(3) ns n2 e i by auto
          then show ?thesis using that(2) by auto
        qed
      qed (use waked assms(2) e in \<open>auto simp: update_defs split: if_splits\<close>)
    qed (use h waked i in \<open>auto simp: sane_def update_defs split: if_splits\<close>)
    then show ?thesis using waked by (simp add: thread_step_def)
  qed
qed

lemma thread_good:
  assumes "sinv s" "runs s c j"
  shows "good (thread_step c j ch s)"
proof (cases "tpc s j")
  case T_dead
  then show ?thesis using st_run[of s c j] assms by (simp add: sinv_def sane_def)
qed (use assms thread_good_run thread_good_simple thread_good_sleep thread_good_wake in simp_all)

text \<open>The scheduler's own steps, which do not change which process runs where.\<close>

lemma idle_states:
  assumes "states_agree s" "spc s' = (spc s)(c := pc)" "\<forall>j. spc s c \<noteq> S_out j" "\<forall>j. pc \<noteq> S_out j \<and> pc \<noteq> S_back j"
    "\<And>i. pc = S_got i \<Longrightarrow> i < NPROC" "cproc s' = (cproc s)(c := None)" "tpc s' = tpc s" "pst s' = pst s" "sleeping_on s' = sleeping_on s"
  shows "states_agree s'" and "runs s' = runs s"
proof -
  have r: "runs s' c' i = runs s c' i" for c' i using assms(2,3,4) by (auto simp: runs_def)
  then show "runs s' = runs s" by (intro ext)
  show "states_agree s'"
  proof (rule states_agreeI)
    show "i < NPROC" if "spc s' c' \<in> {S_got i, S_out i, S_back i}" for c' i
      using that st_lt[OF assms(1), of c' i] assms(2,4,5) by (cases "c' = c") auto
    show "pst s' i = RUNNING \<and> sane i (tpc s' i)" if "runs s' c' i" for c' i
      using st_run[OF assms(1), of c' i] that r assms(7,8) by simp
    show "c1 = c2" if "runs s' c1 i" "runs s' c2 i" for c1 c2 i using st_unique[OF assms(1)] that r by blast
    show "off_ok s' i" if "\<And>c. \<not> runs s' c i" for i
      using st_off[OF assms(1), of i] that r assms(7,8,9) by (simp add: off_ok_def)
    show "cproc s' c' = Some i \<longleftrightarrow> spc s' c' = S_out i \<or> spc s' c' = S_back i" for c' i
      using st_cproc[OF assms(1), of c' i] assms(2,4,6) by (cases "c' = c") auto
  qed
qed

lemma no_lost_same: "no_lost s \<Longrightarrow> runs s' = runs s \<Longrightarrow> tpc s' = tpc s \<Longrightarrow> pst s' = pst s \<Longrightarrow> cond s' = cond s \<Longrightarrow> no_lost s'"
  by (simp add: no_lost_def will_wake_def)

lemma no_proc: "states_agree s \<Longrightarrow> \<forall>j. spc s c \<noteq> S_out j \<and> spc s c \<noteq> S_back j \<Longrightarrow> (cproc s)(c := None) = cproc s"
  using st_cproc[of s c] by (cases "cproc s c") (auto simp: fun_eq_iff)

lemma held_spc: "tpc s' = tpc s \<Longrightarrow> spc s' c' = spc s c' \<Longrightarrow> held_by s' c' = held_by s c'"
  by (simp add: held_by_def split: spc.split)

lemma cpu_good_unlock:
  assumes "sinv s" "spc s c = S_got i \<or> spc s c = S_back i" "s0 = s\<lparr>cproc := (cproc s)(c := None)\<rparr>"
  shows "good (rbind (unlock i c s0) (\<lambda>s. Inr (sat c (S_idle (i + 1)) s)))"
proof -
  have la: "locks_agree s" "states_agree s" "no_lost s" using assms(1) by (simp_all add: sinv_def)
  have h: "held_by s c = {i}" using assms(2) by (auto simp: held_by_def)
  then have hi: "i \<in> held_by s c" by simp
  note ah = agree_held[OF la(1) hi]
  obtain cp where u: "unlock i c s0 = Inr (s0\<lparr>lks := (lks s)(i := initlock), cpuof := (cpuof s)(c := cp)\<rparr>)"
      "noff cp = noff (cpuof s c) - 1" "noff cp > 0 \<longrightarrow> \<not> intr cp"
    using unlock_held[of s0 i c] ah by (auto simp: assms(3))
  define s' where "s' = sat c (S_idle (i + 1)) (s0\<lparr>lks := (lks s)(i := initlock), cpuof := (cpuof s)(c := cp)\<rparr>)"
  have f: "tpc s' = tpc s" "spc s' = (spc s)(c := S_idle (i + 1))" "cproc s' = (cproc s)(c := None)" "pst s' = pst s" "cond s' = cond s"
     "sleeping_on s' = sleeping_on s" "lks s' = (lks s)(i := initlock)" "cpuof s' = (cpuof s)(c := cp)" by (simp_all add: s'_def sat_def assms(3))
  have "held_by s' c = held_by s c - {i}" using h f(2) by (simp add: held_by_def)
  moreover have "\<forall>c'. c' \<noteq> c \<longrightarrow> held_by s' c' = held_by s c'" using held_spc[OF f(1)] f(2) by simp
  ultimately have "locks_agree s'" by (intro agree_remove[OF la(1) hi f(7,8) u(2,3)])
  moreover have st: "states_agree s'" "runs s' = runs s" by (rule idle_states[OF la(2) f(2)]; use assms(2) f(1,3,4,6) in auto)+
  ultimately have "sinv s'" using no_lost_same[OF la(3) st(2) f(1,4,5)] by (simp add: sinv_def)
  then show ?thesis using u(1) by (simp add: good_def rbind_def s'_def)
qed

lemma cpu_good_lock:
  assumes "sinv s" "spc s c = S_idle i" "i < NPROC"
  shows "good (rbind (lock i c s) (\<lambda>s. Inr (sat c (S_got i) s)))"
proof (cases "\<exists>c'. i \<in> held_by s c'")
  case True
  have "i \<notin> held_by s c" using assms(2) by (simp add: held_by_def)
  then show ?thesis using True lock_free[of s i c] assms(1) by (simp add: sinv_def good_def rbind_def)
next
  case False
  have la: "locks_agree s" "states_agree s" "no_lost s" using assms(1) by (simp_all add: sinv_def)
  have h: "held_by s c = {}" using assms(2) by (simp add: held_by_def)
  define s' where "s' = sat c (S_got i) (s\<lparr>lks := (lks s)(i := taken c), cpuof := (cpuof s)(c := push_off (cpuof s c))\<rparr>)"
  have eq: "rbind (lock i c s) (\<lambda>s. Inr (sat c (S_got i) s)) = Inr s'"
    using lock_free[OF la(1), of i c] False h by (simp add: rbind_def s'_def)
  have f: "tpc s' = tpc s" "spc s' = (spc s)(c := S_got i)" "pst s' = pst s" "cond s' = cond s"
     "sleeping_on s' = sleeping_on s" "lks s' = (lks s)(i := taken c)" "cpuof s' = (cpuof s)(c := push_off (cpuof s c))"
     "cproc s' = (cproc s)(c := None)" using no_proc[OF la(2), of c] assms(2) by (simp_all add: s'_def sat_def)
  have hc: "held_by s' c = insert i (held_by s c)" using h f(2) by (simp add: held_by_def)
  have ho: "\<forall>c'. c' \<noteq> c \<longrightarrow> held_by s' c' = held_by s c'" using held_spc[OF f(1)] f(2) by simp
  have nf: "\<forall>c'. i \<notin> held_by s c'" using False by simp
  have "locks_agree s'" by (rule agree_insert[OF la(1) nf f(6,7) hc ho])
  moreover have st: "states_agree s'" "runs s' = runs s" by (rule idle_states[OF la(2) f(2)]; use assms(2,3) f(1,3,5,8) in auto)+
  ultimately have "sinv s'" using no_lost_same[OF la(3) st(2) f(1,3,4)] by (simp add: sinv_def)
  then show ?thesis using eq by (simp add: good_def)
qed

text \<open>The switch to a process: its thread goes on with \<^verbatim>\<open>p->lock\<close> held.\<close>

lemma cpu_good_switch:
  assumes "sinv s" "spc s c = S_got i" "pst s i = RUNNABLE"
  shows "good (Inr (sat c (S_out i) ((set_state i RUNNING s)\<lparr>cproc := (cproc s)(c := Some i)\<rparr>)))"
proof -
  have la: "locks_agree s" "states_agree s" "no_lost s" using assms(1) by (simp_all add: sinv_def)
  define s' where "s' = sat c (S_out i) ((set_state i RUNNING s)\<lparr>cproc := (cproc s)(c := Some i)\<rparr>)"
  have f: "tpc s' = tpc s" "spc s' = (spc s)(c := S_out i)" "pst s' = (pst s)(i := RUNNING)" "cond s' = cond s"
     "sleeping_on s' = sleeping_on s" "lks s' = lks s" "cpuof s' = cpuof s" "cproc s' = (cproc s)(c := Some i)"
    by (simp_all add: s'_def sat_def set_state_def)
  have nr: "\<not> runs s c' i" for c' using st_run[OF la(2), of c' i] assms(3) by auto
  have off: "tpc s i \<in> {T_start, T_ry, T_rs}" using st_off[OF la(2) nr] assms(3) by (auto simp: off_ok_def)
  have iN: "i < NPROC" using st_lt[OF la(2), of c i] assms(2) by simp
  have r: "runs s' c' k \<longleftrightarrow> (if c' = c then k = i else runs s c' k)" for c' k by (auto simp: runs_def f)
  have "held_by s' c' = held_by s c'" for c'
    using off assms(2) held_spc[OF f(1), of c'] f(1,2) by (cases "c' = c") (auto simp: held_by_def)
  then have "locks_agree s'" by (intro agree_same[OF la(1) f(6)]) (simp_all add: f(7))
  moreover have "states_agree s'"
  proof (rule states_agreeI)
    show "k < NPROC" if "spc s' c' \<in> {S_got k, S_out k, S_back k}" for c' k
      using that st_lt[OF la(2), of c' k] f(2) iN by (cases "c' = c") auto
    show "pst s' k = RUNNING \<and> sane k (tpc s' k)" if "runs s' c' k" for c' k
      using that r[of c' k] st_run[OF la(2), of c' k] off f(1,3) nr by (auto simp: sane_def split: if_splits)
    show "c1 = c2" if "runs s' c1 k" "runs s' c2 k" for c1 c2 k
      using that r[of c1 k] r[of c2 k] nr st_unique[OF la(2), of c1 k c2] by (auto split: if_splits)
    show "off_ok s' k" if "\<And>c. \<not> runs s' c k" for k
    proof -
      have "k \<noteq> i" using that[of c] r[of c k] by auto
      moreover have "\<not> runs s c' k" for c' using that[of c'] r[of c' k] assms(2) by (auto simp: runs_def split: if_splits)
      ultimately show ?thesis using st_off[OF la(2), of k] f(1,3,5) by (simp add: off_ok_def)
    qed
    show "cproc s' c' = Some k \<longleftrightarrow> spc s' c' = S_out k \<or> spc s' c' = S_back k" for c' k
      using st_cproc[OF la(2), of c' k] f(2,8) by (cases "c' = c") auto
  qed
  moreover have "no_lost s'"
  proof -
    have w: "will_wake s' k" if "will_wake s k" for k
    proof -
      obtain c1 w m where a: "runs s c1 w" "tpc s w = T_wake m \<or> tpc s w = T_waked m" "m \<le> k" using \<open>will_wake s k\<close> unfolding will_wake_def by blast
      have "c1 \<noteq> c" using a(1) assms(2) by (auto simp: runs_def)
      then show ?thesis using a r[of c1 w] f(1) unfolding will_wake_def by (intro exI[of _ c1] exI[of _ w] exI[of _ m]) simp
    qed
    have "will_wake s' k" if a: "cond s'" "k < NPROC" "pst s' k = SLEEPING \<or> (\<exists>c. runs s' c k \<and> tpc s' k = T_sl2)" for k
    proof -
      have "k \<noteq> i" using a(3) f(1,3) off by auto
      then have "pst s k = SLEEPING \<or> (\<exists>c. runs s c k \<and> tpc s k = T_sl2)" using a(3) f(1,3) r by (auto split: if_splits)
      then show ?thesis using w la(3) a f(4) unfolding no_lost_def by blast
    qed
    moreover have "\<not> cond s'" if a: "runs s' c' k" "tpc s' k = T_sl1" for c' k
    proof -
      have "k \<noteq> i" using a(2) f(1) off by auto
      then have "runs s c' k" using a(1) r[of c' k] by (auto split: if_splits)
      then show ?thesis using la(3) a(2) f(1,4) by (auto simp: no_lost_def)
    qed
    ultimately show ?thesis unfolding no_lost_def by blast
  qed
  ultimately show ?thesis by (simp add: good_def sinv_def s'_def)
qed

lemma cpu_good:
  assumes "sinv s"
  shows "good (cpu_step c ch s)"
proof -
  have la: "locks_agree s" "states_agree s" "no_lost s" using assms by (simp_all add: sinv_def)
  have quiet: "sinv (sat c pc s1)" if pc: "pc = S_loop \<or> pc = S_idle k" and sp: "spc s c = S_loop \<or> (\<exists>i. spc s c = S_idle i)"
      and s1: "s1 = s \<or> s1 = s\<lparr>cpuof := (cpuof s)(c := (cpuof s c)\<lparr>intr := True\<rparr>)\<rparr>" for pc k s1
  proof -
    have f: "tpc (sat c pc s1) = tpc s" "spc (sat c pc s1) = (spc s)(c := pc)" "pst (sat c pc s1) = pst s" "cond (sat c pc s1) = cond s"
       "sleeping_on (sat c pc s1) = sleeping_on s" "lks (sat c pc s1) = lks s" "cproc (sat c pc s1) = (cproc s)(c := None)"
      using s1 no_proc[OF la(2), of c] sp by (auto simp: sat_def)
    have h: "held_by s c = {}" using sp by (auto simp: held_by_def)
    have "held_by (sat c pc s1) c' = held_by s c'" for c'
      using held_spc[OF f(1), of c'] f(2) h pc by (cases "c' = c") (auto simp: held_by_def)
    then have "locks_agree (sat c pc s1)" by (intro agree_same[OF la(1) f(6)]) (use s1 h in \<open>auto simp: sat_def split: if_splits\<close>)
    moreover have st: "states_agree (sat c pc s1)" "runs (sat c pc s1) = runs s"
      by (rule idle_states[OF la(2) f(2)]; use sp pc f(1,3,5,7) in auto)+
    ultimately show ?thesis using no_lost_same[OF la(3) st(2) f(1,3,4)] by (simp add: sinv_def)
  qed
  show ?thesis
  proof (cases "spc s c")
    case S_loop
    then show ?thesis using quiet[of "S_idle 0"] by (simp add: cpu_step_def good_def)
  next
    case (S_idle i)
    then show ?thesis using quiet[of S_loop] cpu_good_lock[OF assms S_idle] by (simp add: cpu_step_def good_def)
  next
    case (S_got i)
    then show ?thesis using cpu_good_switch[OF assms S_got] cpu_good_unlock[OF assms _ refl, of c i] no_proc[OF la(2), of c]
      by (auto simp: cpu_step_def)
  next
    case (S_back i)
    then show ?thesis using cpu_good_unlock[OF assms _ refl, of c i] by (simp add: cpu_step_def)
  next
    case (S_out j)
    then show ?thesis using thread_good[OF assms, of c j ch] by (simp add: cpu_step_def runs_def)
  qed
qed

lemma reach_sinv: "sched_reach s \<Longrightarrow> sinv s"
proof (induction rule: sched_reach.induct)
  case (boot s)
  have "held_by s c = {}" for c using boot(2) by (simp add: held_by_def)
  then have "locks_agree s" using boot(1,2) by (simp add: locks_agree_def)
  moreover have "\<not> runs s c j" for c j using boot(2) by (simp add: runs_def)
  moreover have "off_ok s j" for j using boot(3)[rule_format, of j] by (auto simp: off_ok_def)
  moreover from calculation have "states_agree s" using boot(2) by (intro states_agreeI) auto
  moreover have "pst s j \<noteq> SLEEPING" for j using boot(3)[rule_format, of j] by auto
  ultimately show ?case by (simp add: sinv_def no_lost_def)
next
  case (step s c ch s')
  then show ?case using cpu_good[of s c ch] by (simp add: good_def)
qed

text \<open>
  C33: with any number of CPUs, and processes that yield, sleep, wake each other up, kill each other and
  exit in any order: no step panics (the checks of \<^verbatim>\<open>sched\<close> on the lock, the nesting of locks, the
  state and the interrupts never fail, no lock is acquired twice or released by a stranger, and
  no zombie runs); a process runs on at most one CPU, exactly while its state is \<^verbatim>\<open>RUNNING\<close>; and no wakeup
  is lost: when the condition holds and nobody is in its critical section, nobody sleeps on it.
\<close>

theorem scheduler_safe:
  assumes "sched_reach s"
  shows "cpu_step c ch s \<noteq> Inl (Panic m) \<and>
    (runs s c1 j \<longrightarrow> runs s c2 j \<longrightarrow> c1 = c2) \<and> (pst s j = RUNNING \<longleftrightarrow> (\<exists>c. runs s c j)) \<and>
    (cond s \<longrightarrow> \<not> lk_locked (lks s NPROC) \<longrightarrow> j < NPROC \<longrightarrow> pst s j \<noteq> SLEEPING)"
proof -
  have inv: "sinv s" by (rule reach_sinv) fact
  then have la: "locks_agree s" "states_agree s" "no_lost s" by (simp_all add: sinv_def)
  have "cpu_step c ch s \<noteq> Inl (Panic m)" using cpu_good[OF inv, of c ch] by (simp add: good_def)
  moreover have "runs s c1 j \<longrightarrow> runs s c2 j \<longrightarrow> c1 = c2" using st_unique[OF la(2)] by blast
  moreover have "pst s j = RUNNING \<longleftrightarrow> (\<exists>c. runs s c j)" using st_run[OF la(2)] st_off[OF la(2), of j] by (auto simp: off_ok_def)
  moreover have "pst s j \<noteq> SLEEPING" if a: "cond s" "\<not> lk_locked (lks s NPROC)" "j < NPROC"
  proof
    assume "pst s j = SLEEPING"
    then have "will_wake s j" using la(3) a unfolding no_lost_def by blast
    then obtain c w i where w: "runs s c w" "tpc s w = T_wake i \<or> tpc s w = T_waked i" unfolding will_wake_def by blast
    have "NPROC \<in> held_by s c" unfolding held_run[OF w(1)] using w(2) by auto
    then have "lks s NPROC = taken c" using agree_held[OF la(1)] by blast
    then show False using a(2) by (simp add: taken_def)
  qed
  ultimately show ?thesis by blast
qed

text \<open>CPU 0 has booted, picked process 0 and switched to it.\<close>

theorem scheduler_safe_witness:
  "\<exists>s. sched_reach s \<and> runs s 0 0 \<and> pst s 0 = RUNNING \<and> \<not> runs s 1 0 \<and> thread_step 0 0 Yield s \<noteq> Inl (Panic ''release'')"
proof -
  define s0 where "s0 = \<lparr>lks = \<lambda>_. initlock, cpuof = \<lambda>_. \<lparr>noff = 0, intena = False, intr = False\<rparr>, cproc = \<lambda>_. None, spc = \<lambda>_. S_loop,
    tpc = \<lambda>_. T_start, pst = \<lambda>_. RUNNABLE, sleeping_on = \<lambda>_. False, saved = \<lambda>_. False, cond = False\<rparr>"
  define s1 where "s1 = sat 0 (S_idle 0) (s0\<lparr>cpuof := (cpuof s0)(0 := (cpuof s0 0)\<lparr>intr := True\<rparr>)\<rparr>)"
  define s2 where "s2 = sat 0 (S_got 0) (s1\<lparr>lks := (lks s1)(0 := taken 0), cpuof := (cpuof s1)(0 := push_off (cpuof s1 0))\<rparr>)"
  define s3 where "s3 = sat 0 (S_out 0) ((set_state 0 RUNNING s2)\<lparr>cproc := (cproc s2)(0 := Some 0)\<rparr>)"
  have r0: "sched_reach s0" by (rule sched_reach.boot) (simp_all add: s0_def)
  have "cpu_step 0 Yield s0 = Inr s1" unfolding cpu_step_def s1_def by (simp add: s0_def)
  with r0 have r1: "sched_reach s1" by (rule sched_reach.step)
  have f1: "lks s1 0 = initlock" "spc s1 0 = S_idle 0" by (simp_all add: s1_def s0_def sat_def)
  have "cpu_step 0 Yield s1 = Inr s2" unfolding cpu_step_def s2_def lock_def acquire_def acquire_enter_def
    using f1 by (simp add: holding_def initlock_def acquire_swap_def acquire_record_def taken_def rbind_def NPROC_def Let_def)
  with r1 have r2: "sched_reach s2" by (rule sched_reach.step)
  have f2: "spc s2 0 = S_got 0" "pst s2 0 = RUNNABLE" by (simp_all add: s2_def s1_def s0_def sat_def)
  have "cpu_step 0 Yield s2 = Inr s3" unfolding cpu_step_def s3_def by (simp add: f2)
  with r2 have r3: "sched_reach s3" by (rule sched_reach.step)
  have run: "runs s3 0 0" by (simp add: s3_def sat_def runs_def)
  then have "spc s3 0 = S_out 0" by (simp add: runs_def)
  moreover have "cpu_step 0 Yield s3 \<noteq> Inl (Panic ''release'')" "pst s3 0 = RUNNING" "\<not> runs s3 1 0"
    using scheduler_safe[OF r3, of 0 Yield "''release''" 0 0 1] run by auto
  ultimately show ?thesis using r3 run by (auto simp: cpu_step_def)
qed

end
