(* ===== verification/Spec2Isabelle.thy ===== *)
theory Spec2Isabelle
  imports Raid_Scenarios Raid_Striped CString Syscall Console Sched
begin

text \<open>
  A teaching kernel in C (xv6 for RISC-V) with a software RAID layer.

  \<^bold>\<open>The program.\<close>  The kernel manages memory in pages (\<^verbatim>\<open>kernel/kalloc.c\<close>, \<^verbatim>\<open>kernel/vm.c\<close>), drives virtio disks
  (\<^verbatim>\<open>kernel/virtio_disk.c\<close>) and keeps on disk 0 a file system with a buffer cache and a redo log
  (\<^verbatim>\<open>kernel/bio.c\<close>, \<^verbatim>\<open>kernel/log.c\<close>, \<^verbatim>\<open>kernel/fs.c\<close>).  On the other disks it keeps one RAID array (\<^verbatim>\<open>kernel/raid.c\<close>,
  \<^verbatim>\<open>kernel/raid_rw.c\<close>), which user programs reach block by block through system calls of its own, beside
  the file system.  Processes (\<^verbatim>\<open>kernel/proc.c\<close>) use files, pipes and the console (\<^verbatim>\<open>kernel/file.c\<close>,
  \<^verbatim>\<open>kernel/pipe.c\<close>, \<^verbatim>\<open>kernel/console.c\<close>, \<^verbatim>\<open>kernel/uart.c\<close>) through the system calls of \<^verbatim>\<open>kernel/sysfile.c\<close>,
  \<^verbatim>\<open>kernel/sysproc.c\<close> and \<^verbatim>\<open>kernel/sysraid.c\<close>.

  \<^bold>\<open>Conventions.\<close>  C integers of fixed width are words where they can wrap around, and \<open>int\<close> where signed
  overflow would be undefined.  A function that can stop the kernel returns \<open>'a result\<close>: \<open>Inl\<close> a fault
  (a panic with its message, an access outside an array, a null pointer, a division by zero, waiting
  for a lock that is taken) or \<open>Inr\<close> the value.  State is passed explicitly; each layer has a
  record that contains the record of the layer below.  A section of code under a spin lock is one step,
  and code that sleeps runs from the head of its waiting loop to a return or to the sleep.
  Where interleavings matter they are step relations.

  \<^bold>\<open>Theories.\<close>
  \<^item> \<open>Prelude\<close>: words, faults, sequencing, byte-addressed memory and its lemmas.  \<open>Bytes\<close>: numbers in lists of
    bytes.  \<open>Ring\<close>: ring buffers with wrapping counters and the interface \<open>fifo\<close>.
  \<^item> \<open>Kalloc\<close>, \<open>Vm\<close>: free list and page tables in physical memory; \<open>page_allocator\<close> is the interface of the
    allocator, and \<^verbatim>\<open>kinit\<close> is shown to hand out every whole page once.
  \<^item> \<open>Virtio\<close>: descriptor chains, one request and its completion; the disk behind the interface \<open>block_store\<close>
    is a parameter that does what the virtio specification says of a request.
  \<^item> \<open>Raid_Meta\<close>, \<open>Raid_RW\<close>, \<open>Raid_Admin\<close>: \<^verbatim>\<open>struct raid\<close> in its page, the operations of every level, and the
    administration.  \<open>Raid_Stripes\<close>, \<open>Raid_Parity\<close>, \<open>Raid_Init\<close>: the parity invariant, reading, writing,
    recovery and start of RAID 4 and 5.  \<open>Raid_Array\<close>: the interface of an array of blocks and its
    interpretation for RAID 4 and 5.  \<open>Raid_Mirror\<close>, \<open>Raid_Striped\<close>: RAID 1, 0+1 and 0.
    \<open>Raid_Scenarios\<close>: failures, restarts and the test program.
  \<^item> \<open>Locks\<close>: spin locks with several CPUs, sleep locks.  \<open>Bio\<close>: the buffer cache; its list refines a list
    ordered by last use, and \<open>buffer_cache\<close> is the interface the log uses.  \<open>Log\<close>: transactions; a crash at
    any disk write of a commit leaves all or nothing after recovery.
  \<^item> \<open>Fs\<close>, \<open>Names\<close>: inodes, block maps, directories, paths.  What \<^verbatim>\<open>iupdate\<close> writes in a transaction \<^verbatim>\<open>ilock\<close>
    reads back.
  \<^item> \<open>Kernel\<close>: the state of processes and files.  \<open>File\<close>, \<open>Proc\<close>, \<open>Sysfile\<close>, \<open>Exec\<close>, \<open>Syscall\<close>: file table, life
    of a process, the system calls and their dispatch.  The RAID calls run on the same memory and
    disks as the rest.
  \<^item> \<open>Sched\<close>: the scheduler, \<^verbatim>\<open>sched\<close>, \<^verbatim>\<open>yield\<close>, \<^verbatim>\<open>sleep\<close> and \<^verbatim>\<open>wakeup\<close> with several CPUs, one lock operation at a time.
    Nothing panics, a process is on one CPU at most, and no wakeup is lost.
  \<^item> \<open>Pipe\<close>, \<open>Console\<close>, \<open>CString\<close>: pipes, the console with the serial line, string functions.

  \<^bold>\<open>Bounds.\<close>  Loops are recursive functions with a termination proof.  The recursion of \<^verbatim>\<open>freewalk\<close> over a page
  table is bounded by its number of levels, which is 3 for the tables the kernel makes.
  The string functions of the user library that look for a zero byte are partial functions.  The RAID
  theorems are stated for 2 to 6 disks, for which transfers of 1024 bytes into the 512-byte slots of the
  cache stay in the page of \<^verbatim>\<open>struct raid\<close>.

  \<^bold>\<open>Not modelled.\<close>  Assembly, control registers and the interrupt controller; the page table of the kernel
  itself; printing; the boot sequence beyond the initialisations named above; the memory
  model of the hardware (the atomic swap of a lock is one step); \<^verbatim>\<open>mkfs\<close>, which runs on the build host; the
  shell and the other user programs, which use the kernel through its system calls, except
  for the loops of \<^verbatim>\<open>user/raidtest.c\<close>.
\<close>

end
